(* ===== verification/Ruq_Prelude.thy ===== *)
theory Ruq_Prelude
  imports Main "HOL-Library.Word"
begin

text \<open>
  Shared vocabulary of the development: machine integers, the outcome of running a piece of
  Rust code, slices and indexing with their panics, and the generic lemmas about them that
  the component theories use through the simplifier.
\<close>

unbundle bit_operations_syntax

section \<open>Collections\<close>

named_theorems wire_simps \<open>evaluation of slices, indexing and big-endian integers\<close>

section \<open>Machine integers and the build profile\<close>

type_synonym u8 = "8 word"
type_synonym u16 = "16 word"
type_synonym u32 = "32 word"

text \<open>
  Rust compiles integer overflow in two ways: with overflow checks (the default of
  \<^verbatim>\<open>cargo build\<close>) it panics, without them (the default of \<^verbatim>\<open>cargo build --release\<close>) it
  wraps around. Every definition whose arithmetic can overflow takes the profile as its
  first argument, so a theorem says in which of the two it holds.
\<close>

datatype build = Checked | Wrapping

section \<open>Outcomes\<close>

text \<open>
  What running a function can lead to: it returns \<open>Ok\<close>, it returns \<open>Err\<close>, it panics, or it
  never returns (a loop that repeats the same state for ever).
\<close>

datatype ('a, 'e) outcome = Ok 'a | Err 'e | Panic | Diverge

text \<open>Sequencing: the \<open>?\<close> operator together with the code that follows it.\<close>

fun andthen :: "('a, 'e) outcome \<Rightarrow> ('a \<Rightarrow> ('b, 'e) outcome) \<Rightarrow> ('b, 'e) outcome" where
  "andthen (Ok x) f = f x"
| "andthen (Err e) f = Err e"
| "andthen Panic f = Panic"
| "andthen Diverge f = Diverge"

fun map_err :: "('e \<Rightarrow> 'f) \<Rightarrow> ('a, 'e) outcome \<Rightarrow> ('a, 'f) outcome" where
  "map_err f (Ok x) = Ok x"
| "map_err f (Err e) = Err (f e)"
| "map_err f Panic = Panic"
| "map_err f Diverge = Diverge"

definition ok_or :: "'a option \<Rightarrow> 'e \<Rightarrow> ('a, 'e) outcome" where
  "ok_or x e = (case x of None \<Rightarrow> Err e | Some v \<Rightarrow> Ok v)"

lemma ok_or_simps [simp]:
  "ok_or None e = Err e"
  "ok_or (Some v) e = Ok v"
  by (simp_all add: ok_or_def)

lemma andthen_cong [fundef_cong]:
  assumes "m = m'" and "\<And>x. m' = Ok x \<Longrightarrow> f x = g x"
  shows "andthen m f = andthen m' g"
  using assms by (cases m') auto

lemma andthen_eq_Ok: "andthen m f = Ok y \<longleftrightarrow> (\<exists>x. m = Ok x \<and> f x = Ok y)"
  by (cases m) auto

lemma Ok_eq_andthen: "Ok y = andthen m f \<longleftrightarrow> (\<exists>x. m = Ok x \<and> f x = Ok y)"
  by (cases m) auto

lemma andthen_OkE:
  assumes "andthen m f = Ok y"
  obtains x where "m = Ok x" and "f x = Ok y"
  using assms by (auto simp: andthen_eq_Ok)

lemma andthen_eq_Diverge:
  "andthen m f = Diverge \<longleftrightarrow> m = Diverge \<or> (\<exists>x. m = Ok x \<and> f x = Diverge)"
  by (cases m) auto

lemma andthen_eq_Panic:
  "andthen m f = Panic \<longleftrightarrow> m = Panic \<or> (\<exists>x. m = Ok x \<and> f x = Panic)"
  by (cases m) auto

lemma andthen_eq_Err:
  "andthen m f = Err e \<longleftrightarrow> m = Err e \<or> (\<exists>x. m = Ok x \<and> f x = Err e)"
  by (cases m) auto

lemma map_err_eq_Ok [simp]: "map_err f m = Ok x \<longleftrightarrow> m = Ok x"
  by (cases m) auto

lemma map_err_eq_Panic [simp]: "map_err f m = Panic \<longleftrightarrow> m = Panic"
  by (cases m) auto

lemma map_err_eq_Diverge [simp]: "map_err f m = Diverge \<longleftrightarrow> m = Diverge"
  by (cases m) auto

section \<open>Arithmetic that can overflow\<close>

definition checked_word :: "build \<Rightarrow> nat \<Rightarrow> ('n::len word, 'e) outcome" where
  "checked_word b n =
     (if b = Checked \<and> 2 ^ LENGTH('n) \<le> n then Panic else Ok (word_of_nat n))"

definition uadd :: "build \<Rightarrow> 'n::len word \<Rightarrow> 'n word \<Rightarrow> ('n word, 'e) outcome" where
  "uadd b x y = checked_word b (unat x + unat y)"

definition umul :: "build \<Rightarrow> 'n::len word \<Rightarrow> 'n word \<Rightarrow> ('n word, 'e) outcome" where
  "umul b x y = checked_word b (unat x * unat y)"

definition usub :: "build \<Rightarrow> 'n::len word \<Rightarrow> 'n word \<Rightarrow> ('n word, 'e) outcome" where
  "usub b x y = (if b = Checked \<and> unat x < unat y then Panic else Ok (x - y))"

lemma uadd_ok: "unat x + unat y < 2 ^ LENGTH('n) \<Longrightarrow> uadd b x y = Ok (x + y)"
  for x y :: "'n::len word"
  by (simp add: uadd_def checked_word_def)

lemma umul_ok: "unat x * unat y < 2 ^ LENGTH('n) \<Longrightarrow> umul b x y = Ok (x * y)"
  for x y :: "'n::len word"
  by (simp add: umul_def checked_word_def)

lemma usub_ok: "y \<le> x \<Longrightarrow> usub b x y = Ok (x - y)"
  by (simp add: usub_def word_le_nat_alt)

lemma wrapping_ok [simp]:
  "uadd Wrapping x y = Ok (x + y)"
  "umul Wrapping x y = Ok (x * y)"
  "usub Wrapping x y = Ok (x - y)"
  by (simp_all add: uadd_def umul_def usub_def checked_word_def)

lemma arith_not_Err [simp]:
  "uadd b x y \<noteq> Err e" "umul b x y \<noteq> Err e" "usub b x y \<noteq> Err e"
  "uadd b x y \<noteq> Diverge" "umul b x y \<noteq> Diverge" "usub b x y \<noteq> Diverge"
  by (simp_all add: uadd_def umul_def usub_def checked_word_def)

text \<open>
  \<open>usize\<close> values are natural numbers. Sums of lengths of slices that exist in memory stay
  far below \<open>2 ^ 64\<close>; where a difference can underflow, the two operations below are used.
\<close>

definition usize_sub :: "build \<Rightarrow> nat \<Rightarrow> nat \<Rightarrow> (nat, 'e) outcome" where
  "usize_sub b x y =
     (if y \<le> x then Ok (x - y) else if b = Checked then Panic else Ok (2 ^ 64 + x - y))"

definition usize_add :: "build \<Rightarrow> nat \<Rightarrow> nat \<Rightarrow> (nat, 'e) outcome" where
  "usize_add b x y =
     (if x + y < 2 ^ 64 then Ok (x + y)
      else if b = Checked then Panic else Ok ((x + y) mod 2 ^ 64))"

lemma usize_ok:
  "y \<le> x \<Longrightarrow> usize_sub b x y = Ok (x - y)"
  "x + y < 2 ^ 64 \<Longrightarrow> usize_add b x y = Ok (x + y)"
  by (simp_all add: usize_sub_def usize_add_def)

section \<open>Indexing and slicing\<close>

text \<open>
  \<^verbatim>\<open>xs[i]\<close>, \<^verbatim>\<open>&xs[a..]\<close> and \<^verbatim>\<open>&xs[a..b]\<close> panic out of range;
  \<^verbatim>\<open>xs.get(..)\<close> returns \<open>None\<close> instead.
\<close>

definition index_at :: "'a list \<Rightarrow> nat \<Rightarrow> ('a, 'e) outcome" where
  "index_at xs i = (if i < length xs then Ok (xs ! i) else Panic)"

definition slice_from :: "'a list \<Rightarrow> nat \<Rightarrow> ('a list, 'e) outcome" where
  "slice_from xs a = (if a \<le> length xs then Ok (drop a xs) else Panic)"

definition slice_range :: "'a list \<Rightarrow> nat \<Rightarrow> nat \<Rightarrow> ('a list, 'e) outcome" where
  "slice_range xs a b =
     (if a \<le> b \<and> b \<le> length xs then Ok (take (b - a) (drop a xs)) else Panic)"

definition get_at :: "'a list \<Rightarrow> nat \<Rightarrow> 'a option" where
  "get_at xs i = (if i < length xs then Some (xs ! i) else None)"

definition get_from :: "'a list \<Rightarrow> nat \<Rightarrow> 'a list option" where
  "get_from xs a = (if a \<le> length xs then Some (drop a xs) else None)"

definition get_range :: "'a list \<Rightarrow> nat \<Rightarrow> nat \<Rightarrow> 'a list option" where
  "get_range xs a b =
     (if a \<le> b \<and> b \<le> length xs then Some (take (b - a) (drop a xs)) else None)"

fun position :: "('a \<Rightarrow> bool) \<Rightarrow> 'a list \<Rightarrow> nat option" where
  "position p [] = None"
| "position p (x # xs) = (if p x then Some 0 else map_option Suc (position p xs))"

lemma slice_append [wire_simps]:
  "n = length xs \<Longrightarrow> slice_from (xs @ ys) n = Ok ys"
  "n = length xs \<Longrightarrow> m = length xs + length ys \<Longrightarrow> slice_range (xs @ ys @ zs) n m = Ok ys"
  "n = length xs \<Longrightarrow> m = length xs + length ys \<Longrightarrow> slice_range (xs @ ys) n m = Ok ys"
  "n = length xs \<Longrightarrow> index_at (xs @ y # ys) n = Ok y"
  by (simp_all add: slice_from_def slice_range_def index_at_def)

lemma index_at_Cons [wire_simps]:
  "index_at (x # xs) 0 = Ok x"
  "index_at (x # xs) (Suc n) = index_at xs n"
  by (simp_all add: index_at_def)

lemma get_at_Cons [wire_simps]:
  "get_at [] n = None"
  "get_at (x # xs) 0 = Some x"
  "get_at (x # xs) (Suc n) = get_at xs n"
  by (simp_all add: get_at_def)

lemma slice_from_Cons [wire_simps]:
  "slice_from xs 0 = Ok xs"
  "slice_from (x # xs) (Suc n) = slice_from xs n"
  by (simp_all add: slice_from_def)

lemma slice_from_Cons_one [wire_simps]: "slice_from (x # xs) 1 = Ok xs"
  by (simp add: slice_from_def)

lemma Cons_numeral [wire_simps]:
  "slice_from (x # xs) (numeral k) = slice_from xs (pred_numeral k)"
  "index_at (x # xs) (numeral k) = index_at xs (pred_numeral k)"
  "get_at (x # xs) (numeral k) = get_at xs (pred_numeral k)"
  by (simp_all add: numeral_eq_Suc slice_from_def index_at_def get_at_def)

lemma skip_append [wire_simps]:
  "length xs \<le> n \<Longrightarrow> index_at (xs @ ys) n = index_at ys (n - length xs)"
  "length xs \<le> n \<Longrightarrow> slice_from (xs @ ys) n = slice_from ys (n - length xs)"
  by (auto simp: index_at_def slice_from_def nth_append)

lemma slice_not_Err [simp]:
  "slice_from xs a \<noteq> Err e" "slice_range xs a c \<noteq> Err e" "index_at xs a \<noteq> Err e"
  "slice_from xs a \<noteq> Diverge" "slice_range xs a c \<noteq> Diverge" "index_at xs a \<noteq> Diverge"
  by (simp_all add: slice_from_def slice_range_def index_at_def)

lemma slice_from_eq_Ok: "slice_from xs a = Ok ys \<longleftrightarrow> a \<le> length xs \<and> ys = drop a xs"
  by (auto simp: slice_from_def)

lemma index_at_extend:
  "index_at xs i = (Ok y :: ('a, 'e) outcome) \<Longrightarrow> index_at (xs @ ys) i = (Ok y :: ('a, 'e) outcome)"
  by (auto simp: index_at_def nth_append split: if_splits)

lemma slice_from_extend:
  "slice_from xs a = (Ok zs :: ('a list, 'e) outcome) \<Longrightarrow>
    slice_from (xs @ ys) a = (Ok (zs @ ys) :: ('a list, 'e) outcome)"
  by (auto simp: slice_from_def split: if_splits)

lemma slice_range_eq_Ok:
  "slice_range xs a c = Ok ys \<longleftrightarrow> a \<le> c \<and> c \<le> length xs \<and> ys = take (c - a) (drop a xs)"
  by (auto simp: slice_range_def)

lemma index_at_eq_Ok: "index_at xs i = Ok y \<longleftrightarrow> i < length xs \<and> y = xs ! i"
  by (auto simp: index_at_def)

lemma get_at_eq_Some: "get_at xs i = Some y \<longleftrightarrow> i < length xs \<and> y = xs ! i"
  by (auto simp: get_at_def)

lemma get_at_append [simp]: "i < length xs \<Longrightarrow> get_at (xs @ ys) i = get_at xs i"
  by (simp add: get_at_def nth_append)

lemma get_at_length_append [simp]: "get_at (xs @ y # ys) (length xs) = Some y"
  by (simp add: get_at_def)

lemma position_Some:
  "position p xs = Some i \<Longrightarrow> i < length xs \<and> p (xs ! i)"
  by (induction xs arbitrary: i) (auto split: if_splits)

lemma position_None: "position p xs = None \<longleftrightarrow> (\<forall>x\<in>set xs. \<not> p x)"
  by (induction xs) auto

section \<open>Big-endian integers\<close>

lemma unat_u8_less [simp]: "unat (x :: u8) < 256"
  using unsigned_less [of x] by simp

lemma unat_u16_less [simp]: "unat (x :: u16) < 65536"
  using unsigned_less [of x] by simp

lemma unat_ucast_u8:
  "unat (ucast (x :: u8) :: u32) = unat x"
  "unat (ucast (x :: u8) :: u16) = unat x"
proof -
  have "unat x < 2 ^ 32" "unat x < 2 ^ 16"
    by (rule less_le_trans [OF unat_u8_less], simp)+
  then show "unat (ucast (x :: u8) :: u32) = unat x" "unat (ucast (x :: u8) :: u16) = unat x"
    by (simp_all add: unsigned_ucast_eq take_bit_nat_eq_self)
qed

definition u16_to_be_bytes :: "u16 \<Rightarrow> u8 list" where
  "u16_to_be_bytes w = [ucast (drop_bit 8 w), ucast w]"

definition u16_from_be_bytes :: "u8 \<Rightarrow> u8 \<Rightarrow> u16" where
  "u16_from_be_bytes a b = push_bit 8 (ucast a) OR ucast b"

definition u32_to_be_bytes :: "u32 \<Rightarrow> u8 list" where
  "u32_to_be_bytes w =
     [ucast (drop_bit 24 w), ucast (drop_bit 16 w), ucast (drop_bit 8 w), ucast w]"

definition u32_from_be_bytes :: "u8 \<Rightarrow> u8 \<Rightarrow> u8 \<Rightarrow> u8 \<Rightarrow> u32" where
  "u32_from_be_bytes a b c d =
     push_bit 24 (ucast a) OR push_bit 16 (ucast b) OR push_bit 8 (ucast c) OR ucast d"

lemma length_be_bytes [simp]:
  "length (u16_to_be_bytes w) = 2"
  "length (u32_to_be_bytes v) = 4"
  by (simp_all add: u16_to_be_bytes_def u32_to_be_bytes_def)

lemma u16_be_roundtrip [simp]:
  "u16_from_be_bytes (ucast (drop_bit 8 w)) (ucast w) = w"
  unfolding u16_from_be_bytes_def
  by (rule bit_word_eqI) (auto simp: bit_simps)

lemma u8_high_bit: "\<not> bit (b :: u8) (8 + n)"
  using bit_imp_le_length [of b "8 + n"] by auto

lemma u16_be_inverse [simp]: "u16_to_be_bytes (u16_from_be_bytes a b) = [a, b]"
  unfolding u16_to_be_bytes_def u16_from_be_bytes_def
  by (auto intro!: bit_word_eqI simp: bit_simps u8_high_bit)

lemma u32_be_roundtrip [simp]:
  "u32_from_be_bytes (ucast (drop_bit 24 w)) (ucast (drop_bit 16 w)) (ucast (drop_bit 8 w))
     (ucast w) = w"
proof (rule bit_word_eqI)
  fix n
  show "bit (u32_from_be_bytes (ucast (drop_bit 24 w)) (ucast (drop_bit 16 w))
     (ucast (drop_bit 8 w)) (ucast w)) n = bit w n" if "n < LENGTH(32)"
    using that unfolding u32_from_be_bytes_def
    by (cases "24 \<le> n"; cases "16 \<le> n") (auto simp: bit_simps)
qed

end
