(* ===== verification/Mqtt_Traits.thy ===== *)
theory Mqtt_Traits
  imports Ruq_Prelude
begin

text \<open>
  The conversion errors of \<^verbatim>\<open>src/protocol/mod.rs\<close> and the contract of its two traits
  \<^verbatim>\<open>FromMqttBytes\<close> and \<^verbatim>\<open>ToMqttBytes\<close>, as the locales \<open>from_mqtt\<close> and \<open>mqtt_codec\<close>. Every
  decoder of the later theories is an interpretation of the first, and every type the
  library can both write and read back is one of the second.
\<close>

section \<open>Errors\<close>

text \<open>
  A formatted error text is represented by the \<^verbatim>\<open>format!\<close> call that builds it and the
  values it prints: one constructor per call.
\<close>

datatype message =
    InvalidVbi "u8 list"
  | BadSliceLength "u8 list"
  | BadUtf8 "u8 list"
  | PayloadNotUtf8 "u8 list"
  | BadPacketType u8
  | BadQos u8
  | BadConnackFlags u8
  | BadConnackReason u8
  | BadSubackReason u8
  | BadPubackReason u8
  | BadDisconnectReason u8
  | PropertyNotImplemented u8
  | SessionExpiryFromServer

datatype convert_error = NotEnoughBytes | ZeroPktId | Other message

type_synonym 'a conv = "('a, convert_error) outcome"

text \<open>
  \<^verbatim>\<open>TryFrom\<close> implementations fail with a \<^verbatim>\<open>String\<close>, which \<^verbatim>\<open>From<String> for ConvertError\<close>
  turns into \<open>Other\<close> at each \<^verbatim>\<open>?\<close>.
\<close>

definition or_other :: "('a, message) outcome \<Rightarrow> 'a conv" where
  "or_other m = map_err Other m"

lemma or_other_simps [simp]:
  "or_other (Ok x) = Ok x"
  "or_other (Err s) = Err (Other s)"
  "or_other m = Ok x \<longleftrightarrow> m = Ok x"
  "or_other m = Panic \<longleftrightarrow> m = Panic"
  "or_other m = Diverge \<longleftrightarrow> m = Diverge"
  by (simp_all add: or_other_def)

section \<open>The bytes crate\<close>

text \<open>
  The \<^verbatim>\<open>bytes\<close> crate is not part of the repository. The four of its operations the code calls
  (\<^verbatim>\<open>BufMut::put_u8\<close>, \<^verbatim>\<open>BufMut::put_u32\<close>, \<^verbatim>\<open>Buf::advance\<close>, \<^verbatim>\<open>BytesMut::extend_from_slice\<close>)
  are a parameter of the definitions that use them; \<open>bytes_crate_spec\<close> is what its
  documentation promises.
\<close>

record bytes_crate =
  put_u8 :: "u8 \<Rightarrow> u8 list"
  put_u32 :: "u32 \<Rightarrow> u8 list"
  buf_advance :: "u8 list \<Rightarrow> nat \<Rightarrow> u8 list"
  extend_from_slice :: "u8 list \<Rightarrow> u8 list \<Rightarrow> u8 list"

definition bytes_crate_spec :: "bytes_crate \<Rightarrow> bool" where
  "bytes_crate_spec B \<longleftrightarrow>
     (\<forall>v. put_u8 B v = [v]) \<and>
     (\<forall>v. put_u32 B v = u32_to_be_bytes v) \<and>
     (\<forall>src n. n \<le> length src \<longrightarrow> buf_advance B src n = drop n src) \<and>
     (\<forall>dst data. extend_from_slice B dst data = dst @ data)"

text \<open>A concrete crate with that behaviour, for the witnesses.\<close>

definition bytes_model :: bytes_crate where
  "bytes_model =
     \<lparr>put_u8 = (\<lambda>v. [v]), put_u32 = u32_to_be_bytes, buf_advance = (\<lambda>src n. drop n src),
      extend_from_slice = (\<lambda>dst data. dst @ data)\<rparr>"

lemma bytes_crate_specD:
  assumes "bytes_crate_spec B"
  shows "put_u8 B v = [v]" "put_u32 B w = u32_to_be_bytes w"
    "n \<le> length src \<Longrightarrow> buf_advance B src n = drop n src"
    "extend_from_slice B dst data = dst @ data"
  using assms by (simp_all add: bytes_crate_spec_def)

lemma bytes_model_spec [simp]: "bytes_crate_spec bytes_model"
  by (simp add: bytes_crate_spec_def bytes_model_def)

section \<open>The trait contracts\<close>

text \<open>
  What the callers of \<^verbatim>\<open>convert_from_mqtt\<close> rely on: a success consumes at least one and at
  most all of the bytes (so that \<^verbatim>\<open>&bytes[n..]\<close> cannot panic and a loop over the rest makes
  progress), the call returns, and bytes behind the ones it needed do not change a success.
\<close>

locale from_mqtt =
  fixes dec :: "u8 list \<Rightarrow> ('a \<times> nat) conv"
  assumes dec_consumes: "dec bs = Ok (x, n) \<Longrightarrow> 0 < n \<and> n \<le> length bs"
    and dec_returns: "dec bs \<noteq> Diverge"
    and dec_extend: "dec bs = Ok (x, n) \<Longrightarrow> dec (bs @ extra) = Ok (x, n)"
begin

lemma dec_slice_ok: "dec bs = Ok (x, n) \<Longrightarrow> slice_from bs n = Ok (drop n bs)"
  using dec_consumes by (auto simp: slice_from_def)

lemma dec_shrinks: "dec bs = Ok (x, n) \<Longrightarrow> length (drop n bs) < length bs"
  using dec_consumes by fastforce

lemma dec_Nil: "dec [] \<noteq> Ok (x, n)"
  using dec_consumes by fastforce

end

text \<open>
  A type with both traits: what \<^verbatim>\<open>convert_to_mqtt\<close> writes for an encodable value is read back,
  and consumed exactly. The predicate \<open>ok\<close> says which values are encodable.
\<close>

locale mqtt_codec = from_mqtt dec
  for dec :: "u8 list \<Rightarrow> ('a \<times> nat) conv" +
  fixes enc :: "'a \<Rightarrow> u8 list"
    and ok :: "'a \<Rightarrow> bool"
  assumes dec_enc: "ok x \<Longrightarrow> dec (enc x) = Ok (x, length (enc x))"
begin

lemma dec_enc_append: "ok x \<Longrightarrow> dec (enc x @ rest) = Ok (x, length (enc x))"
  by (rule dec_extend) (rule dec_enc)

lemma enc_nonempty: "ok x \<Longrightarrow> enc x \<noteq> []"
  using dec_enc dec_consumes by fastforce

lemma enc_inj: "ok x \<Longrightarrow> ok y \<Longrightarrow> enc x @ r = enc y @ s \<Longrightarrow> x = y \<and> r = s"
proof -
  assume ok: "ok x" "ok y" and eq: "enc x @ r = enc y @ s"
  have "Ok (x, length (enc x)) = Ok (y, length (enc y))"
    using ok dec_enc_append[of x r] dec_enc_append[of y s] eq by simp
  with eq show ?thesis by (simp add: append_eq_append_conv)
qed

end

end
