(* ===== verification/Wire.thy ===== *)
theory Wire
  imports Mqtt_Traits
begin

text \<open>
  The wire primitives of \<^verbatim>\<open>src/protocol/mod.rs\<close>: the variable byte integer \<^verbatim>\<open>VBI\<close>, UTF-8
  strings, byte vectors and packet identifiers, with their encoders and decoders, each an
  interpretation of \<open>mqtt_codec\<close>.
\<close>

section \<open>Variable byte integers\<close>

datatype vbi = VBI (vbi_val: u32)

text \<open>\<^verbatim>\<open>VBI + usize\<close> and \<^verbatim>\<open>usize + VBI\<close>; \<^verbatim>\<open>VBI - usize\<close>; \<^verbatim>\<open>VBI == u32\<close>; \<^verbatim>\<open>VBI > u32\<close>.\<close>

definition vbi_plus :: "vbi \<Rightarrow> nat \<Rightarrow> nat" where
  "vbi_plus v n = n + unat (vbi_val v)"

definition vbi_minus :: "build \<Rightarrow> vbi \<Rightarrow> nat \<Rightarrow> (nat, 'e) outcome" where
  "vbi_minus b v n = usize_sub b (unat (vbi_val v)) n"

definition vbi_eq :: "vbi \<Rightarrow> u32 \<Rightarrow> bool" where
  "vbi_eq v n \<longleftrightarrow> vbi_val v = n"

definition vbi_greater :: "vbi \<Rightarrow> u32 \<Rightarrow> bool" where
  "vbi_greater v n \<longleftrightarrow> n < vbi_val v"

definition vbi_less :: "vbi \<Rightarrow> u32 \<Rightarrow> bool" where
  "vbi_less v n \<longleftrightarrow> vbi_val v < n"

function vbi_bytes :: "u32 \<Rightarrow> u8 list" where
  "vbi_bytes n =
     (let b = ucast (n mod 128); n' = n div 128
      in if 0 < n' then (b OR 128) # vbi_bytes n' else [b])"
  by pat_completeness auto
termination
proof (relation "measure unat")
  fix n :: u32 and b n'
  assume "n' = n div 128" "0 < n'"
  then show "(n', n) \<in> measure unat"
    by (cases "unat n = 0") (auto simp: unat_div word_less_nat_alt)
qed simp

declare vbi_bytes.simps [simp del]

definition vbi_to_mqtt :: "vbi \<Rightarrow> u8 list" where
  "vbi_to_mqtt v = vbi_bytes (vbi_val v)"

function vbi_loop :: "build \<Rightarrow> u8 list \<Rightarrow> u32 \<Rightarrow> u32 \<Rightarrow> nat \<Rightarrow> (vbi \<times> nat) conv" where
  "vbi_loop b bytes multiplier value idx =
     (case get_at bytes idx of
        None \<Rightarrow> Err NotEnoughBytes
      | Some byte \<Rightarrow>
          andthen (umul b (ucast (byte AND 127)) multiplier) (\<lambda>p.
          andthen (uadd b value p) (\<lambda>value.
          if 128 * 128 * 128 < multiplier then
            andthen (slice_range bytes 0 3) (\<lambda>s. Err (Other (InvalidVbi s)))
          else
            andthen (umul b multiplier 128) (\<lambda>multiplier.
            if byte AND 128 = 0 then Ok (VBI value, idx + 1)
            else vbi_loop b bytes multiplier value (idx + 1)))))"
  by pat_completeness auto
termination
  by (relation "measure (\<lambda>(b, bytes, m, v, idx). length bytes - idx)")
    (auto simp: get_at_eq_Some)

declare vbi_loop.simps [simp del]

definition vbi_from_mqtt :: "build \<Rightarrow> u8 list \<Rightarrow> (vbi \<times> nat) conv" where
  "vbi_from_mqtt b bytes = vbi_loop b bytes 1 0 0"


subsection \<open>Encoder\<close>

lemma mod_128_take_bit: "(n::u32) mod 128 = take_bit 7 n"
  by (simp add: take_bit_eq_mod)

lemma vbi_last_byte:
  "(ucast (n mod 128) :: u8) AND 127 = ucast (n mod 128)"
  "(ucast (n mod 128) :: u8) AND 128 = 0"
  for n :: u32
  unfolding mod_128_take_bit
  by (rule bit_word_eqI; auto simp: bit_simps less_Suc_eq numeral_eq_Suc)+


lemma vbi_more_byte:
  "((ucast (n mod 128) :: u8) OR 128) AND 127 = ucast (n mod 128)"
  "((ucast (n mod 128) :: u8) OR 128) AND 128 = 128"
  for n :: u32
  unfolding mod_128_take_bit
  by (rule bit_word_eqI; auto simp: bit_simps less_Suc_eq numeral_eq_Suc)+

lemma unat_vbi_byte [simp]:
  "unat (ucast (ucast (n mod 128) :: u8) :: u32) = unat n mod 128" for n :: u32
proof -
  have "ucast (ucast (n mod 128) :: u8) = n mod 128"
    unfolding mod_128_take_bit by (rule bit_word_eqI) (auto simp: bit_simps)
  then show ?thesis by (simp add: unat_mod_distrib)
qed

lemma unat_pow128: "k \<le> 4 \<Longrightarrow> unat ((128::u32) ^ k) = 128 ^ k"
proof -
  assume "k \<le> 4"
  then consider "k = 0" | "k = 1" | "k = 2" | "k = 3" | "k = 4" by linarith
  then show ?thesis by cases simp_all
qed

lemma pow128_guard: "k \<le> 4 \<Longrightarrow> (128 * 128 * 128 < (128::u32) ^ k) \<longleftrightarrow> k = 4"
proof -
  assume "k \<le> 4"
  then consider "k = 0" | "k = 1" | "k = 2" | "k = 3" | "k = 4" by linarith
  then show ?thesis by cases simp_all
qed

lemma vbi_bytes_nonempty [simp]: "vbi_bytes n \<noteq> []"
  by (subst vbi_bytes.simps) (simp add: Let_def)

text \<open>One step of the decoder, with the accumulators in range.\<close>

lemma vbi_loop_step:
  assumes "get_at bytes idx = Some byte" "k \<le> 3" "unat v < 128 ^ k"
  shows "vbi_loop b bytes (128 ^ k) v idx =
    (let v' = v + ucast (byte AND 127) * 128 ^ k
     in if byte AND 128 = 0 then Ok (VBI v', idx + 1)
        else vbi_loop b bytes (128 ^ Suc k) v' (idx + 1))"
proof -
  let ?p = "ucast (byte AND 127) :: u32"
  have "byte AND 127 \<le> 127" by (rule word_and_le1)
  then have p: "unat ?p \<le> 127"
    by (simp add: word_le_nat_alt unat_ucast_u8)
  have k: "(128::nat) ^ k \<le> 128 ^ 3" using assms(2) by (intro power_increasing) auto
  have pow: "unat ((128::u32) ^ k) = 128 ^ k" using assms(2) by (simp add: unat_pow128)
  have prod: "unat ?p * 128 ^ k \<le> 266338304" using mult_le_mono [OF p k] by simp
  have mul: "umul b ?p (128 ^ k) = Ok (?p * 128 ^ k)"
    using prod k by (intro umul_ok) (simp add: pow)
  have up: "unat (?p * 128 ^ k) = unat ?p * 128 ^ k"
    using prod k by (simp add: unat_word_ariths pow)
  have add: "uadd b v (?p * 128 ^ k) = Ok (v + ?p * 128 ^ k)"
    using prod k assms(3) by (intro uadd_ok) (simp add: up)
  have mul128: "umul b ((128::u32) ^ k) 128 = Ok (128 ^ Suc k)"
    using k by (subst umul_ok) (simp_all add: pow mult.commute)
  have "\<not> 128 * 128 * 128 < (128::u32) ^ k"
    using assms(2) by (subst pow128_guard) auto
  then show ?thesis
    by (subst vbi_loop.simps) (simp add: assms(1) mul add mul128 Let_def)
qed

lemma vbi_value_step:
  assumes "k \<le> 3" "unat v < 128 ^ k"
  shows "unat (v + ucast (byte AND 127) * (128::u32) ^ k) < 128 ^ Suc k"
    and "unat (v + ucast (byte AND 127) * (128::u32) ^ k) =
      unat v + unat (byte AND 127 :: u8) * 128 ^ k"
proof -
  have "byte AND 127 \<le> 127" by (rule word_and_le1)
  then have p: "unat (byte AND 127) \<le> 127" by (simp add: word_le_nat_alt)
  have k: "(128::nat) ^ k \<le> 128 ^ 3" using assms(1) by (intro power_increasing) auto
  have pow: "unat ((128::u32) ^ k) = 128 ^ k" using assms(1) by (simp add: unat_pow128)
  have prod: "unat (byte AND 127) * 128 ^ k \<le> 127 * 128 ^ k" using p by (intro mult_le_mono1)
  have small: "unat (byte AND 127) * 128 ^ k \<le> 266338304" using mult_le_mono [OF p k] by simp
  show eq: "unat (v + ucast (byte AND 127) * (128::u32) ^ k) =
      unat v + unat (byte AND 127 :: u8) * 128 ^ k"
    using small k assms(2) by (simp add: unat_word_ariths pow unat_ucast_u8)
  show "unat (v + ucast (byte AND 127) * (128::u32) ^ k) < 128 ^ Suc k"
    unfolding eq power_Suc using prod assms(2) by linarith
qed


lemma div_128_less: "0 < n div 128 \<Longrightarrow> 1 \<le> unat n div 128" for n :: u32
  by (simp add: word_less_nat_alt unat_div)

text \<open>What the encoder wrote is read back, at any position and with any accumulated value.\<close>

lemma vbi_loop_bytes:
  assumes "unat v < 128 ^ k" "unat n < 128 ^ (4 - k)" "k \<le> 3"
  shows "vbi_loop b (pre @ vbi_bytes n @ rest) (128 ^ k) v (length pre) =
    Ok (VBI (v + n * 128 ^ k), length pre + length (vbi_bytes n))"
  using assms
proof (induction n arbitrary: pre v k rule: vbi_bytes.induct)
  case (1 n)
  let ?b = "ucast (n mod 128) :: u8"
  let ?n' = "n div 128"
  have mod: "(ucast ?b :: u32) = n mod 128"
    by (rule word_unat_eq_iff [THEN iffD2]) (simp add: unat_mod_distrib)
  show ?case
  proof (cases "0 < ?n'")
    case False
    then have n: "n div 128 = 0" by (metis word_gt_0)
    have "n mod 128 = n" using div_mult_mod_eq [of n 128] n by simp
    then have "ucast ?b = n" using mod by simp
    moreover have enc: "vbi_bytes n = [?b]" by (subst vbi_bytes.simps) (simp add: n)
    ultimately show ?thesis using "1.prems"
      by (simp add: enc vbi_loop_step [OF _ "1.prems"(3,1)] vbi_last_byte)
  next
    case True
    let ?v' = "v + ucast (((?b OR 128) AND 127)) * 128 ^ k"
    have enc: "vbi_bytes n = (?b OR 128) # vbi_bytes ?n'"
      using True by (subst vbi_bytes.simps) (simp add: Let_def)
    have k: "k \<le> 2"
    proof (rule ccontr)
      assume "\<not> k \<le> 2"
      with "1.prems" have "k = 3" by simp
      with "1.prems"(2) have "unat n < 128" by simp
      then show False using div_128_less [OF True] by simp
    qed
    have v': "unat ?v' < 128 ^ Suc k"
      using "1.prems" by (intro vbi_value_step(1)) auto
    have n': "unat ?n' < 128 ^ (4 - Suc k)"
    proof -
      have "(128::nat) ^ (4 - k) = 128 * 128 ^ (4 - Suc k)"
        using k by (simp add: Suc_diff_le flip: power_Suc)
      then have "unat n div 128 < 128 ^ (4 - Suc k)"
        using "1.prems"(2) by (simp add: less_mult_imp_div_less mult.commute)
      then show ?thesis by (simp add: unat_div)
    qed
    have "vbi_loop b ((pre @ [?b OR 128]) @ vbi_bytes ?n' @ rest) (128 ^ Suc k) ?v'
        (length (pre @ [?b OR 128])) =
      Ok (VBI (?v' + ?n' * 128 ^ Suc k), length (pre @ [?b OR 128]) + length (vbi_bytes ?n'))"
      using k v' n' True by (intro "1.IH") auto
    moreover have "?v' + ?n' * 128 ^ Suc k = v + n * 128 ^ k"
    proof -
      have "?v' + ?n' * 128 ^ Suc k = v + (n div 128 * 128 + n mod 128) * 128 ^ k"
        by (simp add: vbi_more_byte mod algebra_simps)
      then show ?thesis by (simp only: div_mult_mod_eq)
    qed
    ultimately show ?thesis
      by (simp add: enc vbi_loop_step [OF _ "1.prems"(3,1)] vbi_more_byte Let_def)
  qed
qed


subsection \<open>Decoder\<close>

lemma vbi_loop_returns: "vbi_loop b bytes m v i \<noteq> Diverge"
proof (induction b bytes m v i rule: vbi_loop.induct)
  case (1 b bytes m v i)
  show ?case
    by (subst vbi_loop.simps)
      (auto simp: andthen_eq_Diverge split: option.splits dest: "1.IH" [rotated 2])
qed

lemma vbi_loop_eq_Ok:
  "vbi_loop b bytes m v i = Ok (x, n) \<longleftrightarrow>
    i < length bytes \<and> \<not> 128 * 128 * 128 < m \<and>
    (\<exists>p v' m'. umul b (ucast (bytes ! i AND 127)) m = (Ok p :: u32 conv) \<and>
       uadd b v p = (Ok v' :: u32 conv) \<and> umul b m 128 = (Ok m' :: u32 conv) \<and>
       (if bytes ! i AND 128 = 0 then x = VBI v' \<and> n = i + 1
        else vbi_loop b bytes m' v' (i + 1) = Ok (x, n)))"
  by (subst vbi_loop.simps) (auto simp: andthen_eq_Ok get_at_def split: if_splits)

lemma vbi_loop_consumes:
  "vbi_loop b bytes m v i = Ok (x, n) \<Longrightarrow> i < n \<and> n \<le> length bytes"
proof (induction "length bytes - i" arbitrary: m v i rule: less_induct)
  case less
  then have "i < length bytes" by (simp add: vbi_loop_eq_Ok)
  then have "length bytes - (i + 1) < length bytes - i" by simp
  note IH = less.hyps [OF this]
  show ?case using less.prems IH
    by (subst (asm) vbi_loop_eq_Ok) (fastforce split: if_splits)
qed

lemma vbi_loop_extend:
  "vbi_loop b bytes m v i = Ok (x, n) \<Longrightarrow> vbi_loop b (bytes @ extra) m v i = Ok (x, n)"
proof (induction "length bytes - i" arbitrary: m v i rule: less_induct)
  case less
  then have "i < length bytes" by (simp add: vbi_loop_eq_Ok)
  then have "length bytes - (i + 1) < length bytes - i" by simp
  note IH = less.hyps [OF this]
  show ?case using less.prems IH
    by (subst vbi_loop_eq_Ok, subst (asm) vbi_loop_eq_Ok) (auto simp: nth_append split: if_splits)
qed

lemma vbi_loop_bounds:
  "vbi_loop b bytes (128 ^ k) v i = Ok (x, n) \<Longrightarrow> k \<le> 4 \<Longrightarrow> unat v < 128 ^ k \<Longrightarrow>
    unat (vbi_val x) < 128 ^ (k + (n - i)) \<and> n \<le> i + (4 - k)"
proof (induction "4 - k" arbitrary: k v i)
  case 0
  then show ?case by (auto simp: vbi_loop_eq_Ok)
next
  case (Suc d)
  have k: "k \<le> 3" using Suc.hyps(2) by simp
  have i: "get_at bytes i = Some (bytes ! i)"
    using Suc.prems(1) by (simp add: vbi_loop_eq_Ok get_at_def)
  let ?v' = "v + ucast (bytes ! i AND 127) * 128 ^ k"
  note step = vbi_loop_step [OF i k Suc.prems(3), of b]
  have v': "unat ?v' < 128 ^ Suc k" by (rule vbi_value_step(1) [OF k Suc.prems(3)])
  show ?case
  proof (cases "bytes ! i AND 128 = 0")
    case True
    then show ?thesis using step Suc.prems v' k by simp
  next
    case False
    then have rec: "vbi_loop b bytes (128 ^ Suc k) ?v' (i + 1) = Ok (x, n)"
      using step Suc.prems by simp
    have IH: "unat (vbi_val x) < 128 ^ (Suc k + (n - (i + 1))) \<and> n \<le> i + 1 + (4 - Suc k)"
      using Suc.hyps k v' by (intro Suc.hyps(1) [OF _ rec]) auto
    have e: "Suc k + (n - (i + 1)) = k + (n - i)"
      using vbi_loop_consumes [OF rec] by arith
    have "n \<le> i + (4 - k)" using IH k by arith
    then show ?thesis using IH unfolding e by blast
  qed
qed


lemma vbi_from_bounds:
  assumes "vbi_from_mqtt b bytes = Ok (v, n)"
  shows "unat (vbi_val v) < 128 ^ n" and "n \<le> 4" and "unat (vbi_val v) < 2 ^ 28"
proof -
  have "unat (vbi_val v) < 128 ^ (0 + (n - 0)) \<and> n \<le> 0 + (4 - 0)"
    using assms unfolding vbi_from_mqtt_def by (intro vbi_loop_bounds [of b bytes 0 0]) auto
  then show v: "unat (vbi_val v) < 128 ^ n" and n: "n \<le> 4" by simp_all
  have "(128::nat) ^ n \<le> 128 ^ 4" using n by (intro power_increasing) auto
  with v show "unat (vbi_val v) < 2 ^ 28" by simp
qed

definition vbi_ok :: "vbi \<Rightarrow> bool" where
  "vbi_ok v \<longleftrightarrow> unat (vbi_val v) < 2 ^ 28"

interpretation vbi_codec: mqtt_codec "vbi_from_mqtt b" vbi_to_mqtt vbi_ok for b
proof
  fix bs extra x n
  assume "vbi_from_mqtt b bs = Ok (x, n)"
  then show "0 < n \<and> n \<le> length bs" "vbi_from_mqtt b (bs @ extra) = Ok (x, n)"
    unfolding vbi_from_mqtt_def using vbi_loop_consumes vbi_loop_extend by blast+
next
  show "vbi_from_mqtt b bs \<noteq> Diverge" for bs
    by (simp add: vbi_from_mqtt_def vbi_loop_returns)
next
  fix x
  assume "vbi_ok x"
  then show "vbi_from_mqtt b (vbi_to_mqtt x) = Ok (x, length (vbi_to_mqtt x))"
    using vbi_loop_bytes [of 0 0 "vbi_val x" b "[]" "[]"]
    by (simp add: vbi_from_mqtt_def vbi_to_mqtt_def vbi_ok_def)
qed

lemma length_vbi_bytes: "unat n < 128 ^ Suc k \<Longrightarrow> length (vbi_bytes n) \<le> Suc k"
proof (induction k arbitrary: n)
  case 0
  then have "n div 128 = 0" by (simp add: word_unat_eq_iff unat_div)
  then show ?case by (subst vbi_bytes.simps) simp
next
  case (Suc k)
  then have "unat (n div 128) < 128 ^ Suc k"
    by (simp add: unat_div less_mult_imp_div_less mult.commute)
  then show ?case using Suc.IH [of "n div 128"]
    by (subst vbi_bytes.simps) (simp add: Let_def)
qed

lemma length_vbi_to_mqtt: "length (vbi_to_mqtt v) \<le> 5"
proof -
  have "unat (vbi_val v) < 2 ^ 32" using unsigned_less [of "vbi_val v"] by simp
  then show ?thesis
    unfolding vbi_to_mqtt_def by (intro length_vbi_bytes [of _ 4, simplified]) simp
qed

subsection \<open>A fifth byte\<close>

lemma vbi_loop_fifth:
  assumes "get_at bytes idx = Some e" "3 \<le> length bytes" "unat v < 128 ^ 4"
  shows "vbi_loop b bytes (128 ^ 4) v idx =
    (if b = Checked \<and> 16 \<le> unat (e AND 127) then Panic
     else Err (Other (InvalidVbi (take 3 bytes))))"
proof -
  have guard: "128 * 128 * 128 < (128::u32) ^ 4" by simp
  have add: "uadd c v (ucast (e AND 127) * 268435456) = Ok (v + ucast (e AND 127) * 268435456)"
    if "unat (e AND 127) < 16" for c
    using that assms(3) by (intro uadd_ok) (simp add: unat_word_ariths unat_ucast_u8)
  show ?thesis
    by (cases b; subst vbi_loop.simps)
      (auto simp: assms guard umul_def [of Checked] checked_word_def unat_ucast_u8 slice_range_def add
        not_le)
qed


text \<open>
  Every outcome of the decoder, by induction on what is left of the four steps that can
  succeed: a byte without continuation bit among them ends the number; a buffer that ends
  before one asks for more bytes; a fifth byte is refused, or panics on overflow.
\<close>

lemma vbi_loop_outcome:
  "k \<le> 4 \<Longrightarrow> k \<le> i \<Longrightarrow> i \<le> length bytes \<Longrightarrow> unat v < 128 ^ k \<Longrightarrow>
    (if \<exists>j < 4 - k. i + j < length bytes \<and> bytes ! (i + j) AND 128 = 0
     then \<exists>r. vbi_loop b bytes (128 ^ k) v i = Ok r
     else vbi_loop b bytes (128 ^ k) v i =
       (if length bytes \<le> i + (4 - k) then Err NotEnoughBytes
        else if b = Checked \<and> 16 \<le> unat (bytes ! (i + (4 - k)) AND 127) then Panic
        else Err (Other (InvalidVbi (take 3 bytes)))))"
proof (induction "4 - k" arbitrary: k v i)
  case 0
  then have k: "k = 4" by simp
  show ?case
  proof (cases "i < length bytes")
    case True
    then have "vbi_loop b bytes (128 ^ 4) v i =
      (if b = Checked \<and> 16 \<le> unat (bytes ! i AND 127) then Panic
       else Err (Other (InvalidVbi (take 3 bytes))))"
      using 0 k by (intro vbi_loop_fifth) (auto simp: get_at_def)
    then show ?thesis using True k by simp
  next
    case False
    then show ?thesis using k by (subst vbi_loop.simps) (simp add: get_at_def)
  qed
next
  case (Suc d)
  have k: "k \<le> 3" and d: "4 - k = Suc (4 - Suc k)" using Suc.hyps(2) by simp_all
  show ?case
  proof (cases "i < length bytes")
    case True
    then have i: "get_at bytes i = Some (bytes ! i)" by (simp add: get_at_def)
    let ?v' = "v + ucast (bytes ! i AND 127) * 128 ^ k"
    have v': "unat ?v' < 128 ^ Suc k" by (rule vbi_value_step(1) [OF k Suc.prems(4)])
    show ?thesis
    proof (cases "bytes ! i AND 128 = 0")
      case True
      then show ?thesis
        using i k Suc.prems by (auto simp: vbi_loop_step Ex_less_Suc2 d Let_def get_at_eq_Some)
    next
      case False
      have step: "vbi_loop b bytes (128 ^ k) v i = vbi_loop b bytes (128 ^ Suc k) ?v' (i + 1)"
        using False by (simp add: vbi_loop_step [OF i k Suc.prems(4)] Let_def)
      have ex: "(\<exists>j < 4 - k. i + j < length bytes \<and> bytes ! (i + j) AND 128 = 0) \<longleftrightarrow>
          (\<exists>j < 4 - Suc k. i + 1 + j < length bytes \<and> bytes ! (i + 1 + j) AND 128 = 0)"
        unfolding d Ex_less_Suc2 using False by simp
      have "i + (4 - k) = i + 1 + (4 - Suc k)" using d by simp
      then show ?thesis unfolding step ex
        using Suc.hyps(2) Suc.prems \<open>i < length bytes\<close> v' by (simp only:) (intro Suc.hyps(1); simp)
    qed
  next
    case False
    then show ?thesis by (subst vbi_loop.simps) (auto simp add: get_at_def)
  qed
qed

lemma vbi_from_outcome:
  "if \<exists>j < 4. j < length bytes \<and> bytes ! j AND 128 = 0
   then \<exists>r. vbi_from_mqtt b bytes = Ok r
   else vbi_from_mqtt b bytes =
     (if length bytes \<le> 4 then Err NotEnoughBytes
      else if b = Checked \<and> 16 \<le> unat (bytes ! 4 AND 127) then Panic
      else Err (Other (InvalidVbi (take 3 bytes))))"
proof -
  have "unat (0 :: u32) < 128 ^ 0" by simp
  from vbi_loop_outcome [of 0 0 bytes 0 b, OF _ _ _ this] show ?thesis
    unfolding vbi_from_mqtt_def power_0 add_0 diff_zero by simp
qed

lemma vbi_from_Panic_iff:
  "vbi_from_mqtt b bytes = Panic \<longleftrightarrow>
    b = Checked \<and> 4 < length bytes \<and> (\<forall>j < 4. bytes ! j AND 128 \<noteq> 0) \<and>
    16 \<le> unat (bytes ! 4 AND 127)"
proof (cases "\<exists>j < 4. j < length bytes \<and> bytes ! j AND 128 = 0")
  case True
  then show ?thesis using vbi_from_outcome [of bytes b] by auto
next
  case False
  then show ?thesis using vbi_from_outcome [of bytes b] by (cases "length bytes \<le> 4") auto
qed

lemma vbi_from_NotEnough_iff:
  "vbi_from_mqtt b bytes = Err NotEnoughBytes \<longleftrightarrow>
    length bytes \<le> 4 \<and> (\<forall>x\<in>set bytes. x AND 128 \<noteq> 0)"
proof (cases "\<exists>j < 4. j < length bytes \<and> bytes ! j AND 128 = 0")
  case True
  then show ?thesis using vbi_from_outcome [of bytes b] by (auto simp: all_set_conv_all_nth)
next
  case False
  then show ?thesis using vbi_from_outcome [of bytes b]
    by (cases "length bytes \<le> 4") (auto simp: all_set_conv_all_nth)
qed

text \<open>Once the decoder has made up its mind, further bytes do not change it.\<close>

lemma vbi_from_extend:
  assumes "vbi_from_mqtt b bytes \<noteq> Err NotEnoughBytes"
  shows "vbi_from_mqtt b (bytes @ extra) = vbi_from_mqtt b bytes"
proof (cases "\<exists>j < 4. j < length bytes \<and> bytes ! j AND 128 = 0")
  case True
  then obtain r where "vbi_from_mqtt b bytes = Ok r"
    using vbi_from_outcome [of bytes b] by auto
  then show ?thesis using vbi_codec.dec_extend [of b bytes "fst r" "snd r"] by simp
next
  case False
  then have "4 < length bytes" using assms vbi_from_outcome [of bytes b] by (auto split: if_splits)
  then have "\<not> (\<exists>j < 4. j < length (bytes @ extra) \<and> (bytes @ extra) ! j AND 128 = 0)"
    using False by (auto simp: nth_append)
  then show ?thesis
    using False \<open>4 < length bytes\<close> vbi_from_outcome [of bytes b] vbi_from_outcome [of "bytes @ extra" b]
    by (auto simp: nth_append)
qed

text \<open>A number cut short asks for more bytes.\<close>

lemma vbi_bytes_continue: "\<forall>x\<in>set (butlast (vbi_bytes n)). x AND 128 \<noteq> 0"
proof (induction n rule: vbi_bytes.induct)
  case (1 n)
  then show ?case
    by (subst vbi_bytes.simps) (simp add: Let_def vbi_more_byte)
qed

lemma vbi_from_prefix:
  assumes "vbi_ok v" "vbi_to_mqtt v = s @ r" "r \<noteq> []"
  shows "vbi_from_mqtt b s = Err NotEnoughBytes"
proof -
  have "set s \<subseteq> set (butlast (vbi_to_mqtt v))" using assms(2,3) by (simp add: butlast_append)
  then have "\<forall>x\<in>set s. x AND 128 \<noteq> 0"
    using vbi_bytes_continue unfolding vbi_to_mqtt_def by blast
  moreover have "length (vbi_to_mqtt v) \<le> 4"
    using vbi_from_bounds(2) vbi_codec.dec_enc [OF assms(1)] by blast
  then have "length s \<le> 4" using assms(2) by simp
  ultimately show ?thesis by (simp add: vbi_from_NotEnough_iff)
qed

section \<open>UTF-8\<close>

text \<open>
  A Rust \<^verbatim>\<open>String\<close> is its UTF-8 bytes. \<^verbatim>\<open>str::from_utf8\<close> accepts exactly the well-formed
  sequences of table 3-7 of the Unicode standard.
\<close>

type_synonym rstring = "u8 list"

definition in_range :: "u8 \<Rightarrow> u8 \<Rightarrow> u8 \<Rightarrow> bool" where
  "in_range lo hi x \<longleftrightarrow> lo \<le> x \<and> x \<le> hi"

fun valid_utf8 :: "u8 list \<Rightarrow> bool" where
  "valid_utf8 [] = True"
| "valid_utf8 (a # r) =
     (if in_range 0x00 0x7F a then valid_utf8 r
      else if in_range 0xC2 0xDF a then
        (case r of
           b # r \<Rightarrow> if in_range 0x80 0xBF b then valid_utf8 r else False
         | _ \<Rightarrow> False)
      else if in_range 0xE0 0xEF a then
        (case r of
           b # c # r \<Rightarrow>
             if in_range (if a = 0xE0 then 0xA0 else 0x80) (if a = 0xED then 0x9F else 0xBF) b
               \<and> in_range 0x80 0xBF c
             then valid_utf8 r else False
         | _ \<Rightarrow> False)
      else if in_range 0xF0 0xF4 a then
        (case r of
           b # c # d # r \<Rightarrow>
             if in_range (if a = 0xF0 then 0x90 else 0x80) (if a = 0xF4 then 0x8F else 0xBF) b
               \<and> in_range 0x80 0xBF c \<and> in_range 0x80 0xBF d
             then valid_utf8 r else False
         | _ \<Rightarrow> False)
      else False)"

definition str_from_utf8 :: "u8 list \<Rightarrow> (rstring, message) outcome" where
  "str_from_utf8 bs = (if valid_utf8 bs then Ok bs else Err (BadUtf8 bs))"

text \<open>A Rust string literal.\<close>

definition str_lit :: "string \<Rightarrow> rstring" where
  "str_lit s = map of_char s"

lemma valid_utf8_ascii: "\<forall>x\<in>set s. x \<le> 0x7F \<Longrightarrow> valid_utf8 s"
  by (induction s) (auto simp: in_range_def)

section \<open>Strings and byte vectors\<close>

text \<open>
  The first two bytes as a big-endian \<^verbatim>\<open>u16\<close>: the \<^verbatim>\<open>get(0..2)\<close> chain that the decoders of
  \<^verbatim>\<open>String\<close>, \<^verbatim>\<open>Vec<u8>\<close> and \<^verbatim>\<open>PktId\<close> begin with.
\<close>

definition u16_of_slice :: "u8 list \<Rightarrow> u16 conv" where
  "u16_of_slice sl =
     (case sl of
        [a, b] \<Rightarrow> Ok (u16_from_be_bytes a b)
      | _ \<Rightarrow> Err (Other (BadSliceLength sl)))"

definition read_u16 :: "u8 list \<Rightarrow> u16 conv" where
  "read_u16 bytes = andthen (ok_or (get_range bytes 0 2) NotEnoughBytes) u16_of_slice"

definition str_to_mqtt :: "rstring \<Rightarrow> u8 list" where
  "str_to_mqtt s = u16_to_be_bytes (word_of_nat (length s)) @ s"

definition string_to_mqtt :: "rstring \<Rightarrow> u8 list" where
  "string_to_mqtt s = u16_to_be_bytes (word_of_nat (length s)) @ s"

definition slice_to_mqtt :: "u8 list \<Rightarrow> u8 list" where
  "slice_to_mqtt s = u16_to_be_bytes (word_of_nat (length s)) @ s"

definition string_from_mqtt :: "u8 list \<Rightarrow> (rstring \<times> nat) conv" where
  "string_from_mqtt bytes =
     andthen (read_u16 bytes) (\<lambda>len16.
     let len = unat len16 in
     if 0 < len \<and> len + 2 \<le> length bytes then
       andthen (slice_range bytes 2 (2 + len)) (\<lambda>sl.
       andthen (or_other (str_from_utf8 sl)) (\<lambda>s. Ok (s, len + 2)))
     else if len = 0 then Ok ([], 2)
     else Err NotEnoughBytes)"

definition bytes_from_mqtt :: "u8 list \<Rightarrow> (u8 list \<times> nat) conv" where
  "bytes_from_mqtt bytes =
     andthen (read_u16 bytes) (\<lambda>len16.
     let len = unat len16 in
     if 0 < len then
       andthen (slice_range bytes 2 (2 + len)) (\<lambda>v. Ok (v, len + 2))
     else Ok ([], 2))"

section \<open>Packet identifiers\<close>

text \<open>\<^verbatim>\<open>NonZeroU16::new\<close> is the only way to make a \<^verbatim>\<open>PktId\<close>.\<close>

type_synonym pktid = u16

definition pktid_new :: "u16 \<Rightarrow> pktid option" where
  "pktid_new n = (if n = 0 then None else Some n)"

definition pktid_from_mqtt :: "u8 list \<Rightarrow> (pktid \<times> nat) conv" where
  "pktid_from_mqtt bytes =
     andthen (andthen (read_u16 bytes) (\<lambda>n. ok_or (pktid_new n) ZeroPktId)) (\<lambda>pid. Ok (pid, 2))"

definition pktid_to_mqtt :: "pktid \<Rightarrow> u8 list" where
  "pktid_to_mqtt pid = u16_to_be_bytes pid"

section \<open>Their codecs\<close>

lemma read_u16_Cons [simp]:
  "read_u16 (a # b # bs) = Ok (u16_from_be_bytes a b)"
  by (simp add: read_u16_def get_range_def u16_of_slice_def)

lemma read_u16_be [simp]: "read_u16 (u16_to_be_bytes w @ bs) = Ok w"
  by (simp add: u16_to_be_bytes_def)

lemma read_u16_short [simp]: "length bytes < 2 \<Longrightarrow> read_u16 bytes = Err NotEnoughBytes"
  by (simp add: read_u16_def get_range_def)

lemma read_u16_cases:
  obtains (short) "length bytes < 2" "read_u16 bytes = Err NotEnoughBytes"
  | (ok) a b bs where "bytes = a # b # bs" "read_u16 bytes = Ok (u16_from_be_bytes a b)"
proof (cases "length bytes < 2")
  case True
  then show ?thesis by (intro short) auto
next
  case False
  then obtain a b bs where "bytes = a # b # bs"
    by (cases bytes rule: remdups_adj.cases) auto
  then show ?thesis by (intro ok) auto
qed

lemma length_prefixed [simp]:
  "length (str_to_mqtt s) = length s + 2"
  "length (string_to_mqtt s) = length s + 2"
  "length (slice_to_mqtt s) = length s + 2"
  "length (pktid_to_mqtt i) = 2"
  by (simp_all add: str_to_mqtt_def string_to_mqtt_def slice_to_mqtt_def pktid_to_mqtt_def)

definition string_ok :: "rstring \<Rightarrow> bool" where
  "string_ok s \<longleftrightarrow> valid_utf8 s \<and> length s < 2 ^ 16"

definition bytes_ok :: "u8 list \<Rightarrow> bool" where
  "bytes_ok s \<longleftrightarrow> length s < 2 ^ 16"

lemma string_from_eq_Ok:
  "string_from_mqtt bytes = Ok (s, n) \<longleftrightarrow>
    (\<exists>rest. bytes = string_to_mqtt s @ rest) \<and> n = length s + 2 \<and> string_ok s"
proof (cases bytes rule: read_u16_cases)
  case short
  then show ?thesis by (auto simp: string_from_mqtt_def string_to_mqtt_def)
next
  case (ok a b bs)
  let ?len = "unat (u16_from_be_bytes a b)"
  show ?thesis
  proof
    assume "string_from_mqtt bytes = Ok (s, n)"
    then have "s = take ?len bs" "n = ?len + 2" "?len \<le> length bs" "valid_utf8 s"
      using ok by (auto simp: string_from_mqtt_def slice_range_def andthen_eq_Ok str_from_utf8_def
          Let_def split: if_splits)
    then have "bytes = string_to_mqtt s @ drop ?len bs" "n = length s + 2" "string_ok s"
      using ok by (auto simp: string_to_mqtt_def string_ok_def)
    then show "(\<exists>rest. bytes = string_to_mqtt s @ rest) \<and> n = length s + 2 \<and> string_ok s"
      by blast
  next
    assume "(\<exists>rest. bytes = string_to_mqtt s @ rest) \<and> n = length s + 2 \<and> string_ok s"
    then obtain rest where b: "bytes = string_to_mqtt s @ rest" and n: "n = length s + 2"
      and s: "valid_utf8 s" "length s < 65536"
      by (auto simp: string_ok_def)
    have "unat (word_of_nat (length s) :: u16) = length s"
      using s by (simp add: unat_of_nat)
    then show "string_from_mqtt bytes = Ok (s, n)"
      using s n unfolding b string_from_mqtt_def string_to_mqtt_def
      by (auto simp: slice_range_def str_from_utf8_def u16_to_be_bytes_def Let_def)
  qed
qed


lemma string_from_total:
  "string_from_mqtt bytes \<noteq> Panic" "string_from_mqtt bytes \<noteq> Diverge"
  by (cases bytes rule: read_u16_cases;
      auto simp: string_from_mqtt_def slice_range_def str_from_utf8_def Let_def)+

lemma bytes_from_eq_Ok:
  "bytes_from_mqtt bytes = Ok (s, n) \<longleftrightarrow>
    (\<exists>rest. bytes = slice_to_mqtt s @ rest) \<and> n = length s + 2 \<and> bytes_ok s"
proof (cases bytes rule: read_u16_cases)
  case short
  then show ?thesis by (auto simp: bytes_from_mqtt_def slice_to_mqtt_def)
next
  case (ok a b bs)
  let ?len = "unat (u16_from_be_bytes a b)"
  show ?thesis
  proof
    assume "bytes_from_mqtt bytes = Ok (s, n)"
    then have "s = take ?len bs" "n = ?len + 2" "?len \<le> length bs"
      using ok by (auto simp: bytes_from_mqtt_def slice_range_def Let_def split: if_splits)
    then have "bytes = slice_to_mqtt s @ drop ?len bs" "n = length s + 2" "bytes_ok s"
      using ok by (auto simp: slice_to_mqtt_def bytes_ok_def)
    then show "(\<exists>rest. bytes = slice_to_mqtt s @ rest) \<and> n = length s + 2 \<and> bytes_ok s"
      by blast
  next
    assume "(\<exists>rest. bytes = slice_to_mqtt s @ rest) \<and> n = length s + 2 \<and> bytes_ok s"
    then obtain rest where b: "bytes = slice_to_mqtt s @ rest" and n: "n = length s + 2"
      and s: "length s < 65536"
      by (auto simp: bytes_ok_def)
    have "unat (word_of_nat (length s) :: u16) = length s"
      using s by (simp add: unat_of_nat)
    then show "bytes_from_mqtt bytes = Ok (s, n)"
      using s n unfolding b bytes_from_mqtt_def slice_to_mqtt_def
      by (auto simp: slice_range_def u16_to_be_bytes_def Let_def)
  qed
qed

lemma bytes_from_returns: "bytes_from_mqtt bytes \<noteq> Diverge"
  by (cases bytes rule: read_u16_cases)
    (auto simp: bytes_from_mqtt_def slice_range_def Let_def)

text \<open>Unlike the decoder of strings, the one of byte vectors panics on a short buffer.\<close>

lemma bytes_from_Panic_iff:
  "bytes_from_mqtt bytes = Panic \<longleftrightarrow>
    2 \<le> length bytes \<and> length bytes < unat (u16_from_be_bytes (bytes ! 0) (bytes ! 1)) + 2"
  by (cases bytes rule: read_u16_cases)
    (auto simp: bytes_from_mqtt_def slice_range_def Let_def)

lemma pktid_from_eq_Ok:
  "pktid_from_mqtt bytes = Ok (i, n) \<longleftrightarrow>
    (\<exists>rest. bytes = pktid_to_mqtt i @ rest) \<and> n = 2 \<and> i \<noteq> 0"
proof (cases bytes rule: read_u16_cases)
  case short
  then show ?thesis by (auto simp: pktid_from_mqtt_def pktid_to_mqtt_def)
next
  case (ok a b bs)
  have "pktid_to_mqtt (u16_from_be_bytes a b) @ bs = bytes"
    by (simp add: ok pktid_to_mqtt_def)
  moreover have "u16_from_be_bytes a b = j" if "bytes = pktid_to_mqtt j @ rest" for j rest
    using that ok by (auto simp: pktid_to_mqtt_def u16_to_be_bytes_def)
  ultimately show ?thesis
    using ok(2) by (auto simp: pktid_from_mqtt_def pktid_new_def andthen_eq_Ok)
qed

lemma pktid_from_total:
  "pktid_from_mqtt bytes \<noteq> Panic" "pktid_from_mqtt bytes \<noteq> Diverge"
  by (cases bytes rule: read_u16_cases; simp add: pktid_from_mqtt_def pktid_new_def)+

interpretation string_codec: mqtt_codec string_from_mqtt string_to_mqtt string_ok
  by unfold_locales (auto simp: string_from_eq_Ok string_from_total)

interpretation bytes_codec: mqtt_codec bytes_from_mqtt slice_to_mqtt bytes_ok
  by unfold_locales (auto simp: bytes_from_eq_Ok bytes_from_returns)

interpretation pktid_codec: mqtt_codec pktid_from_mqtt pktid_to_mqtt "\<lambda>i. i \<noteq> 0"
  by unfold_locales (auto simp: pktid_from_eq_Ok pktid_from_total)

lemma str_to_mqtt_eq [simp]: "str_to_mqtt s = string_to_mqtt s"
  by (simp add: str_to_mqtt_def string_to_mqtt_def)

section \<open>Properties\<close>

text \<open>C18: every number below 2^28 is written in at most four bytes, and reading them back
  gives the number and the number of bytes, whatever follows.\<close>

theorem vbi_roundtrip:
  assumes "unat n < 2 ^ 28"
  shows "vbi_from_mqtt b (vbi_to_mqtt (VBI n) @ rest) = Ok (VBI n, length (vbi_to_mqtt (VBI n))) \<and>
    length (vbi_to_mqtt (VBI n)) \<le> 4"
proof -
  have "vbi_from_mqtt b (vbi_to_mqtt (VBI n) @ rest) = Ok (VBI n, length (vbi_to_mqtt (VBI n)))"
    using assms by (intro vbi_codec.dec_enc_append) (simp add: vbi_ok_def)
  then show ?thesis using vbi_from_bounds(2) by blast
qed

theorem vbi_roundtrip_witness:
  "vbi_from_mqtt Checked ([0xC1, 0x02] @ [7]) = Ok (VBI 321, 2)"
  using vbi_roundtrip [of 321 Checked "[7]"] by (simp add: vbi_to_mqtt_def vbi_bytes.simps)

text \<open>C19: all outcomes of reading a variable byte integer. A byte without continuation bit
  among the first four ends the number; fewer than five bytes without one ask for more; five
  are refused, except that a fifth byte of 16 or more in its low bits overflows the multiplication
  first, which panics in a build with overflow checks.\<close>

theorem vbi_outcomes:
  "(vbi_from_mqtt b bytes = Panic \<longleftrightarrow>
     b = Checked \<and> 4 < length bytes \<and> list_all (\<lambda>x. x AND 128 \<noteq> 0) (take 4 bytes) \<and>
     16 \<le> unat (bytes ! 4 AND 127)) \<and>
   (vbi_from_mqtt b bytes = Err NotEnoughBytes \<longleftrightarrow>
     length bytes < 5 \<and> list_all (\<lambda>x. x AND 128 \<noteq> 0) bytes) \<and>
   ((\<exists>r. vbi_from_mqtt b bytes = Ok r) \<longleftrightarrow> list_ex (\<lambda>x. x AND 128 = 0) (take 4 bytes)) \<and>
   vbi_from_mqtt b bytes \<noteq> Diverge"
proof -
  have ex: "(\<exists>j < 4. j < length bytes \<and> bytes ! j AND 128 = 0) \<longleftrightarrow>
      list_ex (\<lambda>x. x AND 128 = 0) (take 4 bytes)"
    by (auto simp: list_ex_length)
  have neg: "\<not> list_ex (\<lambda>x. x AND 128 = 0) (take 4 bytes) \<longleftrightarrow>
      list_all (\<lambda>x. x AND 128 \<noteq> 0) (take 4 bytes)"
    by (simp add: list_ex_iff list_all_iff)
  note out = vbi_from_outcome [of bytes b, unfolded ex]
  show ?thesis
  proof (cases "list_ex (\<lambda>x. x AND 128 = 0) (take 4 bytes)")
    case True
    then obtain r where "vbi_from_mqtt b bytes = Ok r" using out by auto
    moreover have "\<not> list_all (\<lambda>x. x AND 128 \<noteq> 0) bytes"
      using True by (auto simp: list_ex_iff list_all_iff dest: in_set_takeD)
    ultimately show ?thesis using True neg by auto
  next
    case False
    then show ?thesis using out neg by (cases "length bytes \<le> 4") auto
  qed
qed

text \<open>C34: a string decodes exactly when the buffer begins with an encoding of valid UTF-8,
  and never panics; a byte array has no such check, and panics on a length that exceeds the
  buffer.\<close>

theorem string_and_bytes_decode:
  "(string_from_mqtt bytes = Ok (s, n) \<longleftrightarrow>
     (\<exists>rest. bytes = string_to_mqtt s @ rest) \<and> n = length s + 2 \<and> valid_utf8 s \<and>
     length s < 65536) \<and>
   string_from_mqtt bytes \<noteq> Panic \<and>
   (bytes_from_mqtt bytes = Panic \<longleftrightarrow>
     2 \<le> length bytes \<and> length bytes < unat (u16_from_be_bytes (bytes ! 0) (bytes ! 1)) + 2)"
  by (simp_all add: string_from_eq_Ok string_ok_def string_from_total bytes_from_Panic_iff)

end
