(* ===== verification/Wire_Vec.thy ===== *)
theory Wire_Vec
  imports Wire
begin

text \<open>
  Property lists: the \<^verbatim>\<open>FromMqttBytes for Vec<...>\<close> and \<^verbatim>\<open>ToMqttBytes for &[...]\<close>
  implementations, which the source repeats verbatim for five element types
  (\<^verbatim>\<open>properties.rs\<close>, \<^verbatim>\<open>connack.rs\<close>, \<^verbatim>\<open>suback.rs\<close>, \<^verbatim>\<open>unsuback.rs\<close>, \<^verbatim>\<open>disconnect.rs\<close>). They are
  written once, over the element's decoder and encoder, and proved once, inside the trait
  contracts.
\<close>

section \<open>The implementations\<close>

text \<open>
  The loop \<^verbatim>\<open>while bytes.len() > 0\<close>. An element decoder that consumed nothing would leave
  the loop in the state it started from, for ever: that is the outcome \<open>Diverge\<close>.
\<close>

function props_loop :: "(u8 list \<Rightarrow> ('a \<times> nat) conv) \<Rightarrow> u8 list \<Rightarrow> 'a list \<Rightarrow> 'a list conv" where
  "props_loop dec bytes properties =
     (if 0 < length bytes then
        andthen (dec bytes) (\<lambda>(prop, bytes_read).
        andthen (slice_from bytes bytes_read) (\<lambda>bytes'.
        if bytes_read = 0 then Diverge
        else props_loop dec bytes' (properties @ [prop])))
      else Ok properties)"
  by pat_completeness auto
termination
  by (relation "measure (\<lambda>(dec, bytes, ps). length bytes)") (auto simp: slice_from_eq_Ok)

declare props_loop.simps [simp del]

definition vec_from_mqtt ::
  "build \<Rightarrow> (u8 list \<Rightarrow> ('a \<times> nat) conv) \<Rightarrow> u8 list \<Rightarrow> ('a list \<times> nat) conv" where
  "vec_from_mqtt b dec bytes =
     andthen (vbi_from_mqtt b bytes) (\<lambda>(bytelen, bytes_consumed).
     if vbi_eq bytelen 0 then Ok ([], bytes_consumed)
     else
       andthen (slice_range bytes bytes_consumed (vbi_plus bytelen bytes_consumed)) (\<lambda>bytes'.
       andthen (props_loop dec bytes' []) (\<lambda>properties.
       Ok (properties, vbi_plus bytelen bytes_consumed))))"

definition vec_to_mqtt :: "('a \<Rightarrow> u8 list) \<Rightarrow> 'a list \<Rightarrow> u8 list" where
  "vec_to_mqtt enc props =
     (let buf = concat (map enc props);
          len = VBI (word_of_nat (length buf))
      in vbi_to_mqtt len @ buf)"

text \<open>A list is encodable when its elements are and their bytes fit the length field.\<close>

definition vec_ok :: "('a \<Rightarrow> u8 list) \<Rightarrow> ('a \<Rightarrow> bool) \<Rightarrow> 'a list \<Rightarrow> bool" where
  "vec_ok enc ok props \<longleftrightarrow> list_all ok props \<and> length (concat (map enc props)) < 2 ^ 28"

section \<open>Their contracts\<close>

lemma vec_from_eq_Ok:
  "vec_from_mqtt b dec bytes = Ok (ps, n) \<longleftrightarrow>
    (\<exists>v k. vbi_from_mqtt b bytes = Ok (v, k) \<and> n = k + unat (vbi_val v) \<and>
       (if vbi_val v = 0 then ps = []
        else n \<le> length bytes \<and> props_loop dec (take (unat (vbi_val v)) (drop k bytes)) [] = Ok ps))"
proof (cases "vbi_from_mqtt b bytes")
  case (Ok r)
  obtain v k where r: "r = (v, k)" by fastforce
  show ?thesis
    by (cases "vbi_val v = 0")
      (auto simp: Ok r vec_from_mqtt_def andthen_eq_Ok slice_range_eq_Ok vbi_eq_def vbi_plus_def)
qed (simp_all add: vec_from_mqtt_def)

lemma vec_ok_Nil [simp]: "vec_ok enc ok []"
  by (simp add: vec_ok_def)

lemma vec_to_Nil [simp]: "vec_to_mqtt enc [] = [0]"
  by (simp add: vec_to_mqtt_def vbi_to_mqtt_def vbi_bytes.simps)

text \<open>The length prefix of an encoded list, read back in front of any bytes.\<close>

lemma vec_length_prefix:
  assumes "length buf < 2 ^ 28"
  shows "vbi_from_mqtt b (vbi_to_mqtt (VBI (word_of_nat (length buf))) @ buf @ rest) =
      Ok (VBI (word_of_nat (length buf)), length (vbi_to_mqtt (VBI (word_of_nat (length buf)))))"
    and "unat (word_of_nat (length buf) :: u32) = length buf"
    and "(word_of_nat (length buf) :: u32) = 0 \<longleftrightarrow> buf = []"
proof -
  show u: "unat (word_of_nat (length buf) :: u32) = length buf"
    using assms by (simp add: unat_of_nat)
  then show "(word_of_nat (length buf) :: u32) = 0 \<longleftrightarrow> buf = []"
    by (metis length_0_conv unat_eq_zero)
  have "vbi_ok (VBI (word_of_nat (length buf)))" using assms u by (simp add: vbi_ok_def)
  then show "vbi_from_mqtt b (vbi_to_mqtt (VBI (word_of_nat (length buf))) @ buf @ rest) =
      Ok (VBI (word_of_nat (length buf)), length (vbi_to_mqtt (VBI (word_of_nat (length buf)))))"
    by (rule vbi_codec.dec_enc_append)
qed

lemma vec_from_framed:
  assumes "length buf < 2 ^ 28" "buf \<noteq> []"
  shows "vec_from_mqtt b dec (vbi_to_mqtt (VBI (word_of_nat (length buf))) @ buf @ rest) =
    andthen (props_loop dec buf []) (\<lambda>ps.
      Ok (ps, length (vbi_to_mqtt (VBI (word_of_nat (length buf)))) + length buf))"
  using vec_length_prefix [OF assms(1)] assms(2)
  by (simp add: vec_from_mqtt_def vbi_eq_def vbi_plus_def wire_simps)

lemma vec_from_vec_to:
  assumes "buf = concat (map enc xs)" "length buf < 2 ^ 28" "buf \<noteq> []"
  shows "vec_from_mqtt b dec (vec_to_mqtt enc xs) =
    andthen (props_loop dec buf []) (\<lambda>ps. Ok (ps, length (vec_to_mqtt enc xs)))"
  using vec_from_framed [of buf b dec "[]"] assms by (simp add: vec_to_mqtt_def Let_def)

context from_mqtt
begin

lemma props_loop_returns: "props_loop dec bytes ps \<noteq> Diverge"
proof (induction "length bytes" arbitrary: bytes ps rule: less_induct)
  case less
  show ?case
  proof
    assume "props_loop dec bytes ps = Diverge"
    then obtain x n where x: "dec bytes = Ok (x, n)"
      and rest: "n = 0 \<or> props_loop dec (drop n bytes) (ps @ [x]) = Diverge"
      by (subst (asm) props_loop.simps)
        (auto simp: andthen_eq_Diverge slice_from_eq_Ok dec_returns split: if_splits)
    then show False using dec_consumes [OF x] less [OF dec_shrinks [OF x]] by auto
  qed
qed

lemma vec_from_mqtt: "from_mqtt (vec_from_mqtt b dec)"
proof
  fix bs extra ps n
  assume ok: "vec_from_mqtt b dec bs = Ok (ps, n)"
  then obtain v k where v: "vbi_from_mqtt b bs = Ok (v, k)" "n = k + unat (vbi_val v)"
    and ps: "if vbi_val v = 0 then ps = []
      else n \<le> length bs \<and> props_loop dec (take (unat (vbi_val v)) (drop k bs)) [] = Ok ps"
    by (auto simp: vec_from_eq_Ok)
  have k: "0 < k" "k \<le> length bs" using vbi_codec.dec_consumes [OF v(1)] by simp_all
  then show "0 < n \<and> n \<le> length bs" using v(2) ps by (auto split: if_splits)
  show "vec_from_mqtt b dec (bs @ extra) = Ok (ps, n)"
    using vbi_codec.dec_extend [OF v(1), of extra] v(2) ps k
    by (auto simp: vec_from_eq_Ok split: if_splits)
next
  show "vec_from_mqtt b dec bs \<noteq> Diverge" for bs
    using vbi_codec.dec_returns [of b bs] props_loop_returns
    by (auto simp: vec_from_mqtt_def andthen_eq_Diverge)
qed

end

context mqtt_codec
begin

lemma props_loop_enc_append:
  "list_all ok xs \<Longrightarrow>
    props_loop dec (concat (map enc xs) @ rest) ps = props_loop dec rest (ps @ xs)"
proof (induction xs arbitrary: ps)
  case Nil
  then show ?case by simp
next
  case (Cons x xs)
  then have "ok x" by simp
  then show ?case
    using Cons enc_nonempty [of x] dec_enc_append [of x "concat (map enc xs) @ rest"]
    by (subst props_loop.simps) (simp add: wire_simps)
qed

lemma props_loop_enc: "list_all ok xs \<Longrightarrow> props_loop dec (concat (map enc xs)) ps = Ok (ps @ xs)"
  using props_loop_enc_append [of xs "[]" ps] by (simp add: props_loop.simps [of _ "[]"])

lemma vec_dec_enc:
  assumes "vec_ok enc ok xs"
  shows "vec_from_mqtt b dec (vec_to_mqtt enc xs) = Ok (xs, length (vec_to_mqtt enc xs))"
proof -
  let ?buf = "concat (map enc xs)"
  have xs: "list_all ok xs" and len: "length ?buf < 2 ^ 28"
    using assms by (simp_all add: vec_ok_def)
  have "?buf = [] \<Longrightarrow> xs = []" using xs enc_nonempty by (cases xs) auto
  then show ?thesis
    using vec_length_prefix(1) [OF len, of b "[]"] vec_length_prefix(2,3) [OF len]
      props_loop_enc [OF xs, of "[]"]
    by (auto simp: vec_to_mqtt_def Let_def vec_from_eq_Ok)
qed

lemma vec_codec: "mqtt_codec (vec_from_mqtt b dec) (vec_to_mqtt enc) (vec_ok enc ok)"
  by (intro mqtt_codec.intro mqtt_codec_axioms.intro vec_from_mqtt vec_dec_enc)

end

end
