(* ===== verification/Properties.thy ===== *)
theory Properties
  imports Wire_Vec
begin

text \<open>
  The publish properties of \<^verbatim>\<open>src/protocol/properties.rs\<close>: their encoder and decoder, and
  the lists of them.
\<close>

section \<open>Operations\<close>

datatype property =
    PayloadFormatId u8
  | MessageExpiryInterval u32
  | ResponseTopic rstring
  | CorrelationData "u8 list"
  | UserProperty rstring rstring

fun property_id :: "property \<Rightarrow> u8" where
  "property_id (PayloadFormatId _) = 0x01"
| "property_id (MessageExpiryInterval _) = 0x02"
| "property_id (ResponseTopic _) = 0x08"
| "property_id (CorrelationData _) = 0x09"
| "property_id (UserProperty _ _) = 0x26"

definition property_to_mqtt :: "bytes_crate \<Rightarrow> property \<Rightarrow> u8 list" where
  "property_to_mqtt B p =
     [property_id p] @
     (case p of
        PayloadFormatId v \<Rightarrow> put_u8 B v
      | MessageExpiryInterval v \<Rightarrow> put_u32 B v
      | ResponseTopic s \<Rightarrow> string_to_mqtt s
      | CorrelationData d \<Rightarrow> slice_to_mqtt d
      | UserProperty k v \<Rightarrow> string_to_mqtt k @ string_to_mqtt v)"

definition u32_of_slice :: "u8 list \<Rightarrow> u32 conv" where
  "u32_of_slice sl =
     (case sl of
        [a, b, c, d] \<Rightarrow> Ok (u32_from_be_bytes a b c d)
      | _ \<Rightarrow> Err (Other (BadSliceLength sl)))"

definition property_from_mqtt :: "u8 list \<Rightarrow> (property \<times> nat) conv" where
  "property_from_mqtt bytes =
     (case get_at bytes 0 of
        Some k \<Rightarrow>
          if k = 0x01 then andthen (index_at bytes 1) (\<lambda>v. Ok (PayloadFormatId v, 2))
          else if k = 0x02 then
            andthen (andthen (ok_or (get_range bytes 1 5) NotEnoughBytes) u32_of_slice)
              (\<lambda>interval. Ok (MessageExpiryInterval interval, 4))
          else if k = 0x08 then
            andthen (slice_from bytes 1) (\<lambda>r.
            andthen (string_from_mqtt r) (\<lambda>(s, bytes_consumed).
            Ok (ResponseTopic s, bytes_consumed + 1)))
          else if k = 0x09 then
            andthen (slice_from bytes 1) (\<lambda>r.
            andthen (bytes_from_mqtt r) (\<lambda>(s, bytes_consumed).
            Ok (CorrelationData s, bytes_consumed + 1)))
          else if k = 0x26 then
            andthen (slice_from bytes 1) (\<lambda>r.
            andthen (string_from_mqtt r) (\<lambda>(key, bc1).
            andthen (slice_from bytes (bc1 + 1)) (\<lambda>r.
            andthen (string_from_mqtt r) (\<lambda>(v, bc2).
            Ok (UserProperty key v, bc1 + bc2 + 1)))))
          else Err (Other (PropertyNotImplemented k))
      | None \<Rightarrow> Err NotEnoughBytes)"

definition properties_to_mqtt :: "bytes_crate \<Rightarrow> property list \<Rightarrow> u8 list" where
  "properties_to_mqtt B = vec_to_mqtt (property_to_mqtt B)"

definition properties_from_mqtt :: "build \<Rightarrow> u8 list \<Rightarrow> (property list \<times> nat) conv" where
  "properties_from_mqtt b = vec_from_mqtt b property_from_mqtt"

section \<open>Contracts\<close>

text \<open>
  What survives a round trip: every property but \<open>MessageExpiryInterval\<close>, whose decoder
  reports one byte too few.
\<close>

fun property_ok :: "bytes_crate \<Rightarrow> property \<Rightarrow> bool" where
  "property_ok B (PayloadFormatId v) \<longleftrightarrow> bytes_crate_spec B"
| "property_ok B (MessageExpiryInterval v) \<longleftrightarrow> False"
| "property_ok B (ResponseTopic s) \<longleftrightarrow> string_ok s"
| "property_ok B (CorrelationData d) \<longleftrightarrow> bytes_ok d"
| "property_ok B (UserProperty k v) \<longleftrightarrow> string_ok k \<and> string_ok v"

text \<open>
  The item shapes the five property decoders share: one string, and a pair of strings.
\<close>

lemma slice_after_string:
  "string_from_mqtt r = Ok (s, n) \<Longrightarrow> slice_from (k # r) (Suc n) = Ok (drop n r)"
  using string_codec.dec_slice_ok [of r s n] by (simp add: wire_simps)

lemma property_from_cases:
  assumes "property_from_mqtt bytes = Ok (p, n)"
  obtains
    (format) v r where "bytes = 0x01 # v # r" "p = PayloadFormatId v" "n = 2"
  | (expiry) a b c d r where "bytes = 0x02 # a # b # c # d # r"
      "p = MessageExpiryInterval (u32_from_be_bytes a b c d)" "n = 4"
  | (response) s r where "bytes = 0x08 # string_to_mqtt s @ r" "string_ok s"
      "p = ResponseTopic s" "n = length s + 3"
  | (correlation) d r where "bytes = 0x09 # slice_to_mqtt d @ r" "bytes_ok d"
      "p = CorrelationData d" "n = length d + 3"
  | (user) k v r where "bytes = 0x26 # string_to_mqtt k @ string_to_mqtt v @ r"
      "string_ok k" "string_ok v" "p = UserProperty k v" "n = length k + length v + 5"
proof (cases bytes)
  case Nil
  with assms show ?thesis by (simp add: property_from_mqtt_def wire_simps)
next
  case (Cons k r)
  consider "k = 1" | "k = 2" | "k = 8" | "k = 9" | "k = 0x26" | "k \<notin> {1, 2, 8, 9, 0x26}"
    by blast
  then show ?thesis
  proof cases
    case 1
    with assms Cons format show ?thesis
      by (cases r) (auto simp: property_from_mqtt_def wire_simps index_at_def)
  next
    case 2
    with assms Cons have "4 \<le> length r" "andthen (u32_of_slice (take 4 r))
        (\<lambda>v. Ok (MessageExpiryInterval v, 4)) = Ok (p, n)"
      by (auto simp: property_from_mqtt_def wire_simps get_range_def split: if_splits)
    then show ?thesis using expiry Cons 2
      by (cases r rule: remdups_adj.cases; auto simp: u32_of_slice_def numeral_eq_Suc Suc_le_length_iff)
  next
    case 3
    with assms Cons response show ?thesis
      by (auto simp: property_from_mqtt_def wire_simps andthen_eq_Ok string_from_eq_Ok)
  next
    case 4
    with assms Cons correlation show ?thesis
      by (auto simp: property_from_mqtt_def wire_simps andthen_eq_Ok bytes_from_eq_Ok)
  next
    case 5
    with assms Cons user show ?thesis
      by (auto simp: property_from_mqtt_def wire_simps andthen_eq_Ok string_from_eq_Ok slice_append)
  qed (use assms Cons in \<open>auto simp: property_from_mqtt_def wire_simps\<close>)
qed

lemma property_from_returns: "property_from_mqtt bytes \<noteq> Diverge"
  by (cases bytes)
    (auto simp: property_from_mqtt_def wire_simps andthen_eq_Diverge string_from_total
      bytes_from_returns get_range_def u32_of_slice_def ok_or_def split: option.splits list.splits)

lemma property_from_values [simp]:
  "property_from_mqtt (1 # v # r) = Ok (PayloadFormatId v, 2)"
  "property_from_mqtt (2 # a # b # c # d # r) =
     Ok (MessageExpiryInterval (u32_from_be_bytes a b c d), 4)"
  "string_ok s \<Longrightarrow>
     property_from_mqtt (8 # string_to_mqtt s @ r) = Ok (ResponseTopic s, length s + 3)"
  "bytes_ok s \<Longrightarrow>
     property_from_mqtt (9 # slice_to_mqtt s @ r) = Ok (CorrelationData s, length s + 3)"
  "string_ok k \<Longrightarrow> string_ok w \<Longrightarrow>
     property_from_mqtt (0x26 # string_to_mqtt k @ string_to_mqtt w @ r) =
       Ok (UserProperty k w, length k + length w + 5)"
  using string_codec.dec_enc_append bytes_codec.dec_enc_append
  by (simp_all add: property_from_mqtt_def wire_simps get_range_def u32_of_slice_def)

interpretation property_codec: mqtt_codec property_from_mqtt "property_to_mqtt B" "property_ok B"
  for B
proof
  fix bs extra p n
  assume "property_from_mqtt bs = Ok (p, n)"
  then show "0 < n \<and> n \<le> length bs" "property_from_mqtt (bs @ extra) = Ok (p, n)"
    by (cases rule: property_from_cases; simp)+
next
  show "property_from_mqtt bs \<noteq> Diverge" for bs by (rule property_from_returns)
next
  fix p
  assume "property_ok B p"
  then show "property_from_mqtt (property_to_mqtt B p) = Ok (p, length (property_to_mqtt B p))"
    using property_from_values(3,4) [of _ "[]"] property_from_values(5) [of _ _ "[]"]
    by (cases p) (auto simp: property_to_mqtt_def bytes_crate_specD)
qed

interpretation properties_codec:
  mqtt_codec "properties_from_mqtt b" "properties_to_mqtt B"
    "vec_ok (property_to_mqtt B) (property_ok B)" for b B
  unfolding properties_from_mqtt_def properties_to_mqtt_def by (rule property_codec.vec_codec)

section \<open>The interval that does not survive\<close>

lemma property_from_short: "length bytes < 2 \<Longrightarrow> property_from_mqtt bytes \<noteq> Ok (p, n)"
  by (rule notI, erule property_from_cases) auto

lemma expiry_from_to:
  assumes "bytes_crate_spec B"
  shows "property_from_mqtt (property_to_mqtt B (MessageExpiryInterval v) @ r) =
    Ok (MessageExpiryInterval v, 4)"
  by (simp add: property_to_mqtt_def bytes_crate_specD [OF assms] u32_to_be_bytes_def)

lemma properties_expiry_last:
  assumes B: "bytes_crate_spec B" and ps: "list_all (property_ok B) ps"
    and len: "length (concat (map (property_to_mqtt B) (ps @ [MessageExpiryInterval v]))) < 2 ^ 28"
  shows "properties_from_mqtt b (properties_to_mqtt B (ps @ [MessageExpiryInterval v])) \<noteq> Ok r"
proof
  let ?buf = "concat (map (property_to_mqtt B) ps) @ property_to_mqtt B (MessageExpiryInterval v)"
  obtain qs n where r: "r = (qs, n)" by fastforce
  have buf: "concat (map (property_to_mqtt B) (ps @ [MessageExpiryInterval v])) = ?buf" by simp
  have five: "length (property_to_mqtt B (MessageExpiryInterval v)) = 5"
    by (simp add: property_to_mqtt_def bytes_crate_specD [OF B])
  then have "?buf \<noteq> []" by auto
  moreover assume "properties_from_mqtt b
    (properties_to_mqtt B (ps @ [MessageExpiryInterval v])) = Ok r"
  ultimately have "props_loop property_from_mqtt ?buf [] = Ok qs"
    using vec_from_vec_to [OF buf [symmetric], of b property_from_mqtt] len
    unfolding properties_from_mqtt_def properties_to_mqtt_def r buf
    by (auto simp: Ok_eq_andthen)
  then have "props_loop property_from_mqtt (property_to_mqtt B (MessageExpiryInterval v)) ps = Ok qs"
    using property_codec.props_loop_enc_append [OF ps] by simp
  then obtain q k where "property_from_mqtt
      (drop 4 (property_to_mqtt B (MessageExpiryInterval v))) = Ok (q, k)"
    using expiry_from_to [OF B, of v "[]"] five
    by (subst (asm) props_loop.simps, subst (asm) props_loop.simps)
      (auto simp: andthen_eq_Ok slice_from_eq_Ok)
  then show False using five by (simp add: property_from_short)
qed

section \<open>Theorems\<close>

text \<open>C23: a property list without a message expiry interval is read back as it was
  written, and takes exactly its bytes, whatever follows.\<close>

theorem properties_roundtrip:
  assumes "list_all (property_ok B) ps" "length (concat (map (property_to_mqtt B) ps)) < 2 ^ 28"
  shows "properties_from_mqtt b (properties_to_mqtt B ps @ rest) =
    Ok (ps, length (properties_to_mqtt B ps))"
  using assms by (intro properties_codec.dec_enc_append) (simp add: vec_ok_def)

theorem properties_roundtrip_witness:
  "properties_from_mqtt Wrapping
     (properties_to_mqtt bytes_model [PayloadFormatId 1, CorrelationData [1, 2]] @ [9]) =
   Ok ([PayloadFormatId 1, CorrelationData [1, 2]],
     length (properties_to_mqtt bytes_model [PayloadFormatId 1, CorrelationData [1, 2]]))"
  by (rule properties_roundtrip)
    (simp_all add: bytes_ok_def property_to_mqtt_def bytes_model_def slice_to_mqtt_def
      bytes_crate_spec_def)

text \<open>C37: a property list that ends with a message expiry interval is never read
  back: its decoder reports four bytes where it took five, so the last byte of the interval
  is taken for the next property.\<close>

theorem expiry_breaks_list:
  assumes "bytes_crate_spec B" "list_all (property_ok B) ps"
    and "length (concat (map (property_to_mqtt B) (ps @ [MessageExpiryInterval v]))) < 2 ^ 28"
  shows "property_from_mqtt (property_to_mqtt B (MessageExpiryInterval v)) =
      Ok (MessageExpiryInterval v, length (property_to_mqtt B (MessageExpiryInterval v)) - 1) \<and>
    (\<nexists>r. properties_from_mqtt b (properties_to_mqtt B (ps @ [MessageExpiryInterval v])) = Ok r)"
  using properties_expiry_last [OF assms] expiry_from_to [OF assms(1), of v "[]"]
  by (simp add: property_to_mqtt_def bytes_crate_specD [OF assms(1)])

theorem expiry_breaks_list_witness:
  "\<nexists>r. properties_from_mqtt Checked (properties_to_mqtt bytes_model [MessageExpiryInterval 60]) = Ok r"
  using expiry_breaks_list [of bytes_model "[]" 60 Checked]
  by (simp add: property_to_mqtt_def bytes_model_def bytes_crate_spec_def)

end
