(* ===== verification/Frame.thy ===== *)
theory Frame
  imports Wire_Vec
begin

text \<open>
  The frame every packet shares: a first byte, the remaining length as a \<^verbatim>\<open>VBI\<close>, the
  remaining bytes. The encoders end with \<open>frame\<close>, the decoders of acknowledgements begin
  with \<open>frame_header\<close>; the source repeats both in every packet module.
\<close>

definition frame :: "u8 \<Rightarrow> u8 list \<Rightarrow> u8 list" where
  "frame first_byte buf =
     (let header = [first_byte];
          len_vbi = vbi_to_mqtt (VBI (word_of_nat (length buf)))
      in header @ len_vbi @ buf)"

definition frame_header :: "build \<Rightarrow> u8 list \<Rightarrow> (vbi \<times> nat) conv" where
  "frame_header b bytes =
     (let bytes_read = 1 in
      andthen (slice_from bytes bytes_read) (\<lambda>r.
      andthen (vbi_from_mqtt b r) (\<lambda>(remaining_len, vbi_bytes_read).
      let bytes_read = bytes_read + vbi_bytes_read in
      if length bytes < vbi_plus remaining_len bytes_read then Err NotEnoughBytes
      else Ok (remaining_len, bytes_read))))"

definition header_len :: "u8 list \<Rightarrow> nat" where
  "header_len buf = Suc (length (vbi_to_mqtt (VBI (word_of_nat (length buf)))))"

lemma length_frame [simp]: "length (frame t buf) = header_len buf + length buf"
  by (simp add: frame_def header_len_def Let_def)

lemma frame_nonempty [simp]: "frame t buf \<noteq> []"
  by (simp add: frame_def Let_def)

lemma frame_nth_0 [simp]: "frame t buf ! 0 = t" "(frame t buf @ rest) ! 0 = t"
  by (simp_all add: frame_def Let_def)

lemma index_at_frame [simp]:
  "header_len buf \<le> n \<Longrightarrow>
    index_at (frame t buf @ rest) n = index_at (buf @ rest) (n - header_len buf)"
  "header_len buf \<le> n \<Longrightarrow> index_at (frame t buf) n = index_at buf (n - header_len buf)"
  by (auto simp: frame_def header_len_def index_at_def Let_def nth_append nth_Cons')

lemma slice_from_frame [simp]:
  "header_len buf \<le> n \<Longrightarrow>
    slice_from (frame t buf @ rest) n = slice_from (buf @ rest) (n - header_len buf)"
  "header_len buf \<le> n \<Longrightarrow> slice_from (frame t buf) n = slice_from buf (n - header_len buf)"
  by (auto simp: frame_def header_len_def slice_from_def Let_def drop_Cons')

lemma frame_header_frame:
  assumes "length buf < 2 ^ 28"
  shows "frame_header b (frame t buf @ rest) =
    Ok (VBI (word_of_nat (length buf)), header_len buf)"
  using vec_length_prefix(1) [OF assms, of b rest] vec_length_prefix(2) [OF assms]
  by (simp add: frame_header_def frame_def header_len_def vbi_plus_def wire_simps Let_def)

lemma frame_header_frame_only:
  "length buf < 2 ^ 28 \<Longrightarrow>
    frame_header b (frame t buf) = Ok (VBI (word_of_nat (length buf)), header_len buf)"
  using frame_header_frame [of buf b t "[]"] by simp

lemma frame_header_eq_Ok:
  "frame_header b bytes = Ok (v, n) \<longleftrightarrow>
    (\<exists>t r k. bytes = t # r \<and> vbi_from_mqtt b r = Ok (v, k) \<and> n = Suc k \<and>
      n + unat (vbi_val v) \<le> length bytes)"
proof (cases bytes)
  case (Cons t r)
  then show ?thesis
    by (cases "vbi_from_mqtt b r") (auto simp: frame_header_def slice_from_def vbi_plus_def split: if_splits)
qed (simp add: frame_header_def slice_from_def)

lemma frame_header_consumes:
  "frame_header b bytes = Ok (v, n) \<Longrightarrow> 2 \<le> n \<and> n + unat (vbi_val v) \<le> length bytes"
  using vbi_codec.dec_consumes by (fastforce simp: frame_header_eq_Ok)

lemma frame_header_extend:
  "frame_header b bytes = Ok (v, n) \<Longrightarrow> frame_header b (bytes @ extra) = Ok (v, n)"
  using vbi_codec.dec_extend by (fastforce simp: frame_header_eq_Ok)

lemma frame_header_returns: "frame_header b bytes \<noteq> Diverge"
  using vbi_codec.dec_returns
  by (auto simp: frame_header_def andthen_eq_Diverge Let_def)

end
