(* ===== verification/Qos.thy ===== *)
theory Qos
  imports Mqtt_Traits
begin

text \<open>
  The quality-of-service levels of \<^verbatim>\<open>src/protocol/qos.rs\<close>, with their derived order and the
  conversions from and to a byte.
\<close>

datatype qos = AtMostOnce | AtLeastOnce | ExactlyOnce

fun qos_to_u8 :: "qos \<Rightarrow> u8" where
  "qos_to_u8 AtMostOnce = 0"
| "qos_to_u8 AtLeastOnce = 1"
| "qos_to_u8 ExactlyOnce = 2"

definition qos_try_from :: "u8 \<Rightarrow> qos conv" where
  "qos_try_from u =
     (if u = 0 then Ok AtMostOnce
      else if u = 1 then Ok AtLeastOnce
      else if u = 2 then Ok ExactlyOnce
      else Err (Other (BadQos u)))"

text \<open>The derived \<^verbatim>\<open>PartialOrd\<close> orders the levels as they are declared.\<close>

instantiation qos :: linorder
begin

definition less_eq_qos :: "qos \<Rightarrow> qos \<Rightarrow> bool" where
  "less_eq_qos p q \<longleftrightarrow> unat (qos_to_u8 p) \<le> unat (qos_to_u8 q)"

definition less_qos :: "qos \<Rightarrow> qos \<Rightarrow> bool" where
  "less_qos p q \<longleftrightarrow> unat (qos_to_u8 p) < unat (qos_to_u8 q)"

instance
proof
  fix p q :: qos
  show "p \<le> q \<Longrightarrow> q \<le> p \<Longrightarrow> p = q"
    by (cases p; cases q) (simp_all add: less_eq_qos_def)
qed (auto simp: less_eq_qos_def less_qos_def)

end

lemma qos_above_AtMostOnce [simp]: "AtMostOnce < q \<longleftrightarrow> q \<noteq> AtMostOnce"
  by (cases q) (simp_all add: less_qos_def)

lemma qos_roundtrip [simp]: "qos_try_from (qos_to_u8 q) = Ok q"
  by (cases q) (simp_all add: qos_try_from_def)

lemma qos_try_from_eq_Ok: "qos_try_from u = Ok q \<longleftrightarrow> u = qos_to_u8 q"
  by (cases q) (auto simp: qos_try_from_def)

lemma qos_try_from_total [simp]: "qos_try_from u \<noteq> Panic" "qos_try_from u \<noteq> Diverge"
  by (simp_all add: qos_try_from_def)

end
