(* ===== verification/Publish.thy ===== *)
theory Publish
  imports Properties Frame Qos
begin

text \<open>
  The PUBLISH packet of \<^verbatim>\<open>src/protocol/publish.rs\<close>, which both sides send: flags, payload,
  constructors, the encoder and the decoder.
\<close>

section \<open>Flags\<close>

record publish_flags =
  dup :: bool
  qos :: qos
  retain :: bool

definition publish_flags_try_from :: "u8 \<Rightarrow> publish_flags conv" where
  "publish_flags_try_from byte =
     andthen (qos_try_from (drop_bit 1 byte AND 0b11)) (\<lambda>q.
     Ok \<lparr>dup = (byte AND 0b1000 = 0b1000), qos = q, retain = (byte AND 0b1 = 1)\<rparr>)"

definition publish_flags_to_u8 :: "publish_flags \<Rightarrow> u8" where
  "publish_flags_to_u8 f =
     0 + (if dup f then 0b1000 else 0)
       + (case qos f of AtMostOnce \<Rightarrow> 0 | AtLeastOnce \<Rightarrow> 0b010 | ExactlyOnce \<Rightarrow> 0b100)
       + (if retain f then 1 else 0)"

section \<open>The packet and its constructors\<close>

datatype payload = PayloadString rstring | PayloadBytes "u8 list"

definition payload_to_mqtt :: "payload \<Rightarrow> u8 list" where
  "payload_to_mqtt p = (case p of PayloadBytes v \<Rightarrow> v | PayloadString s \<Rightarrow> s)"

record publish =
  topic :: rstring
  payload :: payload
  properties :: "property list"
  flags :: publish_flags
  pktid :: "pktid option"

definition publish_new ::
  "rstring \<Rightarrow> payload \<Rightarrow> bool \<Rightarrow> property list \<Rightarrow> pktid option \<Rightarrow> qos \<Rightarrow> publish" where
  "publish_new t p r ps i q =
     (let f = \<lparr>dup = False, qos = q, retain = r\<rparr>
      in \<lparr>topic = t, payload = p, properties = ps, flags = f, pktid = i\<rparr>)"

definition at_most_once :: "rstring \<Rightarrow> payload \<Rightarrow> bool \<Rightarrow> property list \<Rightarrow> publish" where
  "at_most_once t p r ps = publish_new t p r ps None AtMostOnce"

definition at_least_once ::
  "rstring \<Rightarrow> payload \<Rightarrow> bool \<Rightarrow> property list \<Rightarrow> pktid \<Rightarrow> publish" where
  "at_least_once t p r ps i = publish_new t p r ps (Some i) AtLeastOnce"

definition exactly_once ::
  "rstring \<Rightarrow> payload \<Rightarrow> bool \<Rightarrow> property list \<Rightarrow> pktid \<Rightarrow> publish" where
  "exactly_once t p r ps i = publish_new t p r ps (Some i) ExactlyOnce"

definition publish_qos :: "publish \<Rightarrow> qos" where
  "publish_qos p = qos (flags p)"

definition publish_to_mqtt :: "bytes_crate \<Rightarrow> publish \<Rightarrow> (u8 list, 'e) outcome" where
  "publish_to_mqtt B p =
     (let first_byte = 0b00110000 + publish_flags_to_u8 (flags p) in
      andthen
        (if AtMostOnce < qos (flags p) then
           (case pktid p of Some i \<Rightarrow> Ok (u16_to_be_bytes i) | None \<Rightarrow> Panic)
         else Ok []) (\<lambda>id_bytes.
      let buf = string_to_mqtt (topic p) @ id_bytes @ properties_to_mqtt B (properties p) @
            payload_to_mqtt (payload p)
      in Ok (frame first_byte buf)))"

definition is_utf8_format :: "property \<Rightarrow> bool" where
  "is_utf8_format prop \<longleftrightarrow> prop = PayloadFormatId 1"

text \<open>The packet identifier and the payload, each with the number of bytes it takes.\<close>

definition publish_pktid_from ::
  "publish_flags \<Rightarrow> u8 list \<Rightarrow> nat \<Rightarrow> (pktid option \<times> nat) conv" where
  "publish_pktid_from f bytes bytes_read =
     (if AtMostOnce < qos f then
        andthen (slice_from bytes bytes_read) (\<lambda>r.
        andthen (pktid_from_mqtt r) (\<lambda>(i, len). Ok (Some i, len)))
      else Ok (None, 0))"

definition publish_payload_from ::
  "build \<Rightarrow> property list \<Rightarrow> u8 list \<Rightarrow> vbi \<Rightarrow> nat \<Rightarrow> nat \<Rightarrow> (payload \<times> nat) conv" where
  "publish_payload_from b ps bytes remaining_len variable_header_len bytes_read =
     andthen (vbi_minus b remaining_len variable_header_len) (\<lambda>payload_len.
     andthen (usize_add b bytes_read payload_len) (\<lambda>payload_end.
     andthen (slice_range bytes bytes_read payload_end) (\<lambda>sl.
     if list_ex is_utf8_format ps then
       (if valid_utf8 sl then Ok (PayloadString sl, payload_len)
        else Err (Other (PayloadNotUtf8 sl)))
     else Ok (PayloadBytes sl, payload_len))))"

definition publish_from_mqtt :: "build \<Rightarrow> u8 list \<Rightarrow> (publish \<times> nat) conv" where
  "publish_from_mqtt b bytes =
     andthen (ok_or (get_at bytes 0) NotEnoughBytes) (\<lambda>byte.
     andthen (publish_flags_try_from byte) (\<lambda>flags.
     let bytes_read = 1 in
     andthen (slice_from bytes bytes_read) (\<lambda>r.
     andthen (vbi_from_mqtt b r) (\<lambda>(remaining_len, vbi_bytes_read).
     let bytes_read = bytes_read + vbi_bytes_read in
     if length bytes < vbi_plus remaining_len vbi_bytes_read + 1 then Err NotEnoughBytes
     else
     andthen (slice_from bytes bytes_read) (\<lambda>r.
     andthen (string_from_mqtt r) (\<lambda>(topic, topic_bytes_read).
     let bytes_read = bytes_read + topic_bytes_read;
         variable_header_len = topic_bytes_read in
     andthen (publish_pktid_from flags bytes bytes_read) (\<lambda>(pktid, pktid_bytes_read).
     let bytes_read = bytes_read + pktid_bytes_read;
         variable_header_len = variable_header_len + pktid_bytes_read in
     andthen (slice_from bytes bytes_read) (\<lambda>r.
     andthen (properties_from_mqtt b r) (\<lambda>(properties, props_bytes_read).
     let bytes_read = bytes_read + props_bytes_read;
         variable_header_len = variable_header_len + props_bytes_read in
     andthen (publish_payload_from b properties bytes remaining_len variable_header_len bytes_read)
       (\<lambda>(payload, payload_len).
     let bytes_read = bytes_read + payload_len in
     Ok (\<lparr>topic = topic, payload = payload, properties = properties, flags = flags,
          pktid = pktid\<rparr>, bytes_read)))))))))))"

section \<open>Flags survive\<close>

lemma publish_flags_roundtrip [simp]:
  "publish_flags_try_from (0b00110000 + publish_flags_to_u8 f) = Ok f"
proof (cases f)
  case (fields d q r)
  then show ?thesis
    by (cases d; cases q; cases r)
      (simp_all add: publish_flags_try_from_def publish_flags_to_u8_def qos_try_from_def
        drop_bit_eq_div)
qed

lemma publish_flags_total [simp]:
  "publish_flags_try_from x \<noteq> Panic" "publish_flags_try_from x \<noteq> Diverge"
  by (auto simp: publish_flags_try_from_def andthen_eq_Panic andthen_eq_Diverge)


section \<open>The decoder\<close>

text \<open>
  The payload length is a difference that underflows when the variable header is longer than
  the packet. In both profiles the slice that follows then panics, so a success means that
  it did not underflow.
\<close>

lemma payload_range:
  assumes "vbi_minus b v h = (Ok len :: nat conv)" "usize_add b (a + h) len = (Ok e :: nat conv)"
    and "slice_range bytes (a + h) e = (Ok sl :: 'a list conv)" "a < 2 ^ 32"
  shows "h \<le> unat (vbi_val v)" "len = unat (vbi_val v) - h" "e = a + unat (vbi_val v)"
proof -
  have v: "unat (vbi_val v) < 2 ^ 32" using unsigned_less [of "vbi_val v"] by simp
  show h: "h \<le> unat (vbi_val v)"
  proof (rule ccontr)
    assume neg: "\<not> h \<le> unat (vbi_val v)"
    then have len: "len = 2 ^ 64 + unat (vbi_val v) - h"
      using assms(1) by (simp add: vbi_minus_def usize_sub_def split: if_splits)
    then have "2 ^ 64 \<le> a + h + len" using neg by linarith
    then have e: "e = (a + h + len) mod 2 ^ 64"
      using assms(2) by (simp add: usize_add_def split: if_splits)
    have "e < a + h"
    proof (cases "h \<le> 2 ^ 64 + unat (vbi_val v)")
      case True
      then have "a + h + len = a + unat (vbi_val v) + 2 ^ 64" using len by simp
      then have "e = (a + unat (vbi_val v)) mod 2 ^ 64" using e by (simp only: mod_add_self2)
      then have "e \<le> a + unat (vbi_val v)" by simp
      then show ?thesis using neg by linarith
    next
      case False
      have "e < 2 ^ 64" using e by simp
      then show ?thesis using False by linarith
    qed
    then show False using assms(3) by (simp add: slice_range_def)
  qed
  then show len: "len = unat (vbi_val v) - h"
    using assms(1) by (simp add: vbi_minus_def usize_sub_def)
  then show "e = a + unat (vbi_val v)"
    using assms(2,4) h v by (simp add: usize_add_def split: if_splits)
qed

lemma publish_payload_from_OkD:
  assumes "publish_payload_from b ps bytes v h (a + h) = Ok (p, len)" "a < 2 ^ 32"
  shows "h \<le> unat (vbi_val v)" "len = unat (vbi_val v) - h"
    "p = (if list_ex is_utf8_format ps then PayloadString else PayloadBytes)
       (take len (drop (a + h) bytes))"
    "list_ex is_utf8_format ps \<Longrightarrow> valid_utf8 (take len (drop (a + h) bytes))"
    "a + unat (vbi_val v) \<le> length bytes"
proof -
  obtain e sl where s: "vbi_minus b v h = (Ok len :: nat conv)"
      "usize_add b (a + h) len = (Ok e :: nat conv)"
      "slice_range bytes (a + h) e = (Ok sl :: u8 list conv)"
    and q: "p = (if list_ex is_utf8_format ps then PayloadString else PayloadBytes) sl"
      "list_ex is_utf8_format ps \<Longrightarrow> valid_utf8 sl"
    using assms(1) by (auto simp: publish_payload_from_def andthen_eq_Ok split: if_splits)
  note r = payload_range [OF s assms(2)]
  show "h \<le> unat (vbi_val v)" "len = unat (vbi_val v) - h" by (fact r)+
  have "sl = take len (drop (a + h) bytes)" "a + unat (vbi_val v) \<le> length bytes"
    using s(3) r by (auto simp: slice_range_eq_Ok)
  with q show "p = (if list_ex is_utf8_format ps then PayloadString else PayloadBytes)
       (take len (drop (a + h) bytes))"
    "list_ex is_utf8_format ps \<Longrightarrow> valid_utf8 (take len (drop (a + h) bytes))"
    "a + unat (vbi_val v) \<le> length bytes"
    by simp_all
qed

lemma publish_pktid_from_eq_Ok:
  "publish_pktid_from f bytes k = Ok (i, n) \<longleftrightarrow>
    (if qos f = AtMostOnce then i = None \<and> n = 0
     else k \<le> length bytes \<and> (\<exists>j. i = Some j \<and> pktid_from_mqtt (drop k bytes) = Ok (j, n)))"
  by (auto simp: publish_pktid_from_def andthen_eq_Ok slice_from_eq_Ok)

lemma publish_from_OkE:
  assumes "publish_from_mqtt b bytes = Ok (p, n)"
  obtains t r v k r1 tl il r2 pl len where
    "bytes = t # r" "publish_flags_try_from t = Ok (flags p)"
    "vbi_from_mqtt b r = Ok (v, k)" "Suc (k + unat (vbi_val v)) \<le> length bytes"
    "slice_from bytes (Suc k) = (Ok r1 :: u8 list conv)" "string_from_mqtt r1 = Ok (topic p, tl)"
    "publish_pktid_from (flags p) bytes (Suc (k + tl)) = Ok (pktid p, il)"
    "slice_from bytes (Suc (k + tl + il)) = (Ok r2 :: u8 list conv)"
    "properties_from_mqtt b r2 = Ok (properties p, pl)"
    "publish_payload_from b (properties p) bytes v (tl + il + pl) (Suc (k + tl + il + pl)) =
      Ok (payload p, len)"
    "n = Suc (k + tl + il + pl + len)"
proof (cases bytes)
  case Nil
  with assms show ?thesis by (simp add: publish_from_mqtt_def wire_simps)
next
  case (Cons t r)
  show ?thesis
    using assms that [OF Cons] unfolding publish_from_mqtt_def Cons
    by (auto simp: wire_simps andthen_eq_Ok Let_def vbi_plus_def split: if_splits)
qed

lemma publish_pktid_from_extend:
  "publish_pktid_from f bytes k = Ok (i, n) \<Longrightarrow> publish_pktid_from f (bytes @ extra) k = Ok (i, n)"
  by (auto simp: publish_pktid_from_eq_Ok pktid_codec.dec_extend split: if_splits)

lemma publish_payload_from_extend:
  "publish_payload_from b ps bytes v h n = Ok (p, len) \<Longrightarrow>
    publish_payload_from b ps (bytes @ extra) v h n = Ok (p, len)"
  by (auto simp: publish_payload_from_def andthen_eq_Ok slice_range_def split: if_splits)

lemma publish_from_consumes:
  assumes "publish_from_mqtt b bytes = Ok (p, n)"
  obtains t r v k where "bytes = t # r" "vbi_from_mqtt b r = Ok (v, k)"
    "n = Suc k + unat (vbi_val v)" "n \<le> length bytes"
  using assms
proof (cases rule: publish_from_OkE)
  case (1 t r v k r1 tl il r2 pl len)
  have "k \<le> 4" using vbi_from_bounds [OF 1(3)] by simp
  then have k: "Suc k < 2 ^ 32" by simp
  have "Suc (k + tl + il + pl) = Suc k + (tl + il + pl)" by simp
  note q = publish_payload_from_OkD [OF 1(10) [unfolded this] k]
  show ?thesis
    by (rule that [OF 1(1,3)]) (use 1(4,11) q(1,2) in simp_all)
qed

interpretation publish: from_mqtt "publish_from_mqtt b" for b
proof
  fix bs extra p n
  assume ok: "publish_from_mqtt b bs = Ok (p, n)"
  from ok show "0 < n \<and> n \<le> length bs"
    by (cases rule: publish_from_consumes) auto
  from ok show "publish_from_mqtt b (bs @ extra) = Ok (p, n)"
  proof (cases rule: publish_from_OkE)
    case (1 t r v k r1 tl il r2 pl len)
    then show ?thesis
      using vbi_codec.dec_extend [OF 1(3)] slice_from_extend [OF 1(5)]
        string_codec.dec_extend [OF 1(6)] publish_pktid_from_extend [OF 1(7)]
        slice_from_extend [OF 1(8)] properties_codec.dec_extend [OF 1(9)]
        publish_payload_from_extend [OF 1(10)]
      by (simp add: publish_from_mqtt_def wire_simps vbi_plus_def Let_def)
  qed
next
  show "publish_from_mqtt b bs \<noteq> Diverge" for bs
    by (auto simp: publish_from_mqtt_def publish_pktid_from_def publish_payload_from_def
        vbi_minus_def usize_sub_def usize_add_def andthen_eq_Diverge ok_or_def
        string_from_total pktid_from_total vbi_codec.dec_returns properties_codec.dec_returns Let_def
        split: if_splits option.splits)
qed

text \<open>What holds of every decoded packet.\<close>

definition publish_wf :: "publish \<Rightarrow> bool" where
  "publish_wf p \<longleftrightarrow>
     string_ok (topic p) \<and>
     (pktid p = None \<longleftrightarrow> qos (flags p) = AtMostOnce) \<and> pktid p \<noteq> Some 0 \<and>
     (case payload p of
        PayloadString s \<Rightarrow> list_ex is_utf8_format (properties p) \<and> valid_utf8 s
      | PayloadBytes d \<Rightarrow> \<not> list_ex is_utf8_format (properties p))"

lemma publish_from_wf:
  assumes "publish_from_mqtt b bytes = Ok (p, n)"
  shows "publish_wf p"
  using assms
proof (cases rule: publish_from_OkE)
  case (1 t r v k r1 tl il r2 pl len)
  have "string_ok (topic p)" using 1(6) by (simp add: string_from_eq_Ok)
  moreover have "(pktid p = None \<longleftrightarrow> qos (flags p) = AtMostOnce) \<and> pktid p \<noteq> Some 0"
    using 1(7) by (auto simp: publish_pktid_from_eq_Ok pktid_from_eq_Ok split: if_splits)
  moreover have "case payload p of
        PayloadString s \<Rightarrow> list_ex is_utf8_format (properties p) \<and> valid_utf8 s
      | PayloadBytes d \<Rightarrow> \<not> list_ex is_utf8_format (properties p)"
    using 1(10)
    by (cases "payload p") (auto simp: publish_payload_from_def andthen_eq_Ok split: if_splits)
  ultimately show ?thesis by (simp add: publish_wf_def)
qed

section \<open>Round trip\<close>

definition publish_buf :: "bytes_crate \<Rightarrow> publish \<Rightarrow> u8 list" where
  "publish_buf B p =
     string_to_mqtt (topic p) @
     (case pktid p of Some i \<Rightarrow> u16_to_be_bytes i | None \<Rightarrow> []) @
     properties_to_mqtt B (properties p) @ payload_to_mqtt (payload p)"

text \<open>The packets that survive: well-formed, with encodable properties, and not too long.\<close>

definition publish_ok :: "bytes_crate \<Rightarrow> publish \<Rightarrow> bool" where
  "publish_ok B p \<longleftrightarrow>
     publish_wf p \<and> vec_ok (property_to_mqtt B) (property_ok B) (properties p) \<and>
     length (publish_buf B p) < 2 ^ 28"

lemma publish_to_mqtt_eq:
  assumes "pktid p = None \<longleftrightarrow> qos (flags p) = AtMostOnce"
  shows "publish_to_mqtt B p =
    Ok (frame (0b00110000 + publish_flags_to_u8 (flags p)) (publish_buf B p))"
  using assms by (auto simp: publish_to_mqtt_def publish_buf_def Let_def split: option.splits)

lemma slice_range_frame:
  assumes "buf = xs @ ys" "n = header_len buf + length xs" "m = header_len buf + length buf"
  shows "slice_range (frame t buf @ rest) n m = Ok ys"
  using assms by (simp add: slice_range_def frame_def header_len_def Let_def)

lemma publish_payload_from_frame:
  assumes buf: "buf = xs @ payload_to_mqtt pl" "length buf < 2 ^ 28"
    and n: "n = header_len buf + length xs"
    and pl: "case pl of PayloadString s \<Rightarrow> list_ex is_utf8_format ps \<and> valid_utf8 s
      | PayloadBytes d \<Rightarrow> \<not> list_ex is_utf8_format ps"
  shows "publish_payload_from b ps (frame t buf @ rest) (VBI (word_of_nat (length buf))) (length xs) n =
    Ok (pl, length (payload_to_mqtt pl))"
proof -
  have len: "unat (word_of_nat (length buf) :: u32) = length buf"
    by (rule vec_length_prefix(2) [OF buf(2)])
  have "header_len buf \<le> 6" using length_vbi_to_mqtt by (simp add: header_len_def)
  then have "n + length (payload_to_mqtt pl) < 2 ^ 64" using buf n by simp
  moreover have "slice_range (frame t buf @ rest) n (n + length (payload_to_mqtt pl)) =
      (Ok (payload_to_mqtt pl) :: u8 list conv)"
    by (rule slice_range_frame [OF buf(1) n]) (simp add: buf(1) n)
  moreover have "vbi_minus b (VBI (word_of_nat (length buf))) (length xs) =
      (Ok (length (payload_to_mqtt pl)) :: nat conv)"
  proof -
    have "length buf = length xs + length (payload_to_mqtt pl)" by (simp add: buf(1))
    then show ?thesis unfolding vbi_minus_def vbi.sel len by (simp add: usize_ok)
  qed
  ultimately show ?thesis
    using pl unfolding publish_payload_from_def
    by (cases pl) (simp_all add: usize_ok payload_to_mqtt_def)
qed

lemma publish_header_frame:
  assumes "length buf < 2 ^ 28"
  defines "v \<equiv> VBI (word_of_nat (length buf))"
  shows "get_at (frame t buf @ rest) 0 = Some t"
    and "slice_from (frame t buf @ rest) 1 = (Ok (vbi_to_mqtt v @ buf @ rest) :: u8 list conv)"
    and "vbi_from_mqtt b (vbi_to_mqtt v @ buf @ rest) = Ok (v, header_len buf - 1)"
    and "1 + (header_len buf - 1) = header_len buf"
    and "\<not> length (frame t buf @ rest) < vbi_plus v (header_len buf - 1) + 1"
proof -
  have bytes: "frame t buf @ rest = t # vbi_to_mqtt v @ buf @ rest"
    by (simp add: frame_def v_def Let_def)
  show "get_at (frame t buf @ rest) 0 = Some t"
    "slice_from (frame t buf @ rest) 1 = (Ok (vbi_to_mqtt v @ buf @ rest) :: u8 list conv)"
    unfolding bytes by (simp_all add: wire_simps)
  show "vbi_from_mqtt b (vbi_to_mqtt v @ buf @ rest) = Ok (v, header_len buf - 1)"
    using vec_length_prefix(1) [OF assms(1)] by (simp add: header_len_def v_def)
  show L: "1 + (header_len buf - 1) = header_len buf" by (simp add: header_len_def)
  show "\<not> length (frame t buf @ rest) < vbi_plus v (header_len buf - 1) + 1"
    using vec_length_prefix(2) [OF assms(1)] L by (simp add: vbi_plus_def v_def)
qed

lemma publish_pktid_from_frame:
  assumes "pktid p = None \<longleftrightarrow> qos (flags p) = AtMostOnce" "pktid p \<noteq> Some 0"
    and buf: "buf = string_to_mqtt s @ (case pktid p of Some i \<Rightarrow> u16_to_be_bytes i | None \<Rightarrow> []) @ xs"
  shows "publish_pktid_from (flags p) (frame t buf @ rest) (header_len buf + (length s + 2)) =
    Ok (pktid p, length (case pktid p of Some i \<Rightarrow> u16_to_be_bytes i | None \<Rightarrow> []))"
proof (cases "pktid p")
  case None
  with assms(1) show ?thesis by (simp add: publish_pktid_from_def)
next
  case (Some i)
  then have "pktid_from_mqtt (pktid_to_mqtt i @ r) = Ok (i, 2)" for r
    using assms(2) pktid_codec.dec_enc_append [of i] by simp
  with Some assms(1) show ?thesis
    by (simp add: publish_pktid_from_def buf pktid_to_mqtt_def wire_simps)
qed

lemma publish_from_frame:
  assumes ok: "publish_ok B p"
  defines "buf \<equiv> publish_buf B p"
    and "t \<equiv> 0b00110000 + publish_flags_to_u8 (flags p)"
  shows "publish_from_mqtt b (frame t buf @ rest) = Ok (p, length (frame t buf))"
proof -
  let ?idb = "case pktid p of Some i \<Rightarrow> u16_to_be_bytes i | None \<Rightarrow> []"
  let ?props = "properties_to_mqtt B (properties p)"
  let ?pay = "payload_to_mqtt (payload p)"
  let ?L = "header_len buf"
  have wf: "string_ok (topic p)" "pktid p = None \<longleftrightarrow> qos (flags p) = AtMostOnce" "pktid p \<noteq> Some 0"
    and ps: "vec_ok (property_to_mqtt B) (property_ok B) (properties p)"
    and len: "length buf < 2 ^ 28"
    and pay: "case payload p of
        PayloadString s \<Rightarrow> list_ex is_utf8_format (properties p) \<and> valid_utf8 s
      | PayloadBytes d \<Rightarrow> \<not> list_ex is_utf8_format (properties p)"
    using ok by (auto simp: publish_ok_def publish_wf_def buf_def)
  have buf: "buf = string_to_mqtt (topic p) @ ?idb @ ?props @ ?pay"
    by (simp add: buf_def publish_buf_def)
  have lb: "length buf = length (topic p) + 2 + length ?idb + length ?props + length ?pay"
    by (simp add: buf)
  note hd = publish_header_frame [OF len]
  have flg: "publish_flags_try_from t = Ok (flags p)" by (simp add: t_def)
  have tp: "string_from_mqtt (buf @ rest) = Ok (topic p, length (topic p) + 2)"
    using string_codec.dec_enc_append [OF wf(1)] by (simp add: buf)
  note pid = publish_pktid_from_frame [OF wf(2,3) buf, of t rest]
  have pr1: "slice_from (frame t buf @ rest) (?L + (length (topic p) + 2) + length ?idb) =
      (Ok (?props @ ?pay @ rest) :: u8 list conv)"
    by (cases "pktid p") (simp_all add: buf wire_simps)
  note pr2 = properties_codec.dec_enc_append [OF ps, of b "?pay @ rest"]
  have lx: "length (topic p) + 2 + length ?idb + length ?props =
      length (string_to_mqtt (topic p) @ ?idb @ ?props)" by simp
  have pay: "publish_payload_from b (properties p) (frame t buf @ rest)
      (VBI (word_of_nat (length buf))) (length (topic p) + 2 + length ?idb + length ?props)
      (?L + (length (topic p) + 2) + length ?idb + length ?props) = Ok (payload p, length ?pay)"
    unfolding lx
    by (rule publish_payload_from_frame [OF _ len _ pay]) (simp add: buf, simp)
  show ?thesis
    unfolding publish_from_mqtt_def hd(1,2) ok_or_simps andthen.simps flg Let_def hd(3) prod.case hd(4)
    using tp pid pr1 pr2 pay lb hd(5) [of t rest] by (simp add: wire_simps)
qed

section \<open>Properties\<close>

text \<open>C12: a well-formed PUBLISH with encodable properties is read back as it was built,
  with its flags, identifier, properties and payload, whatever follows it in the buffer.\<close>

theorem publish_roundtrip:
  assumes "publish_ok B p"
  shows "\<exists>bytes. publish_to_mqtt B p = Ok bytes \<and>
    publish_from_mqtt b (bytes @ rest) = Ok (p, length bytes)"
proof -
  have "pktid p = None \<longleftrightarrow> qos (flags p) = AtMostOnce"
    using assms by (simp add: publish_ok_def publish_wf_def)
  then show ?thesis by (simp add: publish_to_mqtt_eq publish_from_frame [OF assms] del: length_frame)
qed

theorem publish_roundtrip_witness:
  "\<exists>bytes. publish_to_mqtt bytes_model (at_least_once [97] (PayloadString [98, 99]) True [PayloadFormatId 1] 7)
      = Ok bytes \<and>
    publish_from_mqtt Checked (bytes @ [0]) =
      Ok (at_least_once [97] (PayloadString [98, 99]) True [PayloadFormatId 1] 7, length bytes)"
  by (rule publish_roundtrip)
    (simp add: publish_ok_def publish_wf_def at_least_once_def publish_new_def string_ok_def in_range_def
      is_utf8_format_def vec_ok_def publish_buf_def property_to_mqtt_def bytes_model_def
      bytes_crate_spec_def properties_to_mqtt_def vec_to_mqtt_def string_to_mqtt_def
      payload_to_mqtt_def vbi_to_mqtt_def vbi_bytes.simps [of 2])

text \<open>C17: a PUBLISH that decodes takes exactly the bytes its header announces, has an
  identifier, which is not zero, exactly when its quality of service is above zero, a topic
  of valid UTF-8, and a text payload exactly when a property says UTF-8, which it then is.\<close>

theorem publish_decoded:
  assumes "publish_from_mqtt b bytes = Ok (p, n)"
  shows "publish_wf p \<and> n \<le> length bytes \<and>
    (\<exists>v k. vbi_from_mqtt b (tl bytes) = Ok (v, k) \<and> n = 1 + k + unat (vbi_val v))"
  by (rule publish_from_consumes [OF assms]) (auto simp: publish_from_wf [OF assms])

theorem publish_decoded_witness:
  "\<exists>p n. publish_from_mqtt Wrapping (frame 0x30 [0, 1, 97, 0] @ [9]) = Ok (p, n) \<and>
    publish_wf p \<and> n \<le> 7"
proof -
  let ?p = "at_most_once [97] (PayloadBytes []) False []"
  have "publish_buf bytes_model ?p = [0, 1, 97, 0]"
    by (simp add: at_most_once_def publish_new_def publish_buf_def properties_to_mqtt_def
        vec_to_mqtt_def string_to_mqtt_def payload_to_mqtt_def u16_to_be_bytes_def vbi_to_mqtt_def
        vbi_bytes.simps [of 0])
  moreover from this have "publish_ok bytes_model ?p"
    by (simp add: publish_ok_def publish_wf_def at_most_once_def publish_new_def string_ok_def
        in_range_def vec_ok_def)
  ultimately have d: "publish_from_mqtt Wrapping (frame 0x30 [0, 1, 97, 0] @ [9]) =
      Ok (?p, length (frame 0x30 [0, 1, 97, 0]))"
    using publish_from_frame [of bytes_model ?p Wrapping "[9]"]
    by (simp add: at_most_once_def publish_new_def publish_flags_to_u8_def)
  then show ?thesis
    using publish_decoded [OF d]
    by (intro exI [of _ ?p] exI [of _ "length (frame 0x30 [0, 1, 97, 0])"])
      (simp add: header_len_def vbi_to_mqtt_def vbi_bytes.simps [of 4])
qed

end
