(* ===== verification/Ack_Properties.thy ===== *)
theory Ack_Properties
  imports Wire_Vec
begin

text \<open>
  The properties \<^verbatim>\<open>ReasonString\<close> and \<^verbatim>\<open>UserProperty\<close>, which \<^verbatim>\<open>connack.rs\<close>,
  \<^verbatim>\<open>suback.rs\<close>, \<^verbatim>\<open>unsuback.rs\<close> and \<^verbatim>\<open>disconnect.rs\<close> each declare for themselves with the
  same encoder and decoder. The decoder is written once, over the two constructors, and
  its contract is proved once, in the locale \<open>ack_property\<close> that the four modules
  interpret.
\<close>

definition ack_property_from_mqtt ::
  "(rstring \<Rightarrow> 'p) \<Rightarrow> (rstring \<Rightarrow> rstring \<Rightarrow> 'p) \<Rightarrow> u8 list \<Rightarrow> ('p \<times> nat) conv" where
  "ack_property_from_mqtt reason_string user_property bytes =
     (case get_at bytes 0 of
        Some k \<Rightarrow>
          if k = 0x1F then
            andthen (slice_from bytes 1) (\<lambda>r.
            andthen (string_from_mqtt r) (\<lambda>(s, bytes_consumed).
            Ok (reason_string s, bytes_consumed + 1)))
          else if k = 0x26 then
            andthen (slice_from bytes 1) (\<lambda>r.
            andthen (string_from_mqtt r) (\<lambda>(key, bc1).
            andthen (slice_from bytes (bc1 + 1)) (\<lambda>r.
            andthen (string_from_mqtt r) (\<lambda>(v, bc2).
            Ok (user_property key v, bc1 + bc2 + 1)))))
          else Err (Other (PropertyNotImplemented k))
      | None \<Rightarrow> Err NotEnoughBytes)"

lemma ack_property_from_cases:
  assumes "ack_property_from_mqtt rs up bytes = Ok (p, n)"
  obtains
    (reason) s r where "bytes = 0x1F # string_to_mqtt s @ r" "string_ok s" "p = rs s"
      "n = length s + 3"
  | (user) k v r where "bytes = 0x26 # string_to_mqtt k @ string_to_mqtt v @ r"
      "string_ok k" "string_ok v" "p = up k v" "n = length k + length v + 5"
proof (cases bytes)
  case Nil
  with assms show ?thesis by (simp add: ack_property_from_mqtt_def wire_simps)
next
  case (Cons k r)
  consider "k = 0x1F" | "k = 0x26" | "k \<notin> {0x1F, 0x26}" by blast
  then show ?thesis
  proof cases
    case 1
    with assms Cons reason show ?thesis
      by (auto simp: ack_property_from_mqtt_def wire_simps andthen_eq_Ok string_from_eq_Ok)
  next
    case 2
    with assms Cons user show ?thesis
      by (auto simp: ack_property_from_mqtt_def wire_simps andthen_eq_Ok string_from_eq_Ok)
  qed (use assms Cons in \<open>auto simp: ack_property_from_mqtt_def wire_simps\<close>)
qed

lemma ack_property_from_values [simp]:
  "string_ok s \<Longrightarrow>
     ack_property_from_mqtt rs up (0x1F # string_to_mqtt s @ r) = Ok (rs s, length s + 3)"
  "string_ok k \<Longrightarrow> string_ok v \<Longrightarrow>
     ack_property_from_mqtt rs up (0x26 # string_to_mqtt k @ string_to_mqtt v @ r) =
       Ok (up k v, length k + length v + 5)"
  using string_codec.dec_enc_append
  by (simp_all add: ack_property_from_mqtt_def wire_simps)

lemma ack_property_from_values_Nil [simp]:
  "string_ok s \<Longrightarrow>
     ack_property_from_mqtt rs up (0x1F # string_to_mqtt s) = Ok (rs s, length s + 3)"
  "string_ok k \<Longrightarrow> string_ok v \<Longrightarrow>
     ack_property_from_mqtt rs up (0x26 # string_to_mqtt k @ string_to_mqtt v) =
       Ok (up k v, length k + length v + 5)"
  using ack_property_from_values [where r = "[]"] by simp_all

lemma ack_property_from_total:
  "ack_property_from_mqtt rs up bytes \<noteq> Panic" "ack_property_from_mqtt rs up bytes \<noteq> Diverge"
  by (cases bytes; auto simp: ack_property_from_mqtt_def wire_simps andthen_eq_Diverge
      andthen_eq_Panic string_from_total string_from_eq_Ok)+

locale ack_property =
  fixes reason_string :: "rstring \<Rightarrow> 'p"
    and user_property :: "rstring \<Rightarrow> rstring \<Rightarrow> 'p"
    and enc :: "'p \<Rightarrow> u8 list"
    and ok :: "'p \<Rightarrow> bool"
  assumes enc_reason: "enc (reason_string s) = 0x1F # string_to_mqtt s"
    and enc_user: "enc (user_property k v) = 0x26 # string_to_mqtt k @ string_to_mqtt v"
    and ok_cases: "ok p \<Longrightarrow>
      (\<exists>s. p = reason_string s \<and> string_ok s) \<or>
      (\<exists>k v. p = user_property k v \<and> string_ok k \<and> string_ok v)"
begin

sublocale codec: mqtt_codec "ack_property_from_mqtt reason_string user_property" enc ok
proof
  fix bs extra p n
  assume "ack_property_from_mqtt reason_string user_property bs = Ok (p, n)"
  then show "0 < n \<and> n \<le> length bs"
    and "ack_property_from_mqtt reason_string user_property (bs @ extra) = Ok (p, n)"
    by (cases rule: ack_property_from_cases; simp)+
next
  show "ack_property_from_mqtt reason_string user_property bs \<noteq> Diverge" for bs
    by (rule ack_property_from_total)
next
  fix p
  assume "ok p"
  then show "ack_property_from_mqtt reason_string user_property (enc p) = Ok (p, length (enc p))"
    using ok_cases [of p]
    by (auto simp: enc_reason enc_user)
qed

end

end
