(* ===== verification/Connack.thy ===== *)
theory Connack
  imports Ack_Properties Frame
begin

text \<open>
  The CONNACK packet of \<^verbatim>\<open>src/protocol/connack.rs\<close>: flags, reason codes, properties and the
  decoder.
\<close>

section \<open>Flags and reasons\<close>

record connack_flags =
  session_present :: bool

definition connack_flags_try_from :: "u8 \<Rightarrow> (connack_flags, message) outcome" where
  "connack_flags_try_from b =
     (if b = 0 then Ok \<lparr>session_present = False\<rparr>
      else if b = 1 then Ok \<lparr>session_present = True\<rparr>
      else Err (BadConnackFlags b))"

datatype connack_reason =
    ConnackSuccess | ConnackUnspecifiedError | ConnackMalformedPacket
    | ConnackProtocolError | ConnackImplementationSpecificError
    | ConnackUnsupportedProtocolVersion | ConnackClientIdentifierNotValid
    | ConnackBadUserNameOrPassword | ConnackNotAuthorized | ConnackServerUnavailable
    | ConnackServerBusy | ConnackBanned | ConnackBadAuthenticationMethod
    | ConnackTopicNameInvalid | ConnackPacketTooLarge | ConnackQuotaExceeded
    | ConnackPayloadFormatInvalid | ConnackRetainNotSupported | ConnackQoSNotSupported
    | ConnackUseAnotherServer | ConnackServerMoved | ConnackConnectionRateExceeded

definition connack_reason_try_from :: "u8 \<Rightarrow> (connack_reason, message) outcome" where
  "connack_reason_try_from b =
     (if b = 0 then Ok ConnackSuccess
      else if b = 128 then Ok ConnackUnspecifiedError
      else if b = 129 then Ok ConnackMalformedPacket
      else if b = 130 then Ok ConnackProtocolError
      else if b = 131 then Ok ConnackImplementationSpecificError
      else if b = 132 then Ok ConnackUnsupportedProtocolVersion
      else if b = 133 then Ok ConnackClientIdentifierNotValid
      else if b = 134 then Ok ConnackBadUserNameOrPassword
      else if b = 135 then Ok ConnackNotAuthorized
      else if b = 136 then Ok ConnackServerUnavailable
      else if b = 137 then Ok ConnackServerBusy
      else if b = 138 then Ok ConnackBanned
      else if b = 140 then Ok ConnackBadAuthenticationMethod
      else if b = 144 then Ok ConnackTopicNameInvalid
      else if b = 149 then Ok ConnackPacketTooLarge
      else if b = 151 then Ok ConnackQuotaExceeded
      else if b = 153 then Ok ConnackPayloadFormatInvalid
      else if b = 154 then Ok ConnackRetainNotSupported
      else if b = 155 then Ok ConnackQoSNotSupported
      else if b = 156 then Ok ConnackUseAnotherServer
      else if b = 157 then Ok ConnackServerMoved
      else if b = 159 then Ok ConnackConnectionRateExceeded
      else Err (BadConnackReason b))"

lemma connack_flags_try_from_inj:
  "connack_flags_try_from x = Ok r \<Longrightarrow> connack_flags_try_from y = Ok r \<Longrightarrow> x = y"
  by (auto simp: connack_flags_try_from_def split: if_splits)

lemma connack_flags_try_from_total [simp]:
  "connack_flags_try_from x \<noteq> Panic" "connack_flags_try_from x \<noteq> Diverge"
  by (simp_all add: connack_flags_try_from_def)

lemma connack_reason_try_from_inj:
  "connack_reason_try_from x = Ok r \<Longrightarrow> connack_reason_try_from y = Ok r \<Longrightarrow> x = y"
  by (auto simp: connack_reason_try_from_def split: if_splits)

lemma connack_reason_try_from_total [simp]:
  "connack_reason_try_from x \<noteq> Panic" "connack_reason_try_from x \<noteq> Diverge"
  by (simp_all add: connack_reason_try_from_def)

section \<open>Properties\<close>

datatype connack_property = ConnackReasonString rstring | ConnackUserProperty rstring rstring

fun connack_property_id :: "connack_property \<Rightarrow> u8" where
  "connack_property_id (ConnackReasonString _) = 0x1F"
| "connack_property_id (ConnackUserProperty _ _) = 0x26"

definition connack_property_to_mqtt :: "connack_property \<Rightarrow> u8 list" where
  "connack_property_to_mqtt p =
     [connack_property_id p] @
     (case p of
        ConnackReasonString s \<Rightarrow> string_to_mqtt s
      | ConnackUserProperty k v \<Rightarrow> string_to_mqtt k @ string_to_mqtt v)"

definition connack_property_from_mqtt :: "u8 list \<Rightarrow> (connack_property \<times> nat) conv" where
  "connack_property_from_mqtt = ack_property_from_mqtt ConnackReasonString ConnackUserProperty"

definition connack_properties_to_mqtt :: "connack_property list \<Rightarrow> u8 list" where
  "connack_properties_to_mqtt = vec_to_mqtt connack_property_to_mqtt"

definition connack_properties_from_mqtt :: "build \<Rightarrow> u8 list \<Rightarrow> (connack_property list \<times> nat) conv" where
  "connack_properties_from_mqtt b = vec_from_mqtt b connack_property_from_mqtt"

fun connack_property_ok :: "connack_property \<Rightarrow> bool" where
  "connack_property_ok (ConnackReasonString s) \<longleftrightarrow> string_ok s"
| "connack_property_ok (ConnackUserProperty k v) \<longleftrightarrow> string_ok k \<and> string_ok v"

interpretation connack_property:
  ack_property ConnackReasonString ConnackUserProperty connack_property_to_mqtt connack_property_ok
proof
  show "connack_property_ok p \<Longrightarrow>
      (\<exists>s. p = ConnackReasonString s \<and> string_ok s) \<or>
      (\<exists>k v. p = ConnackUserProperty k v \<and> string_ok k \<and> string_ok v)" for p
    by (cases p) auto
qed (simp_all add: connack_property_to_mqtt_def)

abbreviation connack_properties_ok :: "connack_property list \<Rightarrow> bool" where
  "connack_properties_ok \<equiv> vec_ok connack_property_to_mqtt connack_property_ok"

interpretation connack_properties:
  mqtt_codec "connack_properties_from_mqtt b" connack_properties_to_mqtt connack_properties_ok for b
  unfolding connack_properties_from_mqtt_def connack_properties_to_mqtt_def connack_property_from_mqtt_def
  by (rule connack_property.codec.vec_codec)

section \<open>The packet\<close>

record connack =
  connack_flags :: connack_flags
  connack_reason :: connack_reason
  connack_properties :: "connack_property list"

definition connack_from_mqtt :: "build \<Rightarrow> u8 list \<Rightarrow> (connack \<times> nat) conv" where
  "connack_from_mqtt b bytes =
     andthen (frame_header b bytes) (\<lambda>(remaining_len, bytes_read).
     andthen (index_at bytes bytes_read) (\<lambda>x.
     andthen (or_other (connack_flags_try_from x)) (\<lambda>flags.
     let bytes_read = bytes_read + 1 in
     andthen (index_at bytes bytes_read) (\<lambda>x.
     andthen (or_other (connack_reason_try_from x)) (\<lambda>reason.
     let bytes_read = bytes_read + 1 in
     andthen (slice_from bytes bytes_read) (\<lambda>r.
     andthen (connack_properties_from_mqtt b r) (\<lambda>(properties, props_bytes_read).
     let bytes_read = bytes_read + props_bytes_read in
     Ok (\<lparr>connack_flags = flags, connack_reason = reason, connack_properties = properties\<rparr>,
         bytes_read))))))))"

lemma connack_from_OkE:
  assumes "connack_from_mqtt b bytes = Ok (p, n)"
  obtains v k x y r ps m where "frame_header b bytes = Ok (v, k)"
    "index_at bytes k = (Ok x :: u8 conv)" "connack_flags_try_from x = Ok (connack_flags p)"
    "index_at bytes (k + 1) = (Ok y :: u8 conv)" "connack_reason_try_from y = Ok (connack_reason p)"
    "slice_from bytes (k + 2) = (Ok r :: u8 list conv)" "connack_properties_from_mqtt b r = Ok (ps, m)"
    "connack_properties p = ps" "n = k + 2 + m"
  using assms by (auto simp: connack_from_mqtt_def andthen_eq_Ok Let_def)

interpretation connack: from_mqtt "connack_from_mqtt b" for b
proof
  fix bs extra p n
  assume ok: "connack_from_mqtt b bs = Ok (p, n)"
  from ok show "0 < n \<and> n \<le> length bs"
  proof (cases rule: connack_from_OkE)
    case (1 v k x y r ps m)
    then show ?thesis
      using frame_header_consumes [OF 1(1)] connack_properties.dec_consumes [OF 1(7)]
      by (auto simp: slice_from_eq_Ok)
  qed
  from ok show "connack_from_mqtt b (bs @ extra) = Ok (p, n)"
  proof (cases rule: connack_from_OkE)
    case (1 v k x y r ps m)
    then show ?thesis
      using index_at_extend [OF 1(2)] index_at_extend [OF 1(4)] slice_from_extend [OF 1(6)]
        frame_header_extend [OF 1(1)] connack_properties.dec_extend [OF 1(7)]
      by (simp add: connack_from_mqtt_def)
  qed
next
  show "connack_from_mqtt b bs \<noteq> Diverge" for bs
    by (auto simp: connack_from_mqtt_def andthen_eq_Diverge frame_header_returns
        connack_properties.dec_returns Let_def)
qed

text \<open>Every well-formed frame is decoded to the values it carries.\<close>

text \<open>C28: a CONNACK with flags, a reason code and encodable properties is decoded field by field,
  and takes exactly the bytes of its frame.\<close>

theorem connack_decode:
  assumes "connack_flags_try_from x = Ok f" "connack_reason_try_from y = Ok r"
    and "connack_properties_ok ps"
    and "buf = [x, y] @ connack_properties_to_mqtt ps" "length buf < 2 ^ 28"
  shows "connack_from_mqtt b (frame t buf @ rest) =
    Ok (\<lparr>connack_flags = f, connack_reason = r, connack_properties = ps\<rparr>, length (frame t buf))"
  using assms(1,2) connack_properties.dec_enc_append [OF assms(3), of b rest]
  unfolding connack_from_mqtt_def frame_header_frame [OF assms(5)]
  by (simp add: assms(4) wire_simps)

theorem connack_decode_witness:
  "connack_from_mqtt Checked (frame 0x20 ([1, 135] @ connack_properties_to_mqtt []) @ [9]) =
    Ok (\<lparr>connack_flags = \<lparr>session_present = True\<rparr>, connack_reason = ConnackNotAuthorized,
      connack_properties = []\<rparr>, 5)"
  using connack_decode [where x = 1 and f = "\<lparr>session_present = True\<rparr>" and y = 135 and r = ConnackNotAuthorized and ps = "[]"
      and buf = "[1, 135] @ connack_properties_to_mqtt []" and b = Checked and t = "0x20" and rest = "[9]"]
  by (simp add: connack_flags_try_from_def connack_reason_try_from_def vec_ok_def header_len_def
      connack_properties_to_mqtt_def vec_to_mqtt_def vbi_to_mqtt_def vbi_bytes.simps)

end
