(* ===== verification/Suback.thy ===== *)
theory Suback
  imports Ack_Properties Frame
begin

text \<open>
  The SUBACK packet of \<^verbatim>\<open>src/protocol/suback.rs\<close>: reason codes, properties and the decoder.
\<close>

section \<open>Reasons\<close>

datatype suback_reason =
    SubackQoS0 | SubackQoS1 | SubackQoS2 | SubackUnspecifiedError
    | SubackImplementationSpecificError | SubackNotAuthorized | SubackTopicFilterInvalid
    | SubackPacketIdentifierInUse | SubackQuotaExceeded | SubackSharedSubsNotSupported
    | SubackSubIdsNotSupported | SubackWildcardSubsNotSupported

definition suback_reason_try_from :: "u8 \<Rightarrow> (suback_reason, message) outcome" where
  "suback_reason_try_from b =
     (if b = 0 then Ok SubackQoS0
      else if b = 1 then Ok SubackQoS1
      else if b = 2 then Ok SubackQoS2
      else if b = 128 then Ok SubackUnspecifiedError
      else if b = 131 then Ok SubackImplementationSpecificError
      else if b = 135 then Ok SubackNotAuthorized
      else if b = 143 then Ok SubackTopicFilterInvalid
      else if b = 145 then Ok SubackPacketIdentifierInUse
      else if b = 151 then Ok SubackQuotaExceeded
      else if b = 158 then Ok SubackSharedSubsNotSupported
      else if b = 161 then Ok SubackSubIdsNotSupported
      else if b = 162 then Ok SubackWildcardSubsNotSupported
      else Err (BadSubackReason b))"

lemma suback_reason_try_from_inj:
  "suback_reason_try_from x = Ok r \<Longrightarrow> suback_reason_try_from y = Ok r \<Longrightarrow> x = y"
  by (auto simp: suback_reason_try_from_def split: if_splits)

lemma suback_reason_try_from_total [simp]:
  "suback_reason_try_from x \<noteq> Panic" "suback_reason_try_from x \<noteq> Diverge"
  by (simp_all add: suback_reason_try_from_def)

section \<open>Properties\<close>

datatype suback_property = SubackReasonString rstring | SubackUserProperty rstring rstring

fun suback_property_id :: "suback_property \<Rightarrow> u8" where
  "suback_property_id (SubackReasonString _) = 0x1F"
| "suback_property_id (SubackUserProperty _ _) = 0x26"

definition suback_property_to_mqtt :: "suback_property \<Rightarrow> u8 list" where
  "suback_property_to_mqtt p =
     [suback_property_id p] @
     (case p of
        SubackReasonString s \<Rightarrow> string_to_mqtt s
      | SubackUserProperty k v \<Rightarrow> string_to_mqtt k @ string_to_mqtt v)"

definition suback_property_from_mqtt :: "u8 list \<Rightarrow> (suback_property \<times> nat) conv" where
  "suback_property_from_mqtt = ack_property_from_mqtt SubackReasonString SubackUserProperty"

definition suback_properties_to_mqtt :: "suback_property list \<Rightarrow> u8 list" where
  "suback_properties_to_mqtt = vec_to_mqtt suback_property_to_mqtt"

definition suback_properties_from_mqtt :: "build \<Rightarrow> u8 list \<Rightarrow> (suback_property list \<times> nat) conv" where
  "suback_properties_from_mqtt b = vec_from_mqtt b suback_property_from_mqtt"

fun suback_property_ok :: "suback_property \<Rightarrow> bool" where
  "suback_property_ok (SubackReasonString s) \<longleftrightarrow> string_ok s"
| "suback_property_ok (SubackUserProperty k v) \<longleftrightarrow> string_ok k \<and> string_ok v"

interpretation suback_property:
  ack_property SubackReasonString SubackUserProperty suback_property_to_mqtt suback_property_ok
proof
  show "suback_property_ok p \<Longrightarrow>
      (\<exists>s. p = SubackReasonString s \<and> string_ok s) \<or>
      (\<exists>k v. p = SubackUserProperty k v \<and> string_ok k \<and> string_ok v)" for p
    by (cases p) auto
qed (simp_all add: suback_property_to_mqtt_def)

abbreviation suback_properties_ok :: "suback_property list \<Rightarrow> bool" where
  "suback_properties_ok \<equiv> vec_ok suback_property_to_mqtt suback_property_ok"

interpretation suback_properties:
  mqtt_codec "suback_properties_from_mqtt b" suback_properties_to_mqtt suback_properties_ok for b
  unfolding suback_properties_from_mqtt_def suback_properties_to_mqtt_def suback_property_from_mqtt_def
  by (rule suback_property.codec.vec_codec)

section \<open>The packet\<close>

record suback =
  suback_properties :: "suback_property list"
  suback_pktid :: pktid
  suback_reason :: suback_reason

definition suback_from_mqtt :: "build \<Rightarrow> u8 list \<Rightarrow> (suback \<times> nat) conv" where
  "suback_from_mqtt b bytes =
     andthen (frame_header b bytes) (\<lambda>(remaining_len, bytes_read).
     andthen (slice_from bytes bytes_read) (\<lambda>r.
     andthen (pktid_from_mqtt r) (\<lambda>(pktid, pktid_bytes_read).
     let bytes_read = bytes_read + pktid_bytes_read in
     andthen (slice_from bytes bytes_read) (\<lambda>r.
     andthen (suback_properties_from_mqtt b r) (\<lambda>(properties, props_bytes_read).
     let bytes_read = bytes_read + props_bytes_read in
     andthen (index_at bytes bytes_read) (\<lambda>x.
     andthen (or_other (suback_reason_try_from x)) (\<lambda>reason.
     let bytes_read = bytes_read + 1 in
     Ok (\<lparr>suback_properties = properties, suback_pktid = pktid, suback_reason = reason\<rparr>,
         bytes_read))))))))"

lemma suback_from_OkE:
  assumes "suback_from_mqtt b bytes = Ok (p, n)"
  obtains v k r k' r' m x where "frame_header b bytes = Ok (v, k)"
    "slice_from bytes k = (Ok r :: u8 list conv)" "pktid_from_mqtt r = Ok (suback_pktid p, k')"
    "slice_from bytes (k + k') = (Ok r' :: u8 list conv)"
    "suback_properties_from_mqtt b r' = Ok (suback_properties p, m)"
    "index_at bytes (k + k' + m) = (Ok x :: u8 conv)"
    "suback_reason_try_from x = Ok (suback_reason p)" "n = k + k' + m + 1"
  using assms by (auto simp: suback_from_mqtt_def andthen_eq_Ok Let_def)

interpretation suback: from_mqtt "suback_from_mqtt b" for b
proof
  fix bs extra p n
  assume ok: "suback_from_mqtt b bs = Ok (p, n)"
  from ok show "0 < n \<and> n \<le> length bs"
    by (cases rule: suback_from_OkE) (auto simp: index_at_eq_Ok)
  from ok show "suback_from_mqtt b (bs @ extra) = Ok (p, n)"
  proof (cases rule: suback_from_OkE)
    case (1 v k r k' r' m x)
    then show ?thesis
      using frame_header_extend [OF 1(1)] slice_from_extend [OF 1(2)] pktid_codec.dec_extend [OF 1(3)]
        slice_from_extend [OF 1(4)] suback_properties.dec_extend [OF 1(5)] index_at_extend [OF 1(6)]
      by (simp add: suback_from_mqtt_def)
  qed
next
  show "suback_from_mqtt b bs \<noteq> Diverge" for bs
    by (auto simp: suback_from_mqtt_def andthen_eq_Diverge frame_header_returns
        pktid_from_total suback_properties.dec_returns Let_def)
qed

text \<open>A frame that ends behind its properties, without a reason code, is indexed out of range.\<close>

lemma suback_truncated_panics:
  assumes "pid \<noteq> 0" "suback_properties_ok ps"
    and "buf = pktid_to_mqtt pid @ suback_properties_to_mqtt ps" "length buf < 2 ^ 28"
  shows "suback_from_mqtt b (frame t buf) = Panic"
  using suback_properties.dec_enc [OF assms(2), of b] pktid_codec.dec_enc_append [OF assms(1)]
  unfolding suback_from_mqtt_def frame_header_frame_only [OF assms(4)]
  by (simp add: assms(3) wire_simps index_at_def add.assoc)

text \<open>Every well-formed frame is decoded to the values it carries.\<close>

text \<open>C29: a SUBACK is decoded to its identifier, its properties and the reason code behind
  them; only the first of several reason codes is read.\<close>

theorem suback_decode:
  assumes "pid \<noteq> 0" "suback_reason_try_from x = Ok r" "suback_properties_ok ps"
    and "buf = pktid_to_mqtt pid @ suback_properties_to_mqtt ps @ x # xs" "length buf < 2 ^ 28"
  shows "suback_from_mqtt b (frame t buf @ rest) =
    Ok (\<lparr>suback_properties = ps, suback_pktid = pid, suback_reason = r\<rparr>,
      length (frame t buf) - length xs)"
  using assms(1,2) suback_properties.dec_enc_append [OF assms(3), of b "x # xs @ rest"]
    pktid_codec.dec_enc_append [OF assms(1)]
  unfolding suback_from_mqtt_def frame_header_frame [OF assms(5)]
  by (simp add: assms(4) wire_simps)

theorem suback_decode_witness:
  "suback_from_mqtt Checked (frame 0x90 (pktid_to_mqtt 7 @ suback_properties_to_mqtt [] @ [1]) @ [9]) =
    Ok (\<lparr>suback_properties = [], suback_pktid = 7, suback_reason = SubackQoS1\<rparr>, 6)"
  using suback_decode [where pid = 7 and x = 1 and r = SubackQoS1 and ps = "[]"
      and buf = "pktid_to_mqtt 7 @ suback_properties_to_mqtt [] @ [1]" and xs = "[]" and b = Checked and t = "0x90" and rest = "[9]"]
  by (simp add: suback_reason_try_from_def vec_ok_def header_len_def pktid_to_mqtt_def
      suback_properties_to_mqtt_def vec_to_mqtt_def vbi_to_mqtt_def vbi_bytes.simps)

end
