(* ===== verification/Unsuback.thy ===== *)
theory Unsuback
  imports Ack_Properties Frame
begin

text \<open>
  The UNSUBACK packet of \<^verbatim>\<open>src/protocol/unsuback.rs\<close>: reason codes, properties and the decoder.
\<close>

section \<open>Reasons\<close>

datatype unsuback_reason =
    UnsubackSuccess | UnsubackNoSubscriptionExisted | UnsubackUnspecifiedError
    | UnsubackImplementationSpecificError | UnsubackNotAuthorized
    | UnsubackTopicFilterInvalid | UnsubackPacketIdentifierInUse

definition unsuback_reason_try_from :: "u8 \<Rightarrow> (unsuback_reason, message) outcome" where
  "unsuback_reason_try_from b =
     (if b = 0 then Ok UnsubackSuccess
      else if b = 17 then Ok UnsubackNoSubscriptionExisted
      else if b = 128 then Ok UnsubackUnspecifiedError
      else if b = 131 then Ok UnsubackImplementationSpecificError
      else if b = 135 then Ok UnsubackNotAuthorized
      else if b = 143 then Ok UnsubackTopicFilterInvalid
      else if b = 145 then Ok UnsubackPacketIdentifierInUse
      else Err (BadSubackReason b))"

lemma unsuback_reason_try_from_inj:
  "unsuback_reason_try_from x = Ok r \<Longrightarrow> unsuback_reason_try_from y = Ok r \<Longrightarrow> x = y"
  by (auto simp: unsuback_reason_try_from_def split: if_splits)

lemma unsuback_reason_try_from_total [simp]:
  "unsuback_reason_try_from x \<noteq> Panic" "unsuback_reason_try_from x \<noteq> Diverge"
  by (simp_all add: unsuback_reason_try_from_def)

section \<open>Properties\<close>

datatype unsuback_property = UnsubackReasonString rstring | UnsubackUserProperty rstring rstring

fun unsuback_property_id :: "unsuback_property \<Rightarrow> u8" where
  "unsuback_property_id (UnsubackReasonString _) = 0x1F"
| "unsuback_property_id (UnsubackUserProperty _ _) = 0x26"

definition unsuback_property_to_mqtt :: "unsuback_property \<Rightarrow> u8 list" where
  "unsuback_property_to_mqtt p =
     [unsuback_property_id p] @
     (case p of
        UnsubackReasonString s \<Rightarrow> string_to_mqtt s
      | UnsubackUserProperty k v \<Rightarrow> string_to_mqtt k @ string_to_mqtt v)"

definition unsuback_property_from_mqtt :: "u8 list \<Rightarrow> (unsuback_property \<times> nat) conv" where
  "unsuback_property_from_mqtt = ack_property_from_mqtt UnsubackReasonString UnsubackUserProperty"

definition unsuback_properties_to_mqtt :: "unsuback_property list \<Rightarrow> u8 list" where
  "unsuback_properties_to_mqtt = vec_to_mqtt unsuback_property_to_mqtt"

definition unsuback_properties_from_mqtt :: "build \<Rightarrow> u8 list \<Rightarrow> (unsuback_property list \<times> nat) conv" where
  "unsuback_properties_from_mqtt b = vec_from_mqtt b unsuback_property_from_mqtt"

fun unsuback_property_ok :: "unsuback_property \<Rightarrow> bool" where
  "unsuback_property_ok (UnsubackReasonString s) \<longleftrightarrow> string_ok s"
| "unsuback_property_ok (UnsubackUserProperty k v) \<longleftrightarrow> string_ok k \<and> string_ok v"

interpretation unsuback_property:
  ack_property UnsubackReasonString UnsubackUserProperty unsuback_property_to_mqtt unsuback_property_ok
proof
  show "unsuback_property_ok p \<Longrightarrow>
      (\<exists>s. p = UnsubackReasonString s \<and> string_ok s) \<or>
      (\<exists>k v. p = UnsubackUserProperty k v \<and> string_ok k \<and> string_ok v)" for p
    by (cases p) auto
qed (simp_all add: unsuback_property_to_mqtt_def)

abbreviation unsuback_properties_ok :: "unsuback_property list \<Rightarrow> bool" where
  "unsuback_properties_ok \<equiv> vec_ok unsuback_property_to_mqtt unsuback_property_ok"

interpretation unsuback_properties:
  mqtt_codec "unsuback_properties_from_mqtt b" unsuback_properties_to_mqtt unsuback_properties_ok for b
  unfolding unsuback_properties_from_mqtt_def unsuback_properties_to_mqtt_def unsuback_property_from_mqtt_def
  by (rule unsuback_property.codec.vec_codec)

section \<open>The packet\<close>

record unsuback =
  unsuback_properties :: "unsuback_property list"
  unsuback_pktid :: pktid
  unsuback_reason :: unsuback_reason

definition unsuback_from_mqtt :: "build \<Rightarrow> u8 list \<Rightarrow> (unsuback \<times> nat) conv" where
  "unsuback_from_mqtt b bytes =
     andthen (frame_header b bytes) (\<lambda>(remaining_len, bytes_read).
     andthen (slice_from bytes bytes_read) (\<lambda>r.
     andthen (pktid_from_mqtt r) (\<lambda>(pktid, pktid_bytes_read).
     let bytes_read = bytes_read + pktid_bytes_read in
     andthen (slice_from bytes bytes_read) (\<lambda>r.
     andthen (unsuback_properties_from_mqtt b r) (\<lambda>(properties, props_bytes_read).
     let bytes_read = bytes_read + props_bytes_read in
     andthen (index_at bytes bytes_read) (\<lambda>x.
     andthen (or_other (unsuback_reason_try_from x)) (\<lambda>reason.
     let bytes_read = bytes_read + 1 in
     Ok (\<lparr>unsuback_properties = properties, unsuback_pktid = pktid, unsuback_reason = reason\<rparr>,
         bytes_read))))))))"

lemma unsuback_from_OkE:
  assumes "unsuback_from_mqtt b bytes = Ok (p, n)"
  obtains v k r k' r' m x where "frame_header b bytes = Ok (v, k)"
    "slice_from bytes k = (Ok r :: u8 list conv)" "pktid_from_mqtt r = Ok (unsuback_pktid p, k')"
    "slice_from bytes (k + k') = (Ok r' :: u8 list conv)"
    "unsuback_properties_from_mqtt b r' = Ok (unsuback_properties p, m)"
    "index_at bytes (k + k' + m) = (Ok x :: u8 conv)"
    "unsuback_reason_try_from x = Ok (unsuback_reason p)" "n = k + k' + m + 1"
  using assms by (auto simp: unsuback_from_mqtt_def andthen_eq_Ok Let_def)

interpretation unsuback: from_mqtt "unsuback_from_mqtt b" for b
proof
  fix bs extra p n
  assume ok: "unsuback_from_mqtt b bs = Ok (p, n)"
  from ok show "0 < n \<and> n \<le> length bs"
    by (cases rule: unsuback_from_OkE) (auto simp: index_at_eq_Ok)
  from ok show "unsuback_from_mqtt b (bs @ extra) = Ok (p, n)"
  proof (cases rule: unsuback_from_OkE)
    case (1 v k r k' r' m x)
    then show ?thesis
      using frame_header_extend [OF 1(1)] slice_from_extend [OF 1(2)] pktid_codec.dec_extend [OF 1(3)]
        slice_from_extend [OF 1(4)] unsuback_properties.dec_extend [OF 1(5)] index_at_extend [OF 1(6)]
      by (simp add: unsuback_from_mqtt_def)
  qed
next
  show "unsuback_from_mqtt b bs \<noteq> Diverge" for bs
    by (auto simp: unsuback_from_mqtt_def andthen_eq_Diverge frame_header_returns
        pktid_from_total unsuback_properties.dec_returns Let_def)
qed

text \<open>A frame that ends behind its properties, without a reason code, is indexed out of range.\<close>

lemma unsuback_truncated_panics:
  assumes "pid \<noteq> 0" "unsuback_properties_ok ps"
    and "buf = pktid_to_mqtt pid @ unsuback_properties_to_mqtt ps" "length buf < 2 ^ 28"
  shows "unsuback_from_mqtt b (frame t buf) = Panic"
  using unsuback_properties.dec_enc [OF assms(2), of b] pktid_codec.dec_enc_append [OF assms(1)]
  unfolding unsuback_from_mqtt_def frame_header_frame_only [OF assms(4)]
  by (simp add: assms(3) wire_simps index_at_def add.assoc)

text \<open>Every well-formed frame is decoded to the values it carries.\<close>

text \<open>C30: an UNSUBACK is decoded to its identifier, its properties and the reason code behind
  them; only the first of several reason codes is read.\<close>

theorem unsuback_decode:
  assumes "pid \<noteq> 0" "unsuback_reason_try_from x = Ok r" "unsuback_properties_ok ps"
    and "buf = pktid_to_mqtt pid @ unsuback_properties_to_mqtt ps @ x # xs" "length buf < 2 ^ 28"
  shows "unsuback_from_mqtt b (frame t buf @ rest) =
    Ok (\<lparr>unsuback_properties = ps, unsuback_pktid = pid, unsuback_reason = r\<rparr>,
      length (frame t buf) - length xs)"
  using assms(1,2) unsuback_properties.dec_enc_append [OF assms(3), of b "x # xs @ rest"]
    pktid_codec.dec_enc_append [OF assms(1)]
  unfolding unsuback_from_mqtt_def frame_header_frame [OF assms(5)]
  by (simp add: assms(4) wire_simps)

theorem unsuback_decode_witness:
  "unsuback_from_mqtt Checked (frame 0xB0 (pktid_to_mqtt 7 @ unsuback_properties_to_mqtt [] @ [17]) @ [9]) =
    Ok (\<lparr>unsuback_properties = [], unsuback_pktid = 7, unsuback_reason = UnsubackNoSubscriptionExisted\<rparr>, 6)"
  using unsuback_decode [where pid = 7 and x = 17 and r = UnsubackNoSubscriptionExisted and ps = "[]"
      and buf = "pktid_to_mqtt 7 @ unsuback_properties_to_mqtt [] @ [17]" and xs = "[]" and b = Checked and t = "0xB0" and rest = "[9]"]
  by (simp add: unsuback_reason_try_from_def vec_ok_def header_len_def pktid_to_mqtt_def
      unsuback_properties_to_mqtt_def vec_to_mqtt_def vbi_to_mqtt_def vbi_bytes.simps)

end
