(* ===== verification/Puback.thy ===== *)
theory Puback
  imports Frame
begin

text \<open>
  The PUBACK packet of \<^verbatim>\<open>src/protocol/puback.rs\<close>: reason codes, its own property record
  with its own loop, the encoder and the decoder.
\<close>

section \<open>Reasons\<close>

datatype puback_reason =
    PubackSuccess | PubackNoMatchingSubscibers | PubackUnspecifiedError
    | PubackImplementationSpecificError | PubackNotAuthorized | PubackTopicNameInvalid
    | PubackPacketIdentifierInUse | PubackQuotaExceeded | PubackPayloadFormatInvalid

definition puback_reason_try_from :: "u8 \<Rightarrow> (puback_reason, message) outcome" where
  "puback_reason_try_from b =
     (if b = 0 then Ok PubackSuccess
      else if b = 16 then Ok PubackNoMatchingSubscibers
      else if b = 128 then Ok PubackUnspecifiedError
      else if b = 131 then Ok PubackImplementationSpecificError
      else if b = 135 then Ok PubackNotAuthorized
      else if b = 144 then Ok PubackTopicNameInvalid
      else if b = 145 then Ok PubackPacketIdentifierInUse
      else if b = 151 then Ok PubackQuotaExceeded
      else if b = 153 then Ok PubackPayloadFormatInvalid
      else Err (BadPubackReason b))"

fun puback_reason_to_u8 :: "puback_reason \<Rightarrow> u8" where
  "puback_reason_to_u8 PubackSuccess = 0"
| "puback_reason_to_u8 PubackNoMatchingSubscibers = 16"
| "puback_reason_to_u8 PubackUnspecifiedError = 128"
| "puback_reason_to_u8 PubackImplementationSpecificError = 131"
| "puback_reason_to_u8 PubackNotAuthorized = 135"
| "puback_reason_to_u8 PubackTopicNameInvalid = 144"
| "puback_reason_to_u8 PubackPacketIdentifierInUse = 145"
| "puback_reason_to_u8 PubackQuotaExceeded = 151"
| "puback_reason_to_u8 PubackPayloadFormatInvalid = 153"

lemma puback_reason_roundtrip [simp]: "puback_reason_try_from (puback_reason_to_u8 r) = Ok r"
  by (cases r) (simp_all add: puback_reason_try_from_def)

lemma puback_reason_try_from_eq_Ok: "puback_reason_try_from c = Ok r \<longleftrightarrow> c = puback_reason_to_u8 r"
proof
  show "puback_reason_try_from c = Ok r \<Longrightarrow> c = puback_reason_to_u8 r"
    by (auto simp: puback_reason_try_from_def split: if_splits)
qed simp

lemma puback_reason_try_from_total [simp]:
  "puback_reason_try_from x \<noteq> Panic" "puback_reason_try_from x \<noteq> Diverge"
  by (simp_all add: puback_reason_try_from_def)

section \<open>Properties\<close>

record puback_properties =
  reason_string :: "rstring option"
  user_properties :: "(rstring \<times> rstring) list"

definition puback_properties_default :: puback_properties where
  "puback_properties_default = \<lparr>reason_string = None, user_properties = []\<rparr>"

text \<open>The encoder writes no length, and one identifier for all user properties.\<close>

definition puback_properties_to_mqtt :: "puback_properties \<Rightarrow> u8 list" where
  "puback_properties_to_mqtt p =
     (case reason_string p of Some s \<Rightarrow> [0x1F] @ string_to_mqtt s | None \<Rightarrow> []) @
     (if 0 < length (user_properties p) then [0x26] else []) @
     concat (map (\<lambda>(k, v). string_to_mqtt k @ string_to_mqtt v) (user_properties p))"

text \<open>The \<^verbatim>\<open>match\<close> of the loop: the bytes it read and the properties so far.\<close>

definition puback_property_step ::
  "u8 list \<Rightarrow> puback_properties \<Rightarrow> (nat \<times> puback_properties) conv" where
  "puback_property_step sl properties =
     (case get_at sl 0 of
        Some k \<Rightarrow>
          if k = 0x1F then
            andthen (slice_from sl 1) (\<lambda>r.
            andthen (string_from_mqtt r) (\<lambda>(s, property_bytes_read).
            Ok (property_bytes_read + 1, properties\<lparr>reason_string := Some s\<rparr>)))
          else if k = 0x26 then
            andthen (slice_from sl 1) (\<lambda>r.
            andthen (string_from_mqtt r) (\<lambda>(key, pbr1).
            andthen (slice_from sl (pbr1 + 1)) (\<lambda>r.
            andthen (string_from_mqtt r) (\<lambda>(v, pbr2).
            Ok (pbr1 + pbr2 + 1,
                properties\<lparr>user_properties := user_properties properties @ [(key, v)]\<rparr>)))))
          else Err (Other (PropertyNotImplemented k))
      | None \<Rightarrow> Err NotEnoughBytes)"

function puback_loop :: "u8 list option \<Rightarrow> puback_properties \<Rightarrow> puback_properties conv" where
  "puback_loop bytes properties =
     (case bytes of
        None \<Rightarrow> Ok properties
      | Some sl \<Rightarrow>
          andthen (puback_property_step sl properties) (\<lambda>(bytes_read, properties).
          puback_loop (get_from sl (bytes_read + 1)) properties))"
  by pat_completeness auto
termination
  by (relation "measure (\<lambda>(bytes, ps). case bytes of None \<Rightarrow> 0 | Some sl \<Rightarrow> Suc (length sl))")
    (auto simp: get_from_def)

declare puback_loop.simps [simp del]

definition puback_properties_from_mqtt :: "build \<Rightarrow> u8 list \<Rightarrow> (puback_properties \<times> nat) conv" where
  "puback_properties_from_mqtt b bytes =
     andthen (vbi_from_mqtt b bytes) (\<lambda>(bytelen, bytes_consumed).
     if vbi_eq bytelen 0 then Ok (puback_properties_default, bytes_consumed)
     else
       let bytes' = get_range bytes bytes_consumed (vbi_plus bytelen bytes_consumed) in
       andthen (puback_loop bytes' puback_properties_default) (\<lambda>properties.
       Ok (properties, vbi_plus bytelen bytes_consumed)))"

section \<open>The packet\<close>

record puback =
  puback_properties :: puback_properties
  puback_pktid :: pktid
  puback_reason :: puback_reason

definition puback_new :: "pktid \<Rightarrow> puback" where
  "puback_new pktid =
     \<lparr>puback_properties = puback_properties_default, puback_pktid = pktid,
      puback_reason = PubackSuccess\<rparr>"

definition puback_to_mqtt :: "puback \<Rightarrow> u8 list" where
  "puback_to_mqtt p =
     frame 0b01000000
       (u16_to_be_bytes (puback_pktid p) @ [puback_reason_to_u8 (puback_reason p)] @
        puback_properties_to_mqtt (puback_properties p))"

definition puback_from_mqtt :: "build \<Rightarrow> u8 list \<Rightarrow> (puback \<times> nat) conv" where
  "puback_from_mqtt b bytes =
     andthen (frame_header b bytes) (\<lambda>(remaining_len, bytes_read).
     andthen (slice_from bytes bytes_read) (\<lambda>r.
     andthen (pktid_from_mqtt r) (\<lambda>(pktid, pktid_bytes_read).
     let bytes_read = bytes_read + pktid_bytes_read in
     andthen
       (if vbi_eq remaining_len 2 then
          andthen (or_other (puback_reason_try_from 0)) (\<lambda>reason. Ok (reason, bytes_read))
        else
          andthen (index_at bytes bytes_read) (\<lambda>x.
          andthen (or_other (puback_reason_try_from x)) (\<lambda>reason.
          Ok (reason, bytes_read + 1)))) (\<lambda>(reason, bytes_read).
     andthen
       (if vbi_less remaining_len 4 then Ok (puback_properties_default, bytes_read)
        else
          andthen (slice_from bytes bytes_read) (\<lambda>r.
          andthen (puback_properties_from_mqtt b r) (\<lambda>(properties, props_bytes_read).
          Ok (properties, bytes_read + props_bytes_read)))) (\<lambda>(properties, bytes_read).
     Ok (\<lparr>puback_properties = properties, puback_pktid = pktid, puback_reason = reason\<rparr>,
         bytes_read))))))"

section \<open>What the decoder accepts\<close>

lemma puback_loop_None [simp]: "puback_loop None ps = Ok ps"
  by (simp add: puback_loop.simps)

lemma puback_property_step_values [simp]:
  "string_ok s \<Longrightarrow> puback_property_step (0x1F # string_to_mqtt s @ r) ps =
     Ok (length s + 3, ps\<lparr>reason_string := Some s\<rparr>)"
  "string_ok k \<Longrightarrow> string_ok v \<Longrightarrow>
     puback_property_step (0x26 # string_to_mqtt k @ string_to_mqtt v @ r) ps =
       Ok (length k + length v + 5, ps\<lparr>user_properties := user_properties ps @ [(k, v)]\<rparr>)"
  using string_codec.dec_enc_append
  by (simp_all add: puback_property_step_def wire_simps)

lemma puback_property_step_returns: "puback_property_step sl ps \<noteq> Diverge"
  by (cases sl)
    (auto simp: puback_property_step_def wire_simps andthen_eq_Diverge string_from_total)

lemma puback_loop_returns: "puback_loop bytes ps \<noteq> Diverge"
proof (induction bytes ps rule: puback_loop.induct)
  case (1 bytes ps)
  then show ?case
    by (subst puback_loop.simps)
      (auto simp: andthen_eq_Diverge puback_property_step_returns split: option.splits)
qed

lemma puback_from_returns: "puback_from_mqtt b bytes \<noteq> Diverge"
  by (auto simp: puback_from_mqtt_def puback_properties_from_mqtt_def andthen_eq_Diverge
      frame_header_returns pktid_from_total vbi_codec.dec_returns puback_loop_returns Let_def
      split: if_splits)

lemma puback_properties_framed:
  assumes "length buf < 2 ^ 28" "buf \<noteq> []"
  shows "puback_properties_from_mqtt b (vbi_to_mqtt (VBI (word_of_nat (length buf))) @ buf @ rest) =
    andthen (puback_loop (Some buf) puback_properties_default) (\<lambda>ps.
      Ok (ps, length (vbi_to_mqtt (VBI (word_of_nat (length buf)))) + length buf))"
  using vec_length_prefix [OF assms(1)] assms(2)
  by (simp add: puback_properties_from_mqtt_def vbi_eq_def vbi_plus_def get_range_def)

text \<open>One property fills the list exactly, so the extra byte the loop skips is past the end.\<close>

lemma puback_loop_one:
  assumes "puback_property_step sl ps = Ok (length sl, ps')"
  shows "puback_loop (Some sl) ps = Ok ps'"
  using assms by (subst puback_loop.simps) (simp add: get_from_def)

text \<open>With two, the skipped byte is the identifier of the second.\<close>

lemma puback_loop_two_user:
  assumes "string_ok k" "string_ok v" "length k' < 256"
  shows "puback_loop (Some ((0x26 # string_to_mqtt k @ string_to_mqtt v) @
      0x26 # string_to_mqtt k' @ string_to_mqtt v')) ps =
    Err (Other (PropertyNotImplemented 0))"
proof -
  let ?tl = "0x26 # string_to_mqtt k' @ string_to_mqtt v'"
  have "drop_bit 8 (word_of_nat (length k') :: u16) = 0"
  proof -
    have "unat (drop_bit 8 (word_of_nat (length k') :: u16)) = 0"
      using assms(3) by (simp add: unat_drop_bit_eq drop_bit_nat_def unat_of_nat)
    then show ?thesis by (simp only: unat_eq_zero)
  qed
  then have hi: "\<exists>r. string_to_mqtt k' @ string_to_mqtt v' = 0 # r"
    by (simp add: string_to_mqtt_def u16_to_be_bytes_def)
  then obtain r where r: "string_to_mqtt k' @ string_to_mqtt v' = 0 # r" ..
  have "get_from ((0x26 # string_to_mqtt k @ string_to_mqtt v) @ ?tl) (length k + length v + 5 + 1)
      = Some (0 # r)"
    by (simp add: get_from_def r drop_Cons')
  moreover have "puback_property_step (0 # r) qs = Err (Other (PropertyNotImplemented 0))" for qs
    by (simp add: puback_property_step_def wire_simps)
  ultimately show ?thesis
    using assms by (subst puback_loop.simps) (simp add: puback_loop.simps [of "Some (0 # r)"])
qed

text \<open>The short forms: an identifier alone means success; an identifier and a reason.\<close>

lemma puback_from_short:
  assumes "pid \<noteq> 0"
  shows "puback_from_mqtt b (frame t (u16_to_be_bytes pid) @ rest) = Ok (puback_new pid, 4)"
proof -
  have "pktid_from_mqtt (u16_to_be_bytes pid @ rest) = Ok (pid, 2)"
    using pktid_codec.dec_enc_append [OF assms, of rest] by (simp add: pktid_to_mqtt_def)
  then show ?thesis
    using frame_header_frame [of "u16_to_be_bytes pid" b t rest]
    by (simp add: puback_from_mqtt_def puback_new_def vbi_eq_def vbi_less_def wire_simps
        header_len_def vbi_to_mqtt_def vbi_bytes.simps puback_reason_try_from_def)
qed

lemma puback_from_reason:
  assumes "pid \<noteq> 0"
  shows "puback_from_mqtt b (frame t (u16_to_be_bytes pid @ [puback_reason_to_u8 r]) @ rest) =
    Ok ((puback_new pid)\<lparr>puback_reason := r\<rparr>, 5)"
proof -
  let ?buf = "u16_to_be_bytes pid @ [puback_reason_to_u8 r]"
  have "pktid_from_mqtt (?buf @ rest) = Ok (pid, 2)"
    using pktid_codec.dec_enc_append [OF assms] by (simp add: pktid_to_mqtt_def)
  then show ?thesis
    using frame_header_frame [of ?buf b t rest]
    by (simp add: puback_from_mqtt_def puback_new_def vbi_eq_def vbi_less_def wire_simps
        header_len_def vbi_to_mqtt_def vbi_bytes.simps)
qed

section \<open>Theorems\<close>

text \<open>C36: a PUBACK that carries only an identifier is a success, and one with an
  identifier and a reason code is that reason; both take exactly the bytes of their frame.\<close>

theorem puback_short_forms:
  assumes "pid \<noteq> 0"
  shows "puback_from_mqtt b (frame t (u16_to_be_bytes pid) @ rest) = Ok (puback_new pid, 4) \<and>
    puback_from_mqtt b (frame t (u16_to_be_bytes pid @ [puback_reason_to_u8 r]) @ rest) =
      Ok ((puback_new pid)\<lparr>puback_reason := r\<rparr>, 5)"
  by (intro conjI puback_from_short puback_from_reason assms)

theorem puback_short_forms_witness:
  "puback_from_mqtt Checked [0x40, 3, 0, 7, 151] =
    Ok ((puback_new 7)\<lparr>puback_reason := PubackQuotaExceeded\<rparr>, 5)"
  using puback_short_forms [of 7 Checked "0x40" "[]" PubackQuotaExceeded]
  by (simp add: frame_def u16_to_be_bytes_def vbi_to_mqtt_def vbi_bytes.simps)

text \<open>C39: a PUBACK with two user properties, the second key shorter than 256
  bytes, is refused, although the protocol allows any number of them: the loop skips the
  identifier of the second one and takes the high byte of a length, zero, for it.\<close>

theorem puback_two_properties_rejected:
  assumes "pid \<noteq> 0" "string_ok k" "string_ok v" "length k' < 256"
    and "props = (0x26 # string_to_mqtt k @ string_to_mqtt v) @
      0x26 # string_to_mqtt k' @ string_to_mqtt v'"
    and "buf = u16_to_be_bytes pid @ [puback_reason_to_u8 r] @
      vbi_to_mqtt (VBI (word_of_nat (length props))) @ props" "length buf < 2 ^ 28"
  shows "puback_from_mqtt b (frame t buf @ rest) = Err (Other (PropertyNotImplemented 0))"
proof -
  have len: "length props < 2 ^ 28" "props \<noteq> []" using assms(5-7) by simp_all
  have "pktid_from_mqtt (buf @ rest) = Ok (pid, 2)"
    using pktid_codec.dec_enc_append [OF assms(1)] by (simp add: pktid_to_mqtt_def assms(6))
  moreover have "puback_properties_from_mqtt b
      (vbi_to_mqtt (VBI (word_of_nat (length props))) @ props @ rest) =
      Err (Other (PropertyNotImplemented 0))"
    unfolding puback_properties_framed [OF len] unfolding assms(5)
    by (simp add: puback_loop_two_user [OF assms(2-4), simplified])
  moreover have "unat (word_of_nat (length buf) :: u32) = length buf" "9 \<le> length buf"
    using vec_length_prefix(2) [OF assms(7)] by (simp_all add: assms(5,6))
  then have "\<not> vbi_eq (VBI (word_of_nat (length buf))) 2" "\<not> vbi_less (VBI (word_of_nat (length buf))) 4"
    by (auto simp: vbi_eq_def vbi_less_def word_less_nat_alt word_unat_eq_iff)
  ultimately show ?thesis
    using frame_header_frame [OF assms(7), of b t rest]
    by (simp add: puback_from_mqtt_def assms(6) wire_simps)
qed

theorem puback_two_properties_rejected_witness:
  "\<exists>buf. puback_from_mqtt Checked (frame 0x40 buf @ []) = Err (Other (PropertyNotImplemented 0))"
proof
  let ?p = "0x26 # string_to_mqtt (str_lit ''a'') @ string_to_mqtt (str_lit ''b'')"
  let ?props = "?p @ ?p"
  let ?buf = "u16_to_be_bytes 7 @ [puback_reason_to_u8 PubackSuccess] @
    vbi_to_mqtt (VBI (word_of_nat (length ?props))) @ ?props"
  have ok: "string_ok (str_lit ''a'')" "string_ok (str_lit ''b'')" "length (str_lit ''a'') < 256"
    by (simp_all add: string_ok_def str_lit_def in_range_def)
  have buf: "length ?buf < 2 ^ 28"
    by (simp add: str_lit_def vbi_to_mqtt_def vbi_bytes.simps [of 14])
  show "puback_from_mqtt Checked (frame 0x40 ?buf @ []) = Err (Other (PropertyNotImplemented 0))"
    by (rule puback_two_properties_rejected [OF _ ok refl refl buf]) simp
qed

end
