(* ===== verification/Disconnect.thy ===== *)
theory Disconnect
  imports Ack_Properties Frame
begin

text \<open>
  The DISCONNECT packet of \<^verbatim>\<open>src/protocol/disconnect.rs\<close>, which both sides send: reason
  codes, properties, the encoder and the decoder.
\<close>

section \<open>Reasons\<close>

datatype disconnect_reason =
    Normal | DisconnectDisconnectWithWill | DisconnectUnspecifiedError
    | DisconnectMalformedPacket | DisconnectProtocolError
    | DisconnectImplementationSpecificError | DisconnectNotAuthorized
    | DisconnectServerBusy | DisconnectServerShuttingDown | DisconnectKeepAliveTimeout
    | DisconnectSessionTakenOver | DisconnectTopicFilterInvalid
    | DisconnectTopicNameInvalid | DisconnectReceiveMaximumExceeded
    | DisconnectTopicAliasInvalid | DisconnectPacketTooLarge
    | DisconnectMessageRateTooHigh | DisconnectQuotaExceeded
    | DisconnectAdministrativeAction | DisconnectPayloadFormatInvalid
    | DisconnectRetainNotSupported | DisconnectQoSNotSupported
    | DisconnectUseAnotherServer | DisconnectServerMoved
    | DisconnectSharedSubsNotSupported | DisconnectConnectionRateExceeded
    | DisconnectMaximumConnectTime | DisconnectSubscrpitionIdsNotSupported
    | DisconnectWildcardSubsNotSupported

definition disconnect_reason_try_from :: "u8 \<Rightarrow> (disconnect_reason, message) outcome" where
  "disconnect_reason_try_from b =
     (if b = 0 then Ok Normal
      else if b = 4 then Ok DisconnectDisconnectWithWill
      else if b = 128 then Ok DisconnectUnspecifiedError
      else if b = 129 then Ok DisconnectMalformedPacket
      else if b = 130 then Ok DisconnectProtocolError
      else if b = 131 then Ok DisconnectImplementationSpecificError
      else if b = 135 then Ok DisconnectNotAuthorized
      else if b = 137 then Ok DisconnectServerBusy
      else if b = 139 then Ok DisconnectServerShuttingDown
      else if b = 141 then Ok DisconnectKeepAliveTimeout
      else if b = 142 then Ok DisconnectSessionTakenOver
      else if b = 143 then Ok DisconnectTopicFilterInvalid
      else if b = 144 then Ok DisconnectTopicNameInvalid
      else if b = 147 then Ok DisconnectReceiveMaximumExceeded
      else if b = 148 then Ok DisconnectTopicAliasInvalid
      else if b = 149 then Ok DisconnectPacketTooLarge
      else if b = 150 then Ok DisconnectMessageRateTooHigh
      else if b = 151 then Ok DisconnectQuotaExceeded
      else if b = 152 then Ok DisconnectAdministrativeAction
      else if b = 153 then Ok DisconnectPayloadFormatInvalid
      else if b = 154 then Ok DisconnectRetainNotSupported
      else if b = 155 then Ok DisconnectQoSNotSupported
      else if b = 156 then Ok DisconnectUseAnotherServer
      else if b = 157 then Ok DisconnectServerMoved
      else if b = 158 then Ok DisconnectSharedSubsNotSupported
      else if b = 159 then Ok DisconnectConnectionRateExceeded
      else if b = 160 then Ok DisconnectMaximumConnectTime
      else if b = 161 then Ok DisconnectSubscrpitionIdsNotSupported
      else if b = 162 then Ok DisconnectWildcardSubsNotSupported
      else Err (BadDisconnectReason b))"

fun disconnect_reason_to_u8 :: "disconnect_reason \<Rightarrow> u8" where
  "disconnect_reason_to_u8 Normal = 0"
| "disconnect_reason_to_u8 DisconnectDisconnectWithWill = 4"
| "disconnect_reason_to_u8 DisconnectUnspecifiedError = 128"
| "disconnect_reason_to_u8 DisconnectMalformedPacket = 129"
| "disconnect_reason_to_u8 DisconnectProtocolError = 130"
| "disconnect_reason_to_u8 DisconnectImplementationSpecificError = 131"
| "disconnect_reason_to_u8 DisconnectNotAuthorized = 135"
| "disconnect_reason_to_u8 DisconnectServerBusy = 137"
| "disconnect_reason_to_u8 DisconnectServerShuttingDown = 139"
| "disconnect_reason_to_u8 DisconnectKeepAliveTimeout = 141"
| "disconnect_reason_to_u8 DisconnectSessionTakenOver = 142"
| "disconnect_reason_to_u8 DisconnectTopicFilterInvalid = 143"
| "disconnect_reason_to_u8 DisconnectTopicNameInvalid = 144"
| "disconnect_reason_to_u8 DisconnectReceiveMaximumExceeded = 147"
| "disconnect_reason_to_u8 DisconnectTopicAliasInvalid = 148"
| "disconnect_reason_to_u8 DisconnectPacketTooLarge = 149"
| "disconnect_reason_to_u8 DisconnectMessageRateTooHigh = 150"
| "disconnect_reason_to_u8 DisconnectQuotaExceeded = 151"
| "disconnect_reason_to_u8 DisconnectAdministrativeAction = 152"
| "disconnect_reason_to_u8 DisconnectPayloadFormatInvalid = 153"
| "disconnect_reason_to_u8 DisconnectRetainNotSupported = 154"
| "disconnect_reason_to_u8 DisconnectQoSNotSupported = 155"
| "disconnect_reason_to_u8 DisconnectUseAnotherServer = 156"
| "disconnect_reason_to_u8 DisconnectServerMoved = 157"
| "disconnect_reason_to_u8 DisconnectSharedSubsNotSupported = 158"
| "disconnect_reason_to_u8 DisconnectConnectionRateExceeded = 159"
| "disconnect_reason_to_u8 DisconnectMaximumConnectTime = 160"
| "disconnect_reason_to_u8 DisconnectSubscrpitionIdsNotSupported = 161"
| "disconnect_reason_to_u8 DisconnectWildcardSubsNotSupported = 162"

lemma disconnect_reason_roundtrip [simp]: "disconnect_reason_try_from (disconnect_reason_to_u8 r) = Ok r"
  by (cases r) (simp_all add: disconnect_reason_try_from_def)

lemma disconnect_reason_try_from_eq_Ok: "disconnect_reason_try_from c = Ok r \<longleftrightarrow> c = disconnect_reason_to_u8 r"
proof
  show "disconnect_reason_try_from c = Ok r \<Longrightarrow> c = disconnect_reason_to_u8 r"
    by (auto simp: disconnect_reason_try_from_def split: if_splits)
qed simp

lemma disconnect_reason_try_from_total [simp]:
  "disconnect_reason_try_from x \<noteq> Panic" "disconnect_reason_try_from x \<noteq> Diverge"
  by (simp_all add: disconnect_reason_try_from_def)

section \<open>Properties\<close>

datatype disconnect_property =
    SessionExpiryInterval u32
  | DisconnectReasonString rstring
  | DisconnectUserProperty rstring rstring

fun disconnect_property_id :: "disconnect_property \<Rightarrow> u8" where
  "disconnect_property_id (SessionExpiryInterval _) = 0x11"
| "disconnect_property_id (DisconnectReasonString _) = 0x1F"
| "disconnect_property_id (DisconnectUserProperty _ _) = 0x26"

definition disconnect_property_to_mqtt :: "disconnect_property \<Rightarrow> u8 list" where
  "disconnect_property_to_mqtt p =
     [disconnect_property_id p] @
     (case p of
        SessionExpiryInterval v \<Rightarrow> u32_to_be_bytes v
      | DisconnectReasonString s \<Rightarrow> string_to_mqtt s
      | DisconnectUserProperty k v \<Rightarrow> string_to_mqtt k @ string_to_mqtt v)"

definition disconnect_property_from_mqtt :: "u8 list \<Rightarrow> (disconnect_property \<times> nat) conv" where
  "disconnect_property_from_mqtt bytes =
     (if get_at bytes 0 = Some 0x11 then Err (Other SessionExpiryFromServer)
      else ack_property_from_mqtt DisconnectReasonString DisconnectUserProperty bytes)"

definition disconnect_properties_to_mqtt :: "disconnect_property list \<Rightarrow> u8 list" where
  "disconnect_properties_to_mqtt = vec_to_mqtt disconnect_property_to_mqtt"

definition disconnect_properties_from_mqtt ::
  "build \<Rightarrow> u8 list \<Rightarrow> (disconnect_property list \<times> nat) conv" where
  "disconnect_properties_from_mqtt b = vec_from_mqtt b disconnect_property_from_mqtt"

fun disconnect_property_ok :: "disconnect_property \<Rightarrow> bool" where
  "disconnect_property_ok (SessionExpiryInterval v) \<longleftrightarrow> False"
| "disconnect_property_ok (DisconnectReasonString s) \<longleftrightarrow> string_ok s"
| "disconnect_property_ok (DisconnectUserProperty k v) \<longleftrightarrow> string_ok k \<and> string_ok v"

interpretation disconnect_ack:
  ack_property DisconnectReasonString DisconnectUserProperty disconnect_property_to_mqtt
    disconnect_property_ok
proof
  show "disconnect_property_ok p \<Longrightarrow>
      (\<exists>s. p = DisconnectReasonString s \<and> string_ok s) \<or>
      (\<exists>k v. p = DisconnectUserProperty k v \<and> string_ok k \<and> string_ok v)" for p
    by (cases p) auto
qed (simp_all add: disconnect_property_to_mqtt_def)

lemma disconnect_property_from_eq_Ok:
  "disconnect_property_from_mqtt bytes = Ok r \<longleftrightarrow>
    ack_property_from_mqtt DisconnectReasonString DisconnectUserProperty bytes = Ok r"
  by (cases bytes)
    (auto simp: disconnect_property_from_mqtt_def ack_property_from_mqtt_def wire_simps)

interpretation disconnect_property:
  mqtt_codec disconnect_property_from_mqtt disconnect_property_to_mqtt disconnect_property_ok
proof
  show "disconnect_property_from_mqtt bs \<noteq> Diverge" for bs
    by (simp add: disconnect_property_from_mqtt_def ack_property_from_total)
qed (auto simp: disconnect_property_from_eq_Ok
      dest: disconnect_ack.codec.dec_consumes disconnect_ack.codec.dec_extend
      intro: disconnect_ack.codec.dec_enc)

abbreviation disconnect_properties_ok :: "disconnect_property list \<Rightarrow> bool" where
  "disconnect_properties_ok \<equiv> vec_ok disconnect_property_to_mqtt disconnect_property_ok"

interpretation disconnect_properties:
  mqtt_codec "disconnect_properties_from_mqtt b" disconnect_properties_to_mqtt
    disconnect_properties_ok for b
  unfolding disconnect_properties_from_mqtt_def disconnect_properties_to_mqtt_def
  by (rule disconnect_property.vec_codec)

section \<open>The packet\<close>

record disconnect =
  disconnect_reason :: disconnect_reason
  disconnect_properties :: "disconnect_property list"

definition disconnect_new :: disconnect where
  "disconnect_new = \<lparr>disconnect_reason = Normal, disconnect_properties = []\<rparr>"

definition set_reason :: "disconnect \<Rightarrow> disconnect_reason \<Rightarrow> disconnect" where
  "set_reason d reason = d\<lparr>disconnect_reason := reason\<rparr>"

definition set_property :: "disconnect \<Rightarrow> disconnect_property \<Rightarrow> disconnect" where
  "set_property d p = d\<lparr>disconnect_properties := disconnect_properties d @ [p]\<rparr>"

definition disconnect_to_mqtt :: "disconnect \<Rightarrow> u8 list" where
  "disconnect_to_mqtt d =
     frame 0b11100000 (disconnect_properties_to_mqtt (disconnect_properties d))"

definition disconnect_from_mqtt :: "build \<Rightarrow> u8 list \<Rightarrow> (disconnect \<times> nat) conv" where
  "disconnect_from_mqtt b bytes =
     andthen (frame_header b bytes) (\<lambda>(remaining_len, bytes_read).
     andthen
       (if vbi_eq remaining_len 0 then Ok (Normal, bytes_read)
        else
          andthen (index_at bytes bytes_read) (\<lambda>x.
          andthen (or_other (disconnect_reason_try_from x)) (\<lambda>reason.
          Ok (reason, bytes_read + 1)))) (\<lambda>(reason, bytes_read).
     andthen
       (if vbi_less remaining_len 4 then Ok ([], bytes_read)
        else
          andthen (slice_from bytes bytes_read) (\<lambda>r.
          andthen (disconnect_properties_from_mqtt b r) (\<lambda>(properties, props_bytes_read).
          Ok (properties, bytes_read + props_bytes_read)))) (\<lambda>(properties, bytes_read).
     Ok (\<lparr>disconnect_reason = reason, disconnect_properties = properties\<rparr>, bytes_read))))"

interpretation disconnect: from_mqtt "disconnect_from_mqtt b" for b
proof
  fix bs extra p n
  assume "disconnect_from_mqtt b bs = Ok (p, n)"
  then obtain v k reason k1 ps where 1: "frame_header b bs = Ok (v, k)"
    and 2: "(if vbi_eq v 0 then Ok (Normal, k)
        else andthen (index_at bs k) (\<lambda>x. andthen (or_other (disconnect_reason_try_from x))
          (\<lambda>reason. Ok (reason, k + 1)))) = Ok (reason, k1)"
    and 3: "(if vbi_less v 4 then Ok ([], k1)
        else andthen (slice_from bs k1) (\<lambda>r. andthen (disconnect_properties_from_mqtt b r)
          (\<lambda>(ps, m). Ok (ps, k1 + m)))) = Ok (ps, n)"
    and 4: "p = \<lparr>disconnect_reason = reason, disconnect_properties = ps\<rparr>"
    by (auto simp: disconnect_from_mqtt_def andthen_eq_Ok)
  have k: "2 \<le> k" "k + unat (vbi_val v) \<le> length bs" using frame_header_consumes [OF 1] by auto
  then have k1: "k \<le> k1 \<and> k1 \<le> length bs"
    using 2 by (auto simp: andthen_eq_Ok index_at_eq_Ok split: if_splits)
  show "0 < n \<and> n \<le> length bs"
    using 3 k k1 by (auto simp: andthen_eq_Ok slice_from_eq_Ok split: if_splits
        dest!: disconnect_properties.dec_consumes)
  have "(if vbi_eq v 0 then Ok (Normal, k)
        else andthen (index_at (bs @ extra) k) (\<lambda>x. andthen (or_other (disconnect_reason_try_from x))
          (\<lambda>reason. Ok (reason, k + 1)))) = Ok (reason, k1)"
    using 2 by (auto simp: andthen_eq_Ok split: if_splits dest: index_at_extend)
  moreover have "(if vbi_less v 4 then Ok ([], k1)
        else andthen (slice_from (bs @ extra) k1) (\<lambda>r. andthen (disconnect_properties_from_mqtt b r)
          (\<lambda>(ps, m). Ok (ps, k1 + m)))) = Ok (ps, n)"
    using 3 by (auto simp: andthen_eq_Ok slice_from_eq_Ok split: if_splits
        dest: disconnect_properties.dec_extend)
  ultimately show "disconnect_from_mqtt b (bs @ extra) = Ok (p, n)"
    using frame_header_extend [OF 1] by (simp add: disconnect_from_mqtt_def 4)
next
  show "disconnect_from_mqtt b bs \<noteq> Diverge" for bs
    by (auto simp: disconnect_from_mqtt_def andthen_eq_Diverge frame_header_returns
        disconnect_properties.dec_returns split: if_splits)
qed

text \<open>The three forms a server may send: no reason, a reason, a reason and properties.\<close>

lemma disconnect_from_frame_Nil:
  "disconnect_from_mqtt b (frame t [] @ rest) = Ok (disconnect_new, 2)"
  using frame_header_frame [of "[]" b t rest]
  by (simp add: disconnect_from_mqtt_def disconnect_new_def vbi_eq_def vbi_less_def header_len_def
      vbi_to_mqtt_def vbi_bytes.simps)

lemma disconnect_from_frame_reason:
  "disconnect_from_mqtt b (frame t [disconnect_reason_to_u8 r] @ rest) =
    Ok (\<lparr>disconnect_reason = r, disconnect_properties = []\<rparr>, 3)"
  using frame_header_frame [of "[disconnect_reason_to_u8 r]" b t rest]
  by (simp add: disconnect_from_mqtt_def vbi_eq_def vbi_less_def header_len_def
      vbi_to_mqtt_def vbi_bytes.simps wire_simps)

lemma disconnect_from_frame:
  assumes "disconnect_properties_ok ps"
    and "buf = disconnect_reason_to_u8 r # disconnect_properties_to_mqtt ps"
    and "4 \<le> length buf" "length buf < 2 ^ 28"
  shows "disconnect_from_mqtt b (frame t buf @ rest) =
    Ok (\<lparr>disconnect_reason = r, disconnect_properties = ps\<rparr>, length (frame t buf))"
proof -
  have "\<not> vbi_less (VBI (word_of_nat (length buf))) 4"
    using assms(3) vec_length_prefix(2) [OF assms(4)]
    by (simp add: vbi_less_def word_less_nat_alt)
  moreover have "\<not> vbi_eq (VBI (word_of_nat (length buf))) 0"
    using vec_length_prefix(3) [OF assms(4)] assms(2) by (simp add: vbi_eq_def)
  ultimately show ?thesis
    using disconnect_properties.dec_enc_append [OF assms(1), of b rest]
    unfolding disconnect_from_mqtt_def frame_header_frame [OF assms(4)]
    by (simp add: assms(2) wire_simps)
qed

text \<open>What the encoder leaves out.\<close>

lemma disconnect_to_mqtt_set_reason: "disconnect_to_mqtt (set_reason d r) = disconnect_to_mqtt d"
  by (simp add: disconnect_to_mqtt_def set_reason_def)

lemma disconnect_new_bytes: "disconnect_to_mqtt disconnect_new = [0b11100000, 1, 0]"
  by (simp add: disconnect_to_mqtt_def disconnect_new_def disconnect_properties_to_mqtt_def
      frame_def vbi_to_mqtt_def vbi_bytes.simps)

section \<open>Theorems\<close>

text \<open>C31: the three forms of a DISCONNECT from the server are decoded to their reason
  and properties: an empty one is normal, one byte is a reason, and from four bytes on the
  reason is followed by properties.\<close>

theorem disconnect_decode:
  assumes "disconnect_properties_ok ps"
    and "buf = disconnect_reason_to_u8 r # disconnect_properties_to_mqtt ps"
    and "4 \<le> length buf" "length buf < 2 ^ 28"
  shows "disconnect_from_mqtt b (frame t [] @ rest) = Ok (disconnect_new, 2) \<and>
    disconnect_from_mqtt b (frame t [disconnect_reason_to_u8 r] @ rest) =
      Ok (\<lparr>disconnect_reason = r, disconnect_properties = []\<rparr>, 3) \<and>
    disconnect_from_mqtt b (frame t buf @ rest) =
      Ok (\<lparr>disconnect_reason = r, disconnect_properties = ps\<rparr>, length (frame t buf))"
  by (intro conjI disconnect_from_frame_Nil disconnect_from_frame_reason
      disconnect_from_frame [OF assms])

theorem disconnect_decode_witness:
  "disconnect_from_mqtt Checked (frame 0xE0 [130] @ []) =
      Ok (\<lparr>disconnect_reason = DisconnectProtocolError, disconnect_properties = []\<rparr>, 3) \<and>
    disconnect_from_mqtt Checked
      (frame 0xE0 (130 # disconnect_properties_to_mqtt [DisconnectReasonString []]) @ []) =
      Ok (\<lparr>disconnect_reason = DisconnectProtocolError,
        disconnect_properties = [DisconnectReasonString []]\<rparr>, 7)"
  using disconnect_decode [of "[DisconnectReasonString []]"
      "130 # disconnect_properties_to_mqtt [DisconnectReasonString []]" DisconnectProtocolError
      Checked "0xE0" "[]"]
  by (simp add: vec_ok_def string_ok_def disconnect_property_to_mqtt_def string_to_mqtt_def
      u16_to_be_bytes_def disconnect_properties_to_mqtt_def vec_to_mqtt_def header_len_def
      vbi_to_mqtt_def vbi_bytes.simps [of 3] vbi_bytes.simps [of 5])

text \<open>C38: the reason of a DISCONNECT the client sends is never written. What it
  writes is the same for every reason, and the decoder reads it back as a normal disconnect.\<close>

theorem disconnect_reason_lost:
  "disconnect_to_mqtt (set_reason d r) = disconnect_to_mqtt d \<and>
   disconnect_from_mqtt b (disconnect_to_mqtt (set_reason disconnect_new r) @ rest) =
     Ok (disconnect_new, 3)"
proof -
  have "[0b11100000, 1, 0] = frame 0b11100000 [disconnect_reason_to_u8 Normal]"
    by (simp add: frame_def vbi_to_mqtt_def vbi_bytes.simps [of 1])
  then show ?thesis
    using disconnect_from_frame_reason [of b "0b11100000" Normal rest]
    by (simp add: disconnect_to_mqtt_set_reason disconnect_new_bytes) (simp add: disconnect_new_def)
qed

end
