(* ===== verification/Requests.thy ===== *)
theory Requests
  imports Frame Qos
begin

text \<open>
  The packets only the client sends, with their encoders: CONNECT (\<^verbatim>\<open>connect.rs\<close>),
  SUBSCRIBE (\<^verbatim>\<open>subscribe.rs\<close>), UNSUBSCRIBE (\<^verbatim>\<open>unsubscribe.rs\<close>) and PINGREQ
  (\<^verbatim>\<open>pingreq.rs\<close>); and the packet without contents that only the server sends, PINGRESP
  (\<^verbatim>\<open>pingresp.rs\<close>).
\<close>

section \<open>CONNECT\<close>

record connect =
  client_id :: rstring
  keep_alive :: u16

definition connect_new :: "rstring \<Rightarrow> connect" where
  "connect_new cid = \<lparr>client_id = cid, keep_alive = 0\<rparr>"

definition set_keep_alive :: "connect \<Rightarrow> u16 \<Rightarrow> connect" where
  "set_keep_alive c k = c\<lparr>keep_alive := k\<rparr>"

definition connect_to_mqtt :: "connect \<Rightarrow> u8 list" where
  "connect_to_mqtt c =
     frame 0b00010000
       (str_to_mqtt (str_lit ''MQTT'') @ [5] @ [0b00000010] @ u16_to_be_bytes (keep_alive c) @
        vbi_to_mqtt (VBI 0) @ string_to_mqtt (client_id c))"

section \<open>SUBSCRIBE\<close>

record subscribe =
  sub_topic :: rstring
  sub_pktid :: pktid
  sub_qos :: qos
  no_local :: bool
  retain_as_published :: bool

definition subscribe_new :: "rstring \<Rightarrow> pktid \<Rightarrow> qos \<Rightarrow> subscribe" where
  "subscribe_new t i q =
     \<lparr>sub_topic = t, sub_pktid = i, sub_qos = q, no_local = False, retain_as_published = False\<rparr>"

definition subscribe_options :: "subscribe \<Rightarrow> u8" where
  "subscribe_options s =
     qos_to_u8 (sub_qos s) + (if no_local s then 0b100 else 0)
       + (if retain_as_published s then 0b1000 else 0)"

definition subscribe_to_mqtt :: "subscribe \<Rightarrow> u8 list" where
  "subscribe_to_mqtt s =
     frame 0b10000010
       (pktid_to_mqtt (sub_pktid s) @ [0] @ string_to_mqtt (sub_topic s) @ [subscribe_options s])"

section \<open>UNSUBSCRIBE\<close>

record unsubscribe =
  unsub_topics :: "rstring list"
  unsub_pktid :: pktid

definition unsubscribe_new :: "rstring list \<Rightarrow> pktid \<Rightarrow> unsubscribe" where
  "unsubscribe_new ts i = \<lparr>unsub_topics = ts, unsub_pktid = i\<rparr>"

definition unsubscribe_to_mqtt :: "unsubscribe \<Rightarrow> u8 list" where
  "unsubscribe_to_mqtt u =
     frame 0b10100010
       (pktid_to_mqtt (unsub_pktid u) @ [0] @ concat (map string_to_mqtt (unsub_topics u)))"

section \<open>PINGREQ and PINGRESP\<close>

datatype pingreq = PingReqPacket

definition pingreq_to_mqtt :: "pingreq \<Rightarrow> u8 list" where
  "pingreq_to_mqtt p = [0b11000000, 0]"

datatype pingresp = PingRespPacket

definition pingresp_from_mqtt :: "u8 list \<Rightarrow> (pingresp \<times> nat) conv" where
  "pingresp_from_mqtt bytes =
     (if length bytes < 2 then Err NotEnoughBytes else Ok (PingRespPacket, 2))"

interpretation pingresp: from_mqtt pingresp_from_mqtt
  by unfold_locales (auto simp: pingresp_from_mqtt_def split: if_splits)

section \<open>The encodings are unambiguous\<close>

lemma frame_inj:
  assumes "frame t buf @ r = frame t' buf' @ r'" "length buf < 2 ^ 28" "length buf' < 2 ^ 28"
  shows "t = t'" "buf = buf'" "r = r'"
proof -
  let ?v = "VBI (word_of_nat (length buf))" and ?v' = "VBI (word_of_nat (length buf'))"
  have eq: "t = t'" "vbi_to_mqtt ?v @ buf @ r = vbi_to_mqtt ?v' @ buf' @ r'"
    using assms(1) by (simp_all add: frame_def Let_def)
  have "vbi_ok ?v" "vbi_ok ?v'"
    using assms(2,3) vec_length_prefix(2) by (simp_all add: vbi_ok_def)
  note inj = vbi_codec.enc_inj [OF this eq(2)]
  have "unat (vbi_val ?v) = unat (vbi_val ?v')" using inj by metis
  then have "length buf = length buf'"
    using vec_length_prefix(2) [OF assms(2)] vec_length_prefix(2) [OF assms(3)] by simp
  with inj eq(1) show "t = t'" "buf = buf'" "r = r'" by simp_all
qed

lemma subscribe_options_inj:
  "subscribe_options s = subscribe_options s' \<Longrightarrow>
    sub_qos s = sub_qos s' \<and> no_local s = no_local s' \<and> retain_as_published s = retain_as_published s'"
  by (cases "sub_qos s"; cases "sub_qos s'")
    (auto simp: subscribe_options_def split: if_splits)

lemma u16_to_be_bytes_inj: "u16_to_be_bytes x = u16_to_be_bytes y \<longleftrightarrow> x = y"
proof
  assume "u16_to_be_bytes x = u16_to_be_bytes y"
  then have "read_u16 (u16_to_be_bytes x @ []) = read_u16 (u16_to_be_bytes y @ [])" by simp
  then show "x = y" unfolding read_u16_be by simp
qed simp

lemma subscribe_to_mqtt_inj:
  assumes "string_ok (sub_topic s)" "string_ok (sub_topic s')"
    and "subscribe_to_mqtt s @ r = subscribe_to_mqtt s' @ r'"
  shows "s = s' \<and> r = r'"
proof -
  let ?buf = "\<lambda>s. pktid_to_mqtt (sub_pktid s) @ [0] @ string_to_mqtt (sub_topic s) @ [subscribe_options s]"
  have len: "length (?buf s) < 2 ^ 28" "length (?buf s') < 2 ^ 28"
    using assms(1,2) by (simp_all add: string_ok_def)
  note inj = frame_inj [OF assms(3) [unfolded subscribe_to_mqtt_def] len]
  have i: "u16_to_be_bytes (sub_pktid s) = u16_to_be_bytes (sub_pktid s')"
    and t: "string_to_mqtt (sub_topic s) @ [subscribe_options s] =
      string_to_mqtt (sub_topic s') @ [subscribe_options s']" and r: "r = r'"
    using inj(2,3) by (auto simp: pktid_to_mqtt_def u16_to_be_bytes_def)
  from string_codec.enc_inj [OF assms(1,2) t]
  show ?thesis
    using i r subscribe_options_inj [of s s'] by (cases s; cases s') (auto simp: u16_to_be_bytes_inj)
qed

lemma topics_inj:
  assumes "list_all string_ok ts" "list_all string_ok ts'"
    and eq: "concat (map string_to_mqtt ts) = concat (map string_to_mqtt ts')"
  shows "ts = ts'"
proof -
  note string_codec.props_loop_enc [OF assms(1), of "[]"]
    and string_codec.props_loop_enc [OF assms(2), of "[]"]
  then have "(Ok ([] @ ts) :: rstring list conv) = Ok ([] @ ts')" unfolding eq by (rule trans [OF sym])
  then show ?thesis by simp
qed

lemma unsubscribe_to_mqtt_inj:
  assumes "list_all string_ok (unsub_topics u)" "list_all string_ok (unsub_topics u')"
    and "length (unsubscribe_to_mqtt u) < 2 ^ 28" "length (unsubscribe_to_mqtt u') < 2 ^ 28"
    and "unsubscribe_to_mqtt u @ r = unsubscribe_to_mqtt u' @ r'"
  shows "u = u' \<and> r = r'"
proof -
  let ?buf = "\<lambda>u. pktid_to_mqtt (unsub_pktid u) @ [0] @ concat (map string_to_mqtt (unsub_topics u))"
  have len: "length (?buf u) < 2 ^ 28" "length (?buf u') < 2 ^ 28"
    using assms(3,4) by (simp_all add: unsubscribe_to_mqtt_def)
  note inj = frame_inj [OF assms(5) [unfolded unsubscribe_to_mqtt_def] len]
  have "u16_to_be_bytes (unsub_pktid u) = u16_to_be_bytes (unsub_pktid u')" "r = r'"
    "unsub_topics u = unsub_topics u'"
    using inj(2,3) topics_inj [OF assms(1,2)] by (auto simp: pktid_to_mqtt_def u16_to_be_bytes_def)
  then show ?thesis by (cases u; cases u') (auto simp: u16_to_be_bytes_inj)
qed

lemma connect_to_mqtt_inj:
  assumes "string_ok (client_id c)" "string_ok (client_id c')"
    and "connect_to_mqtt c @ r = connect_to_mqtt c' @ r'"
  shows "c = c' \<and> r = r'"
proof -
  let ?buf = "\<lambda>c. str_to_mqtt (str_lit ''MQTT'') @ [5] @ [0b00000010] @ u16_to_be_bytes (keep_alive c) @
        vbi_to_mqtt (VBI 0) @ string_to_mqtt (client_id c)"
  have len: "length (?buf c) < 2 ^ 28" "length (?buf c') < 2 ^ 28"
    using assms(1,2) by (simp_all add: string_ok_def str_lit_def vbi_to_mqtt_def vbi_bytes.simps)
  note inj = frame_inj [OF assms(3) [unfolded connect_to_mqtt_def] len]
  have "u16_to_be_bytes (keep_alive c) = u16_to_be_bytes (keep_alive c')" "r = r'"
    "string_to_mqtt (client_id c) = string_to_mqtt (client_id c')"
    using inj(2,3) by (auto simp: u16_to_be_bytes_def)
  then show ?thesis
    using string_codec.enc_inj [OF assms(1,2), of "[]" "[]"]
    by (cases c; cases c') (auto simp: u16_to_be_bytes_inj)
qed

section \<open>Properties\<close>

text \<open>C35: two requests of one kind, CONNECT, SUBSCRIBE or UNSUBSCRIBE, begin a stream
  of the same bytes only when they agree in every field and the streams agree behind them,
  although the topics of an UNSUBSCRIBE are a list without a count.\<close>

theorem requests_unambiguous:
  assumes "string_ok (client_id c)" "string_ok (client_id c')"
    and "string_ok (sub_topic s)" "string_ok (sub_topic s')"
    and "list_all string_ok (unsub_topics u)" "list_all string_ok (unsub_topics u')"
    and "length (unsubscribe_to_mqtt u) < 2 ^ 28" "length (unsubscribe_to_mqtt u') < 2 ^ 28"
  shows "(connect_to_mqtt c @ r = connect_to_mqtt c' @ r' \<longleftrightarrow> c = c' \<and> r = r') \<and>
    (subscribe_to_mqtt s @ r = subscribe_to_mqtt s' @ r' \<longleftrightarrow> s = s' \<and> r = r') \<and>
    (unsubscribe_to_mqtt u @ r = unsubscribe_to_mqtt u' @ r' \<longleftrightarrow> u = u' \<and> r = r')"
proof (intro conjI)
  show "connect_to_mqtt c @ r = connect_to_mqtt c' @ r' \<longleftrightarrow> c = c' \<and> r = r'"
    using connect_to_mqtt_inj [OF assms(1,2)] by auto
  show "subscribe_to_mqtt s @ r = subscribe_to_mqtt s' @ r' \<longleftrightarrow> s = s' \<and> r = r'"
    using subscribe_to_mqtt_inj [OF assms(3,4)] by auto
  show "unsubscribe_to_mqtt u @ r = unsubscribe_to_mqtt u' @ r' \<longleftrightarrow> u = u' \<and> r = r'"
    using unsubscribe_to_mqtt_inj [OF assms(5-8)] by auto
qed

theorem requests_unambiguous_witness:
  "connect_to_mqtt (connect_new [97]) \<noteq> connect_to_mqtt (set_keep_alive (connect_new [97]) 8) \<and>
    subscribe_to_mqtt (subscribe_new [97] 7 AtMostOnce) \<noteq>
      subscribe_to_mqtt (subscribe_new [97] 7 AtLeastOnce) \<and>
    unsubscribe_to_mqtt (unsubscribe_new [[97], [98]] 7) \<noteq> unsubscribe_to_mqtt (unsubscribe_new [[97, 98]] 7)"
proof -
  have len: "length (unsubscribe_to_mqtt (unsubscribe_new [[97], [98]] 7)) < 2 ^ 28"
    "length (unsubscribe_to_mqtt (unsubscribe_new [[97, 98]] 7)) < 2 ^ 28"
    by (simp_all add: unsubscribe_new_def unsubscribe_to_mqtt_def pktid_to_mqtt_def header_len_def
        vbi_to_mqtt_def vbi_bytes.simps [of 9] vbi_bytes.simps [of 7])
  show ?thesis
    using requests_unambiguous [OF _ _ _ _ _ _ len, of "connect_new [97]" "set_keep_alive (connect_new [97]) 8"
        "subscribe_new [97] 7 AtMostOnce" "subscribe_new [97] 7 AtLeastOnce" "[]" "[]"]
    by (simp add: connect_new_def set_keep_alive_def subscribe_new_def unsubscribe_new_def string_ok_def
        in_range_def)
qed

end
