(* ===== verification/Mqtt_Packet.thy ===== *)
theory Mqtt_Packet
  imports Publish Connack Suback Unsuback Puback Disconnect Requests
begin

text \<open>
  The packets of \<^verbatim>\<open>src/protocol/mod.rs\<close> as one type: the fixed header, the dispatch
  \<^verbatim>\<open>parse_pkt\<close> over the decoders of the packet modules, and the encoder of \<^verbatim>\<open>Packet\<close>.
\<close>

section \<open>IO errors\<close>

text \<open>
  An error the library raises is its kind and its text, the text again one constructor per
  \<^verbatim>\<open>format!\<close> call. \<open>OsError\<close> is an error of the socket, by number.
\<close>

datatype io_kind = InvalidData | TimedOut | OtherKind

datatype io_text =
    BadHeaderByte u8 message
  | FullPacketExpected
  | ParseFailed convert_error
  | ConvertFailed convert_error
  | PacketTooLong vbi u32
  | UnexpectedPacket
  | PingTimedOut
  | DisconnectedDueTo disconnect_reason

datatype io_error = IoError io_kind io_text | OsError nat

section \<open>The fixed header\<close>

datatype packet_type =
    ConnectType | ConnackType | PublishType | PubAckType | PubReceivedType | PubReleaseType
  | PubCompleteType | SubscribeType | SubscribeAckType | UnsubscribeType | UnsubscribeAckType
  | PingRequestType | PingResponseType | DisconnectType | AuthType

definition packet_type_try_from :: "u8 \<Rightarrow> (packet_type, message) outcome" where
  "packet_type_try_from b =
     (let n = drop_bit 4 b in
      if n = 1 then Ok ConnectType
      else if n = 2 then Ok ConnackType
      else if n = 3 then Ok PublishType
      else if n = 4 then Ok PubAckType
      else if n = 5 then Ok PubReceivedType
      else if n = 6 then Ok PubReleaseType
      else if n = 7 then Ok PubCompleteType
      else if n = 8 then Ok SubscribeType
      else if n = 9 then Ok SubscribeAckType
      else if n = 10 then Ok UnsubscribeType
      else if n = 11 then Ok UnsubscribeAckType
      else if n = 12 then Ok PingRequestType
      else if n = 13 then Ok PingResponseType
      else if n = 14 then Ok DisconnectType
      else if n = 15 then Ok AuthType
      else Err (BadPacketType b))"

definition parse_fixed_header :: "u8 \<Rightarrow> (packet_type, message) outcome" where
  "parse_fixed_header byte = packet_type_try_from byte"

section \<open>Packets\<close>

datatype packet =
    ConnectPkt connect | ConnackPkt connack | PublishPkt publish | PubAckPkt puback
  | PingReqPkt pingreq | PingRespPkt pingresp | SubscribePkt subscribe | SubAckPkt suback
  | UnsubscribePkt unsubscribe | UnsubAckPkt unsuback | DisconnectPkt disconnect

text \<open>The five packets only a server sends have no encoder: \<^verbatim>\<open>unimplemented!\<close> panics.\<close>

definition packet_to_mqtt :: "bytes_crate \<Rightarrow> packet \<Rightarrow> (u8 list, 'e) outcome" where
  "packet_to_mqtt B pkt =
     (case pkt of
        ConnectPkt p \<Rightarrow> Ok (connect_to_mqtt p)
      | PublishPkt p \<Rightarrow> publish_to_mqtt B p
      | PingReqPkt p \<Rightarrow> Ok (pingreq_to_mqtt p)
      | SubscribePkt p \<Rightarrow> Ok (subscribe_to_mqtt p)
      | UnsubscribePkt p \<Rightarrow> Ok (unsubscribe_to_mqtt p)
      | DisconnectPkt p \<Rightarrow> Ok (disconnect_to_mqtt p)
      | PingRespPkt _ \<Rightarrow> Panic
      | ConnackPkt _ \<Rightarrow> Panic
      | PubAckPkt _ \<Rightarrow> Panic
      | SubAckPkt _ \<Rightarrow> Panic
      | UnsubAckPkt _ \<Rightarrow> Panic)"

section \<open>Parsing a packet\<close>

definition header_error :: "u8 \<Rightarrow> message \<Rightarrow> io_error" where
  "header_error byte e = IoError InvalidData (BadHeaderByte byte e)"

definition parse_error :: "convert_error \<Rightarrow> io_error" where
  "parse_error e =
     (case e of
        NotEnoughBytes \<Rightarrow> IoError InvalidData FullPacketExpected
      | e \<Rightarrow> IoError InvalidData (ParseFailed e))"

definition parse_body :: "build \<Rightarrow> packet_type \<Rightarrow> u8 list \<Rightarrow> packet option conv" where
  "parse_body b pkt_type data =
     (case pkt_type of
        PublishType \<Rightarrow> andthen (publish_from_mqtt b data) (\<lambda>(pkt, _). Ok (Some (PublishPkt pkt)))
      | ConnackType \<Rightarrow> andthen (connack_from_mqtt b data) (\<lambda>(pkt, _). Ok (Some (ConnackPkt pkt)))
      | PingResponseType \<Rightarrow> andthen (pingresp_from_mqtt data) (\<lambda>(pkt, _). Ok (Some (PingRespPkt pkt)))
      | SubscribeAckType \<Rightarrow> andthen (suback_from_mqtt b data) (\<lambda>(pkt, _). Ok (Some (SubAckPkt pkt)))
      | UnsubscribeAckType \<Rightarrow> andthen (unsuback_from_mqtt b data) (\<lambda>(pkt, _). Ok (Some (UnsubAckPkt pkt)))
      | PubAckType \<Rightarrow> andthen (puback_from_mqtt b data) (\<lambda>(pkt, _). Ok (Some (PubAckPkt pkt)))
      | DisconnectType \<Rightarrow> andthen (disconnect_from_mqtt b data) (\<lambda>(pkt, _). Ok (Some (DisconnectPkt pkt)))
      | _ \<Rightarrow> Panic)"

definition parse_pkt :: "build \<Rightarrow> u8 list \<Rightarrow> (packet option, io_error) outcome" where
  "parse_pkt b data =
     andthen (index_at data 0) (\<lambda>byte.
     andthen (map_err (header_error byte) (parse_fixed_header byte)) (\<lambda>pkt_type.
     map_err parse_error (parse_body b pkt_type data)))"

section \<open>The header nibble\<close>

fun packet_type_code :: "packet_type \<Rightarrow> u8" where
  "packet_type_code ConnectType = 1"
| "packet_type_code ConnackType = 2"
| "packet_type_code PublishType = 3"
| "packet_type_code PubAckType = 4"
| "packet_type_code PubReceivedType = 5"
| "packet_type_code PubReleaseType = 6"
| "packet_type_code PubCompleteType = 7"
| "packet_type_code SubscribeType = 8"
| "packet_type_code SubscribeAckType = 9"
| "packet_type_code UnsubscribeType = 10"
| "packet_type_code UnsubscribeAckType = 11"
| "packet_type_code PingRequestType = 12"
| "packet_type_code PingResponseType = 13"
| "packet_type_code DisconnectType = 14"
| "packet_type_code AuthType = 15"

lemma packet_type_try_from_eq_Ok:
  "packet_type_try_from b = Ok t \<longleftrightarrow> drop_bit 4 b = packet_type_code t"
  by (cases t) (simp_all add: packet_type_try_from_def Let_def)

lemma packet_type_try_from_cases:
  "(\<exists>t. packet_type_try_from b = Ok t) \<or> packet_type_try_from b = Err (BadPacketType b)"
  by (simp add: packet_type_try_from_def Let_def)

lemma nibble_less: "drop_bit 4 (b :: u8) < 16"
proof -
  have "unat b div 16 < 16" using unat_u8_less [of b] by linarith
  then have "unat (drop_bit 4 b) < unat (16 :: u8)"
    by (simp add: drop_bit_eq_div unat_div)
  then show ?thesis by (simp add: word_less_nat_alt)
qed

lemma packet_type_try_from_eq_Err:
  "packet_type_try_from b = Err e \<longleftrightarrow> drop_bit 4 b = 0 \<and> e = BadPacketType b"
proof -
  define n where "n = drop_bit 4 b"
  have "unat n < 16" using nibble_less [of b] by (simp add: n_def word_less_nat_alt)
  then have "unat n \<in> {0, 1, 2, 3, 4, 5, 6, 7, 8, 9, 10, 11, 12, 13, 14, 15}"
    unfolding insert_iff empty_iff by presburger
  then have "n \<in> {0, 1, 2, 3, 4, 5, 6, 7, 8, 9, 10, 11, 12, 13, 14, 15}"
    unfolding insert_iff empty_iff word_unat_eq_iff by simp
  then show ?thesis unfolding packet_type_try_from_def Let_def n_def [symmetric] by auto
qed

lemma parse_fixed_header_total [simp]:
  "parse_fixed_header b \<noteq> Panic" "parse_fixed_header b \<noteq> Diverge"
  using packet_type_try_from_cases [of b] by (auto simp: parse_fixed_header_def)

section \<open>What a packet can parse to\<close>

text \<open>The packet types the client understands, and the type of a packet.\<close>

definition server_type :: "packet_type \<Rightarrow> bool" where
  "server_type t \<longleftrightarrow>
     t \<in> {PublishType, ConnackType, PingResponseType, SubscribeAckType, UnsubscribeAckType,
       PubAckType, DisconnectType}"

fun packet_type_of :: "packet \<Rightarrow> packet_type" where
  "packet_type_of (ConnectPkt _) = ConnectType"
| "packet_type_of (ConnackPkt _) = ConnackType"
| "packet_type_of (PublishPkt _) = PublishType"
| "packet_type_of (PubAckPkt _) = PubAckType"
| "packet_type_of (PingReqPkt _) = PingRequestType"
| "packet_type_of (PingRespPkt _) = PingResponseType"
| "packet_type_of (SubscribePkt _) = SubscribeType"
| "packet_type_of (SubAckPkt _) = SubscribeAckType"
| "packet_type_of (UnsubscribePkt _) = UnsubscribeType"
| "packet_type_of (UnsubAckPkt _) = UnsubscribeAckType"
| "packet_type_of (DisconnectPkt _) = DisconnectType"

lemma parse_body_eq_Ok:
  assumes "parse_body b t data = Ok r"
  shows "\<exists>p. r = Some p \<and> packet_type_of p = t \<and> server_type t"
  using assms by (cases t) (auto simp: parse_body_def andthen_eq_Ok server_type_def)

lemma parse_body_other: "\<not> server_type t \<Longrightarrow> parse_body b t data = Panic"
  by (cases t) (simp_all add: parse_body_def server_type_def)

lemma parse_body_returns: "parse_body b t data \<noteq> Diverge"
  using publish.dec_returns connack.dec_returns pingresp.dec_returns suback.dec_returns
    unsuback.dec_returns disconnect.dec_returns puback_from_returns
  by (cases t) (auto simp: parse_body_def andthen_eq_Diverge split: prod.splits)

lemma parse_pkt_returns: "parse_pkt b data \<noteq> Diverge"
  by (auto simp: parse_pkt_def andthen_eq_Diverge parse_body_returns)

lemma parse_pkt_Cons:
  "parse_pkt b (t # data) =
    andthen (map_err (header_error t) (parse_fixed_header t)) (\<lambda>pkt_type.
     map_err parse_error (parse_body b pkt_type (t # data)))"
  by (simp add: parse_pkt_def wire_simps)

lemma parse_pkt_eq_Ok:
  assumes "parse_pkt b data = Ok r"
  shows "\<exists>p. r = Some p \<and> data \<noteq> [] \<and> drop_bit 4 (data ! 0) = packet_type_code (packet_type_of p) \<and>
    server_type (packet_type_of p)"
  using assms
  by (auto simp: parse_pkt_def andthen_eq_Ok index_at_eq_Ok parse_fixed_header_def
      packet_type_try_from_eq_Ok dest!: parse_body_eq_Ok)

lemma parse_pkt_frame:
  assumes "drop_bit 4 t = packet_type_code ty"
  shows "parse_pkt b (frame t buf) = map_err parse_error (parse_body b ty (frame t buf))"
proof -
  have "parse_fixed_header t = Ok ty"
    using assms by (simp add: parse_fixed_header_def packet_type_try_from_eq_Ok)
  moreover have "0 < length (frame t buf)" using frame_nonempty [of t buf] unfolding length_greater_0_conv .
  ultimately show ?thesis by (simp only: parse_pkt_def index_at_def if_True) simp
qed

lemma parse_pkt_frame_Ok:
  assumes "drop_bit 4 t = packet_type_code ty" "parse_body b ty (frame t buf) = Ok (Some p)"
  shows "parse_pkt b (frame t buf) = Ok (Some p)"
  using assms by (simp add: parse_pkt_frame)

lemma publish_first_byte: "drop_bit 4 (0b00110000 + publish_flags_to_u8 f) = 3"
  by (cases f; cases "dup f"; cases "qos f"; cases "retain f")
    (simp_all add: publish_flags_to_u8_def drop_bit_eq_div)

section \<open>Properties\<close>

text \<open>C32: what a packet is parsed to is determined by the high nibble of its first byte:
  a success is a packet of that type, and one of the seven the server sends; a first byte with
  a zero nibble is an error; one of the eight types the client does not read panics.\<close>

theorem parse_pkt_kind:
  "(parse_pkt b (t # r) = Ok x \<longrightarrow>
     (\<exists>p. x = Some p \<and> drop_bit 4 t = packet_type_code (packet_type_of p) \<and>
       server_type (packet_type_of p))) \<and>
   (drop_bit 4 t = 0 \<longrightarrow> parse_pkt b (t # r) = Err (IoError InvalidData (BadHeaderByte t (BadPacketType t)))) \<and>
   (drop_bit 4 t = packet_type_code ty \<and> \<not> server_type ty \<longrightarrow> parse_pkt b (t # r) = Panic) \<and>
   parse_pkt b (t # r) \<noteq> Diverge"
proof (intro conjI impI)
  show "\<exists>p. x = Some p \<and> drop_bit 4 t = packet_type_code (packet_type_of p) \<and>
      server_type (packet_type_of p)" if "parse_pkt b (t # r) = Ok x"
    using parse_pkt_eq_Ok [OF that] by auto
  show "parse_pkt b (t # r) = Err (IoError InvalidData (BadHeaderByte t (BadPacketType t)))"
    if "drop_bit 4 t = 0"
  proof -
    have "parse_fixed_header t = Err (BadPacketType t)"
      using that packet_type_try_from_eq_Err [of t] by (simp add: parse_fixed_header_def)
    then show ?thesis by (simp add: parse_pkt_Cons header_error_def)
  qed
  show "parse_pkt b (t # r) = Panic" if "drop_bit 4 t = packet_type_code ty \<and> \<not> server_type ty"
  proof -
    have "parse_fixed_header t = Ok ty"
      using that by (simp add: parse_fixed_header_def packet_type_try_from_eq_Ok)
    then show ?thesis using that by (simp add: parse_pkt_Cons parse_body_other)
  qed
qed (rule parse_pkt_returns)

theorem parse_pkt_kind_witness:
  "parse_pkt Wrapping [0xF0, 0] = Panic \<and>
    parse_pkt Wrapping [5, 0] = Err (IoError InvalidData (BadHeaderByte 5 (BadPacketType 5)))"
  using parse_pkt_kind [of Wrapping "0xF0" "[0]" None AuthType] parse_pkt_kind [of Wrapping 5 "[0]" None AuthType]
  by (simp add: server_type_def drop_bit_eq_div)

text \<open>C40: a complete SUBACK or UNSUBACK that ends behind its properties, without a
  reason code, is not an error: the parser indexes out of range and panics.\<close>

theorem acks_truncated_panic:
  assumes "pid \<noteq> 0" "suback_properties_ok ps" "unsuback_properties_ok qs"
    and "length (pktid_to_mqtt pid @ suback_properties_to_mqtt ps) < 2 ^ 28"
    and "length (pktid_to_mqtt pid @ unsuback_properties_to_mqtt qs) < 2 ^ 28"
  shows "parse_pkt b (frame 0x90 (pktid_to_mqtt pid @ suback_properties_to_mqtt ps)) = Panic \<and>
    parse_pkt b (frame 0xB0 (pktid_to_mqtt pid @ unsuback_properties_to_mqtt qs)) = Panic"
  using suback_truncated_panics [OF assms(1,2) refl assms(4), of b "0x90"]
    unsuback_truncated_panics [OF assms(1,3) refl assms(5), of b "0xB0"]
  by (simp add: parse_pkt_frame [of _ SubscribeAckType] parse_pkt_frame [of _ UnsubscribeAckType]
      parse_body_def drop_bit_eq_div)

theorem acks_truncated_panic_witness:
  "parse_pkt Wrapping [0x90, 3, 0, 7, 0] = Panic \<and> parse_pkt Wrapping [0xB0, 3, 0, 7, 0] = Panic"
  using acks_truncated_panic [where pid = 7 and ps = "[]" and qs = "[]" and b = Wrapping]
  by (simp add: vec_ok_def frame_def pktid_to_mqtt_def u16_to_be_bytes_def suback_properties_to_mqtt_def
      unsuback_properties_to_mqtt_def vec_to_mqtt_def vbi_to_mqtt_def vbi_bytes.simps)

end
