(* ===== verification/Packet_Codec.thy ===== *)
theory Packet_Codec
  imports Mqtt_Packet
begin

text \<open>
  The codec of \<^verbatim>\<open>src/mqtt_codec.rs\<close>: \<^verbatim>\<open>decode\<close> cuts one packet off the front of a buffer that
  the transport fills in pieces, \<^verbatim>\<open>encode\<close> appends a packet to the output buffer. Both mutate a
  \<^verbatim>\<open>BytesMut\<close>; the model passes it and returns it.
\<close>

definition PKT_MAX :: u32 where
  "PKT_MAX = 268435455"

text \<open>The \<^verbatim>\<open>?\<close> and the panics of a function that has the buffer in its hands.\<close>

fun with_buffer ::
  "('a, 'e) outcome \<Rightarrow> u8 list \<Rightarrow> ('a \<Rightarrow> ('b, 'e) outcome \<times> u8 list) \<Rightarrow> ('b, 'e) outcome \<times> u8 list"
where
  "with_buffer (Ok x) src f = f x"
| "with_buffer (Err e) src f = (Err e, src)"
| "with_buffer Panic src f = (Panic, src)"
| "with_buffer Diverge src f = (Diverge, src)"

text \<open>\<^verbatim>\<open>impl From<ConvertError> for std::io::Error\<close>\<close>

definition convert_error_into :: "convert_error \<Rightarrow> io_error" where
  "convert_error_into e = IoError InvalidData (ConvertFailed e)"

text \<open>
  When the packet is complete, the \<^verbatim>\<open>Result\<close> of \<^verbatim>\<open>parse_pkt\<close> is a value: the buffer is advanced
  before it is returned, whether it is \<open>Ok\<close> or \<open>Err\<close>.
\<close>

definition decode ::
  "bytes_crate \<Rightarrow> build \<Rightarrow> u8 list \<Rightarrow> (packet option, io_error) outcome \<times> u8 list" where
  "decode B b src =
     (if length src < 2 then (Ok None, src)
      else
      with_buffer (index_at src 0) src (\<lambda>byte.
      with_buffer (map_err (header_error byte) (parse_fixed_header byte)) src (\<lambda>_.
      with_buffer (slice_from src 1) src (\<lambda>r.
      case vbi_from_mqtt b r of
        Ok (len, vbi_len) \<Rightarrow>
          if vbi_greater len PKT_MAX then (Err (IoError InvalidData (PacketTooLong len PKT_MAX)), src)
          else
            let total_pkt_len = vbi_plus len (1 + vbi_len) in
            if length src < total_pkt_len then (Ok None, src)
            else
              with_buffer (slice_range src 0 total_pkt_len) src (\<lambda>data.
              case parse_pkt b data of
                Ok pkt \<Rightarrow> (Ok pkt, buf_advance B src total_pkt_len)
              | Err e \<Rightarrow> (Err e, buf_advance B src total_pkt_len)
              | Panic \<Rightarrow> (Panic, src)
              | Diverge \<Rightarrow> (Diverge, src))
      | Err NotEnoughBytes \<Rightarrow> (Ok None, src)
      | Err e \<Rightarrow> (Err (convert_error_into e), src)
      | Panic \<Rightarrow> (Panic, src)
      | Diverge \<Rightarrow> (Diverge, src)))))"

definition encode ::
  "bytes_crate \<Rightarrow> packet \<Rightarrow> u8 list \<Rightarrow> (unit, io_error) outcome \<times> u8 list" where
  "encode B item dst =
     with_buffer (packet_to_mqtt B item) dst (\<lambda>data.
     (Ok (), extend_from_slice B dst data))"

section \<open>Every outcome of the decoder\<close>

text \<open>The bytes a complete packet takes, read off its header.\<close>

definition packet_len :: "build \<Rightarrow> u8 list \<Rightarrow> nat conv" where
  "packet_len b src =
     andthen (slice_from src 1) (\<lambda>r.
     andthen (vbi_from_mqtt b r) (\<lambda>(len, vbi_len). Ok (vbi_plus len (1 + vbi_len))))"

lemma packet_len_bounds:
  "packet_len b src = Ok n \<Longrightarrow> 2 \<le> n \<and> n \<le> 268435460"
  using vbi_from_bounds(2,3) vbi_codec.dec_consumes
  by (fastforce simp: packet_len_def andthen_eq_Ok vbi_plus_def)

lemma MAX_never_exceeded: "vbi_from_mqtt b r = Ok (len, n) \<Longrightarrow> \<not> vbi_greater len PKT_MAX"
  using vbi_from_bounds(3) [of b r len n]
  by (simp add: vbi_greater_def PKT_MAX_def word_less_nat_alt)

lemma vbi_from_not_ZeroPktId [simp]: "vbi_from_mqtt b r \<noteq> Err ZeroPktId"
proof (cases "\<exists>j < 4. j < length r \<and> r ! j AND 128 = 0")
  case True
  then show ?thesis using vbi_from_outcome [of r b] by auto
next
  case False
  then show ?thesis using vbi_from_outcome [of r b] by (cases "length r \<le> 4") auto
qed

text \<open>
  The decoder in one equation: the cap on the length is never reached, and the packet is the
  prefix the header announces.
\<close>

lemma decode_eq:
  assumes "bytes_crate_spec B"
  shows "decode B b src =
    (if length src < 2 then (Ok None, src)
     else case parse_fixed_header (src ! 0) of
       Ok _ \<Rightarrow>
         (case packet_len b src of
            Ok n \<Rightarrow>
              if length src < n then (Ok None, src)
              else (parse_pkt b (take n src),
                if parse_pkt b (take n src) = Panic then src else drop n src)
          | Err e \<Rightarrow>
              (if e = NotEnoughBytes then Ok None else Err (convert_error_into e), src)
          | Panic \<Rightarrow> (Panic, src)
          | Diverge \<Rightarrow> (Diverge, src))
     | Err e \<Rightarrow> (Err (header_error (src ! 0) e), src)
     | Panic \<Rightarrow> (Panic, src)
     | Diverge \<Rightarrow> (Diverge, src))"
proof (cases "length src < 2")
  case False
  then obtain t r where src: "src = t # r" "r \<noteq> []" by (cases src) auto
  show ?thesis
  proof (cases "parse_fixed_header t")
    case (Ok ty)
    note Ty = this
    show ?thesis
    proof (cases "vbi_from_mqtt b r")
      case (Ok x)
      obtain len n where x: "x = (len, n)" by fastforce
      then have m: "\<not> vbi_greater len PKT_MAX" using Ok MAX_never_exceeded by blast
      show ?thesis
        using Ok Ty False src m x parse_pkt_returns [of b "take (vbi_plus len (1 + n)) src"]
        by (cases "parse_pkt b (take (vbi_plus len (1 + n)) src)")
          (auto simp: decode_def packet_len_def wire_simps slice_range_def Let_def
            bytes_crate_specD [OF assms])
    next
      case (Err e)
      then show ?thesis using Ty False src
        by (cases e) (auto simp: decode_def packet_len_def wire_simps)
    qed (use Ty False src in \<open>auto simp: decode_def packet_len_def wire_simps\<close>)
  qed (use False src in \<open>auto simp: decode_def wire_simps\<close>)
qed (simp add: decode_def)

lemma parse_pkt_not_None: "parse_pkt b data \<noteq> Ok None"
  using parse_pkt_eq_Ok [of b data None] by auto

lemma decode_returns: "bytes_crate_spec B \<Longrightarrow> fst (decode B b src) \<noteq> Diverge"
  using parse_pkt_returns vbi_codec.dec_returns
  by (auto simp: decode_eq packet_len_def andthen_eq_Diverge
      split: outcome.splits if_splits)

section \<open>Framing\<close>

lemma packet_len_extend:
  "src \<noteq> [] \<Longrightarrow> packet_len b src \<noteq> Err NotEnoughBytes \<Longrightarrow>
    packet_len b (src @ extra) = packet_len b src"
  by (cases src; cases "vbi_from_mqtt b (tl src)")
    (auto simp: packet_len_def wire_simps vbi_from_extend)

lemma packet_len_frame:
  assumes "length buf < 2 ^ 28"
  shows "packet_len b (t # vbi_to_mqtt (VBI (word_of_nat (length buf))) @ s) =
    Ok (length (frame t buf))"
proof -
  have "vbi_ok (VBI (word_of_nat (length buf)))"
    using vec_length_prefix(2) [OF assms] assms by (simp add: vbi_ok_def)
  then show ?thesis
    using vbi_codec.dec_enc_append vec_length_prefix(2) [OF assms]
    by (simp add: packet_len_def wire_simps vbi_plus_def header_len_def)
qed

text \<open>A success, an error or a panic does not depend on the bytes that follow.\<close>

lemma decode_extend:
  assumes "bytes_crate_spec B" "decode B b src = (r, src')" "r \<noteq> Ok None"
  shows "decode B b (src @ extra) = (r, src' @ extra)"
proof -
  have two: "\<not> length src < 2" "src \<noteq> []"
    using assms by (auto simp: decode_eq [OF assms(1)] split: if_splits)
  show ?thesis
  proof (cases "parse_fixed_header (src ! 0)")
    case (Ok ty)
    have "packet_len b src \<noteq> Err NotEnoughBytes"
      using assms two Ok by (auto simp: decode_eq [OF assms(1)])
    from packet_len_extend [OF two(2) this] show ?thesis
      using assms(2,3) two Ok
      by (auto simp: decode_eq [OF assms(1)] nth_append split: outcome.splits if_splits)
  next
    case (Err e)
    then show ?thesis
      using assms(2) two by (auto simp: decode_eq [OF assms(1)] nth_append)
  qed simp_all
qed

text \<open>A complete packet is cut off and parsed, whatever comes behind it.\<close>

lemma decode_frame:
  assumes "bytes_crate_spec B" "length buf < 2 ^ 28" "parse_fixed_header t = Ok ty"
    and "parse_pkt b (frame t buf) \<noteq> Panic"
  shows "decode B b (frame t buf @ rest) = (parse_pkt b (frame t buf), rest)"
proof -
  have f: "frame t buf @ rest = t # vbi_to_mqtt (VBI (word_of_nat (length buf))) @ buf @ rest"
    by (simp add: frame_def Let_def)
  have "packet_len b (frame t buf @ rest) = Ok (length (frame t buf))"
    unfolding f by (rule packet_len_frame [OF assms(2)])
  moreover have "2 \<le> length (frame t buf)"
    using packet_len_bounds [OF calculation] by simp
  ultimately show ?thesis
    using assms(3,4) by (simp add: decode_eq [OF assms(1)] del: length_frame)
qed

text \<open>An incomplete one is left alone.\<close>

lemma decode_prefix:
  assumes "bytes_crate_spec B" "length buf < 2 ^ 28" "parse_fixed_header t = Ok ty"
    and "frame t buf = s @ r" "r \<noteq> []"
  shows "decode B b s = (Ok None, s)"
proof (cases "length s < 2")
  case True
  then show ?thesis by (simp add: decode_def)
next
  case False
  define v where "v = VBI (word_of_nat (length buf))"
  have "t # vbi_to_mqtt v @ buf = s @ r" using assms(4) by (simp add: frame_def v_def Let_def)
  then obtain s' where s: "s = t # s'" and eq: "s' @ r = vbi_to_mqtt v @ buf"
    using False by (cases s) auto
  have ok: "vbi_ok v"
    using vec_length_prefix(2) [OF assms(2)] assms(2) by (simp add: vbi_ok_def v_def)
  from eq consider (vbi) r' where "vbi_to_mqtt v = s' @ r'" "r' \<noteq> []"
    | (body) s'' where "s' = vbi_to_mqtt v @ s''"
    unfolding append_eq_append_conv2 by (metis append_Nil2)
  then show ?thesis
  proof cases
    case vbi
    then have "packet_len b s = Err NotEnoughBytes"
      using vbi_from_prefix [OF ok] by (simp add: packet_len_def s wire_simps)
    then show ?thesis using False assms(3) s by (simp add: decode_eq [OF assms(1)])
  next
    case body
    then have "packet_len b s = Ok (length (frame t buf))"
      using packet_len_frame [OF assms(2)] by (simp add: s v_def)
    moreover have "length s < length (frame t buf)" using assms(4,5) by simp
    ultimately show ?thesis
      using False assms(3) s by (simp add: decode_eq [OF assms(1)] del: length_frame)
  qed
qed

text \<open>What is left is a suffix; nothing is lost while the decoder waits; a packet takes bytes.\<close>

lemma decode_rest:
  assumes "bytes_crate_spec B" "decode B b src = (r, src')"
  shows "\<exists>n. src' = drop n src \<and> n \<le> length src \<and>
    (r = Ok None \<longrightarrow> n = 0) \<and> (\<forall>p. r = Ok (Some p) \<longrightarrow> 2 \<le> n)"
proof (cases "2 \<le> length src \<and> (\<exists>ty. parse_fixed_header (src ! 0) = Ok ty) \<and>
    (\<exists>n. packet_len b src = Ok n \<and> n \<le> length src \<and> parse_pkt b (take n src) \<noteq> Panic)")
  case True
  then obtain ty n where n: "2 \<le> length src" "parse_fixed_header (src ! 0) = Ok ty"
      "packet_len b src = Ok n" "n \<le> length src" "parse_pkt b (take n src) \<noteq> Panic" by blast
  then have "r = parse_pkt b (take n src)" "src' = drop n src"
    using assms(2) by (simp_all add: decode_eq [OF assms(1)])
  then show ?thesis
    using n packet_len_bounds [of b src n] parse_pkt_not_None by (intro exI [of _ n]) simp
next
  case False
  then have "src' = src \<and> (\<forall>p. r \<noteq> Ok (Some p))"
    using assms(2) unfolding decode_eq [OF assms(1)]
    by (cases "parse_fixed_header (src ! 0)"; cases "packet_len b src") (auto split: if_splits)
  then show ?thesis by (intro exI [of _ 0]) simp
qed

text \<open>The decoder waits for at most 268435459 bytes.\<close>

lemma decode_waits_bounded:
  assumes "bytes_crate_spec B" "decode B b src = (Ok None, src')"
  shows "length src < 268435460"
proof (cases "packet_len b src")
  case (Ok n)
  then have "length src < 2 \<or> length src < n"
    using assms(2) parse_pkt_not_None by (auto simp: decode_eq [OF assms(1)] split: outcome.splits if_splits)
  then show ?thesis using packet_len_bounds [OF Ok] by linarith
next
  case (Err e)
  then show ?thesis
  proof (cases "length src < 2")
    case False
    then have "e = NotEnoughBytes"
      using assms(2) Err by (auto simp: decode_eq [OF assms(1)] split: outcome.splits if_splits)
    then show ?thesis using Err False
      by (cases src) (auto simp: packet_len_def wire_simps andthen_eq_Err vbi_from_NotEnough_iff)
  qed simp
qed (use assms(2) in \<open>auto simp: decode_eq [OF assms(1)] split: outcome.splits if_splits\<close>)

section \<open>Streams\<close>

text \<open>
  Calling the decoder until it waits for more bytes, and a transport that delivers the bytes
  in chunks, with such a round of calls after each.
\<close>

inductive drained ::
  "bytes_crate \<Rightarrow> build \<Rightarrow> u8 list \<Rightarrow> packet list \<Rightarrow> u8 list \<Rightarrow> bool" for B b
where
  drained_wait: "decode B b src = (Ok None, src') \<Longrightarrow> drained B b src [] src'"
| drained_packet: "decode B b src = (Ok (Some p), rest) \<Longrightarrow> drained B b rest ps src' \<Longrightarrow>
    drained B b src (p # ps) src'"

inductive fed ::
  "bytes_crate \<Rightarrow> build \<Rightarrow> u8 list \<Rightarrow> u8 list list \<Rightarrow> packet list \<Rightarrow> u8 list \<Rightarrow> bool" for B b
where
  fed_Nil: "fed B b buf [] [] buf"
| fed_Cons: "drained B b (buf @ c) ps buf' \<Longrightarrow> fed B b buf' cs qs buf'' \<Longrightarrow>
    fed B b buf (c # cs) (ps @ qs) buf''"

lemma decode_wait_same:
  "bytes_crate_spec B \<Longrightarrow> decode B b src = (Ok None, src') \<Longrightarrow> src' = src"
  using decode_rest [of B b src "Ok None" src'] by auto

text \<open>The part of a stream that has arrived yields a first part of its packets.\<close>

lemma drained_split:
  assumes "bytes_crate_spec B" "drained B b (s @ x) ps t"
  shows "\<exists>qs s' ps'. drained B b s qs s' \<and> ps = qs @ ps' \<and> drained B b (s' @ x) ps' t"
  using assms(2)
proof (induction "s @ x" ps t arbitrary: s)
  case (drained_wait src')
  have "fst (decode B b s) = Ok None"
    using decode_extend [OF assms(1), of b s _ _ x] drained_wait by (metis fst_conv prod.collapse)
  then have "decode B b s = (Ok None, s)"
    using decode_wait_same [OF assms(1)] by (metis prod.collapse)
  then show ?case using drained_wait drained.intros by (metis append_Nil)
next
  case (drained_packet p rest ps src')
  obtain r s1 where r: "decode B b s = (r, s1)" by fastforce
  show ?case
  proof (cases "r = Ok None")
    case True
    then have "drained B b s [] s"
      using r decode_wait_same [OF assms(1)] drained.intros by metis
    then show ?thesis using drained_packet(1,2) drained.drained_packet by (metis append_Nil)
  next
    case False
    then have eq: "r = Ok (Some p)" "rest = s1 @ x"
      using decode_extend [OF assms(1) r] drained_packet(1) by auto
    obtain qs s' ps' where "drained B b s1 qs s'" "ps = qs @ ps'" "drained B b (s' @ x) ps' src'"
      using drained_packet(3) [OF eq(2)] by blast
    then show ?thesis using r eq drained.drained_packet by (metis append_Cons)
  qed
qed

lemma fed_any_chunks:
  assumes "bytes_crate_spec B" "drained B b (buf @ concat cs) ps t" "drained B b buf [] buf"
  shows "fed B b buf cs ps t"
  using assms(2,3)
proof (induction cs arbitrary: buf ps)
  case Nil
  from Nil(2) have "decode B b buf = (Ok None, buf)" by (auto elim: drained.cases)
  then have "ps = [] \<and> t = buf" using Nil(1) by (auto elim: drained.cases)
  then show ?case by (simp add: fed_Nil)
next
  case (Cons c cs)
  have "drained B b ((buf @ c) @ concat cs) ps t" using Cons.prems(1) by simp
  from drained_split [OF assms(1) this]
  obtain qs s' ps' where 1: "drained B b (buf @ c) qs s'" "ps = qs @ ps'"
      "drained B b (s' @ concat cs) ps' t" by blast
  from 1(1) have "drained B b s' [] s'"
  proof induction
    case (drained_wait src src')
    then show ?case using decode_wait_same [OF assms(1)] drained.drained_wait by metis
  qed
  then show ?case using 1 Cons.IH fed_Cons by metis
qed

text \<open>
  The same loop as a function, with a bound on its rounds: the packets, how it ended, and the
  bytes it left. It ends with \<open>Ok\<close> when the decoder waits.
\<close>

fun drain ::
  "bytes_crate \<Rightarrow> build \<Rightarrow> nat \<Rightarrow> u8 list \<Rightarrow> (packet list \<times> (unit, io_error) outcome \<times> u8 list) option"
where
  "drain B b 0 src = None"
| "drain B b (Suc n) src =
     (case decode B b src of
        (Ok (Some p), rest) \<Rightarrow> map_option (\<lambda>(ps, r, src'). (p # ps, r, src')) (drain B b n rest)
      | (Ok None, src') \<Rightarrow> Some ([], Ok (), src')
      | (Err e, src') \<Rightarrow> Some ([], Err e, src')
      | (Panic, src') \<Rightarrow> Some ([], Panic, src')
      | (Diverge, src') \<Rightarrow> Some ([], Diverge, src'))"

lemma drain_drained: "drain B b n src = Some (ps, Ok (), src') \<Longrightarrow> drained B b src ps src'"
proof (induction n arbitrary: src ps)
  case (Suc n)
  then show ?case
    by (fastforce split: prod.splits outcome.splits option.splits intro: drained.intros)
qed simp

lemma drain_enough:
  assumes "bytes_crate_spec B" "length src < 2 * n"
  shows "\<exists>ps r src'. drain B b n src = Some (ps, r, src') \<and> r \<noteq> Diverge \<and>
    2 * length ps + length src' \<le> length src"
  using assms(2)
proof (induction n arbitrary: src)
  case (Suc n)
  obtain r rest where d: "decode B b src = (r, rest)" by fastforce
  obtain k where k: "rest = drop k src" "k \<le> length src" "\<forall>p. r = Ok (Some p) \<longrightarrow> 2 \<le> k"
    using decode_rest [OF assms(1) d] by blast
  show ?case
  proof (cases "\<exists>p. r = Ok (Some p)")
    case True
    then obtain p where p: "r = Ok (Some p)" by blast
    then have "length rest < 2 * n" using k Suc.prems by simp
    from Suc.IH [OF this] show ?thesis using d k p by fastforce
  next
    case False
    moreover have "r \<noteq> Diverge" using decode_returns [OF assms(1), of b src] d by simp
    ultimately show ?thesis using d k by (auto split: outcome.splits option.splits)
  qed
qed simp

text \<open>A stream of packets that parse is delivered packet by packet.\<close>

definition framed_as :: "build \<Rightarrow> u8 list \<Rightarrow> packet \<Rightarrow> bool" where
  "framed_as b bytes p \<longleftrightarrow>
     (\<exists>t ty buf. bytes = frame t buf \<and> length buf < 2 ^ 28 \<and> parse_fixed_header t = Ok ty \<and>
       parse_pkt b bytes = Ok (Some p))"

lemma framed_as_decode:
  "bytes_crate_spec B \<Longrightarrow> framed_as b bytes p \<Longrightarrow> decode B b (bytes @ rest) = (Ok (Some p), rest)"
  by (auto simp: framed_as_def decode_frame)

lemma drained_frames:
  assumes "bytes_crate_spec B" "list_all2 (framed_as b) frames ps"
  shows "drained B b (concat frames) ps []"
  using assms(2)
proof (induction rule: list_all2_induct)
  case Nil
  show ?case by (rule drained_wait) (simp add: decode_def)
next
  case (Cons bytes frames p ps)
  then show ?case using drained_packet [OF framed_as_decode [OF assms(1)]] by simp
qed

lemma fed_frames:
  assumes "bytes_crate_spec B" "list_all2 (framed_as b) frames ps" "concat cs = concat frames"
  shows "fed B b [] cs ps []"
proof (rule fed_any_chunks [OF assms(1)])
  show "drained B b ([] @ concat cs) ps []" using drained_frames [OF assms(1,2)] assms(3) by simp
  show "drained B b [] [] []" by (rule drained_wait) (simp add: decode_def)
qed

section \<open>What the peer reads\<close>

lemma publish_framed_as:
  assumes "bytes_crate_spec B" "publish_ok B p"
  shows "\<exists>bytes. packet_to_mqtt B (PublishPkt p) = (Ok bytes :: (u8 list, io_error) outcome) \<and>
    framed_as b bytes (PublishPkt p)"
proof -
  let ?t = "0b00110000 + publish_flags_to_u8 (flags p)"
  have wf: "pktid p = None \<longleftrightarrow> qos (flags p) = AtMostOnce"
    using assms(2) by (simp add: publish_ok_def publish_wf_def)
  have "parse_body b PublishType (frame ?t (publish_buf B p)) = Ok (Some (PublishPkt p))"
    using publish_from_frame [OF assms(2), of b "[]"] by (simp add: parse_body_def)
  then have "parse_pkt b (frame ?t (publish_buf B p)) = Ok (Some (PublishPkt p))"
    by (intro parse_pkt_frame_Ok [of _ PublishType]) (simp_all add: publish_first_byte)
  then have "framed_as b (frame ?t (publish_buf B p)) (PublishPkt p)"
    using assms(2) publish_first_byte [of "flags p"] unfolding framed_as_def
    by (intro exI [of _ ?t] exI [of _ PublishType] exI [of _ "publish_buf B p"])
      (simp add: publish_ok_def parse_fixed_header_def packet_type_try_from_eq_Ok)
  moreover have "packet_to_mqtt B (PublishPkt p) =
      (Ok (frame ?t (publish_buf B p)) :: (u8 list, io_error) outcome)"
    using wf by (simp add: packet_to_mqtt_def publish_to_mqtt_eq)
  ultimately show ?thesis by blast
qed

lemma encode_appends:
  assumes "bytes_crate_spec B" "packet_to_mqtt B p = (Ok bytes :: (u8 list, io_error) outcome)"
  shows "encode B p dst = (Ok (), dst @ bytes)"
  using assms by (simp add: encode_def bytes_crate_specD)

section \<open>Properties\<close>

text \<open>C8: PUBLISH packets that satisfy \<open>publish_ok\<close> (an identifier, not zero, exactly when
  the quality of service is above zero, a text payload exactly when a format property says UTF-8,
  an encodable topic and encodable properties, without a message expiry interval, which the
  decoder misreads, and less than 2^28 bytes), written back to back and
  delivered in chunks of any sizes, are decoded one by one, in order and complete, and no byte
  is left over.\<close>

theorem stream_chunks:
  assumes "bytes_crate_spec B" "concat cs = concat frames"
    and "list_all2 (\<lambda>p f. publish_ok B p \<and>
      packet_to_mqtt B (PublishPkt p) = (Ok f :: (u8 list, io_error) outcome)) ps frames"
  shows "fed B b [] cs (map PublishPkt ps) []"
proof (rule fed_frames [OF assms(1) _ assms(2)])
  have "framed_as b f (PublishPkt p)"
    if "publish_ok B p \<and> packet_to_mqtt B (PublishPkt p) = (Ok f :: (u8 list, io_error) outcome)" for p f
    using publish_framed_as [OF assms(1)] that by fastforce
  then show "list_all2 (framed_as b) frames (map PublishPkt ps)"
    using assms(3) by (auto simp: list_all2_conv_all_nth)
qed

lemma small_publish:
  "publish_ok bytes_model (at_most_once [97] (PayloadBytes []) False [])"
  "publish_to_mqtt bytes_model (at_most_once [97] (PayloadBytes []) False []) = Ok [0x30, 4, 0, 1, 97, 0]"
proof -
  let ?p = "at_most_once [97] (PayloadBytes []) False []"
  have "publish_buf bytes_model ?p = [0, 1, 97, 0]"
    by (simp add: at_most_once_def publish_new_def publish_buf_def properties_to_mqtt_def
        vec_to_mqtt_def string_to_mqtt_def payload_to_mqtt_def u16_to_be_bytes_def vbi_to_mqtt_def
        vbi_bytes.simps [of 0])
  then show "publish_ok bytes_model ?p" "publish_to_mqtt bytes_model ?p = Ok [0x30, 4, 0, 1, 97, 0]"
    by (simp_all add: publish_to_mqtt_eq publish_ok_def publish_wf_def at_most_once_def publish_new_def
        string_ok_def in_range_def vec_ok_def publish_flags_to_u8_def frame_def vbi_to_mqtt_def
        vbi_bytes.simps [of 4])
qed

theorem stream_chunks_witness:
  "fed bytes_model Checked [] [[0x30], [4, 0, 1, 97, 0, 0x30, 4], [], [0, 1, 97, 0]]
    (map PublishPkt [at_most_once [97] (PayloadBytes []) False [],
      at_most_once [97] (PayloadBytes []) False []]) []"
  by (rule stream_chunks [where frames = "[[0x30, 4, 0, 1, 97, 0], [0x30, 4, 0, 1, 97, 0]]"])
    (simp_all add: small_publish packet_to_mqtt_def)

text \<open>C9: a buffer that holds only a part of a packet is left alone until there is more; one
  that begins with a complete packet yields what parsing exactly that packet gives, and keeps
  the rest.\<close>

theorem decode_frames:
  assumes "bytes_crate_spec B" "length buf < 2 ^ 28" "parse_fixed_header t = Ok ty"
  shows "(frame t buf = s @ r \<and> r \<noteq> [] \<longrightarrow> decode B b s = (Ok None, s)) \<and>
    (parse_pkt b (frame t buf) \<noteq> Panic \<longrightarrow>
      decode B b (frame t buf @ rest) = (parse_pkt b (frame t buf), rest))"
  using decode_prefix [OF assms] decode_frame [OF assms] by blast

theorem decode_frames_witness:
  "decode bytes_model Checked [0xD0] = (Ok None, [0xD0]) \<and>
    decode bytes_model Checked ([0xD0, 0] @ [7, 8]) = (Ok (Some (PingRespPkt PingRespPacket)), [7, 8])"
proof -
  have f: "frame 0xD0 [] = [0xD0, 0]"
    by (simp add: frame_def vbi_to_mqtt_def vbi_bytes.simps [of 0])
  have h: "parse_fixed_header 0xD0 = Ok PingResponseType"
    by (simp add: parse_fixed_header_def packet_type_try_from_def drop_bit_eq_div)
  have "parse_pkt Checked [0xD0, 0] = Ok (Some (PingRespPkt PingRespPacket))"
    by (simp add: parse_pkt_Cons h parse_body_def pingresp_from_mqtt_def)
  then show ?thesis
    using decode_frames [OF bytes_model_spec _ h, of "[]" "[0xD0]" "[0]" Checked "[7, 8]"] by (simp add: f)
qed

text \<open>C15: once the decoder has an answer, be it a packet, an error or a panic, the bytes
  that come behind do not change it, and they stay in the buffer; what it leaves is a suffix,
  shorter by at least two bytes when it returned a packet.\<close>

theorem decode_decided:
  assumes "bytes_crate_spec B" "decode B b src = (r, src')" "r \<noteq> Ok None"
  shows "decode B b (src @ extra) = (r, src' @ extra) \<and>
    (\<exists>n \<le> length src. src' = drop n src \<and> ((\<exists>p. r = Ok (Some p)) \<longrightarrow> 2 \<le> n))"
  using decode_extend [OF assms] decode_rest [OF assms(1,2)] by blast

theorem decode_decided_witness:
  "fst (decode bytes_model Wrapping ([5, 0] @ [1, 2, 3])) =
    Err (IoError InvalidData (BadHeaderByte 5 (BadPacketType 5)))"
proof -
  have "decode bytes_model Wrapping [5, 0] =
      (Err (IoError InvalidData (BadHeaderByte 5 (BadPacketType 5))), [5, 0])"
    by (simp add: decode_def wire_simps parse_fixed_header_def packet_type_try_from_def drop_bit_eq_div
        header_error_def)
  from decode_decided [OF bytes_model_spec this, of "[1, 2, 3]"] show ?thesis by simp
qed

text \<open>C16: the calls of the decoder that follow a read end: every packet takes two bytes
  or more, so half as many rounds as there are bytes reach the point where it waits, refuses or
  panics, and no call runs for ever.\<close>

theorem drain_terminates:
  assumes "bytes_crate_spec B" "length src < 2 * n"
  shows "\<exists>ps r src'. drain B b n src = Some (ps, r, src') \<and> r \<noteq> Diverge \<and>
    2 * length ps + length src' \<le> length src \<and> (r = Ok () \<longrightarrow> drained B b src ps src')"
  using drain_enough [OF assms] drain_drained by metis

theorem drain_terminates_witness:
  "\<exists>ps r src'. drain bytes_model Checked 3 [0xD0, 0, 0xD0, 0, 0x30] = Some (ps, r, src') \<and>
    r \<noteq> Diverge \<and> length ps \<le> 2"
  using drain_terminates [OF bytes_model_spec, of "[0xD0, 0, 0xD0, 0, 0x30]" 3 Checked] by fastforce

text \<open>C33: the decoder waits for more bytes only while it holds fewer than 268435460, and does
  not touch them; and no packet is ever refused for its length, since four bytes of a variable
  byte integer cannot exceed the limit.\<close>

theorem decode_bounds:
  assumes "bytes_crate_spec B" "decode B b src = (r, src')"
  shows "(r = Ok None \<longrightarrow> length src < 268435460 \<and> src' = src) \<and>
    (\<forall>v k. r \<noteq> Err (IoError InvalidData (PacketTooLong v k)))"
proof
  show "r = Ok None \<longrightarrow> length src < 268435460 \<and> src' = src"
    using decode_waits_bounded [OF assms(1)] decode_wait_same [OF assms(1)] assms(2) by blast
  have "parse_pkt b bs \<noteq> Err (IoError InvalidData (PacketTooLong v k))" for bs v k
    by (auto simp: parse_pkt_def andthen_eq_Err header_error_def parse_error_def
        elim!: map_err.elims split: convert_error.splits)
  then show "\<forall>v k. r \<noteq> Err (IoError InvalidData (PacketTooLong v k))"
    using assms(2) unfolding decode_eq [OF assms(1)]
    by (cases "parse_fixed_header (src ! 0)"; cases "packet_len b src")
      (auto simp: header_error_def convert_error_into_def split: if_splits)
qed

theorem decode_bounds_witness:
  "decode bytes_model Checked [0x30, 0xFF, 0xFF] = (Ok None, [0x30, 0xFF, 0xFF]) \<and>
    length [0x30 :: u8, 0xFF, 0xFF] < 268435460"
proof -
  have "vbi_from_mqtt Checked [0xFF, 0xFF] = Err NotEnoughBytes"
    by (simp add: vbi_from_NotEnough_iff)
  then have "decode bytes_model Checked [0x30, 0xFF, 0xFF] = (Ok None, [0x30, 0xFF, 0xFF])"
    by (simp add: decode_def wire_simps parse_fixed_header_def packet_type_try_from_def drop_bit_eq_div)
  from decode_bounds [OF bytes_model_spec this] this show ?thesis by blast
qed

end
