(* ===== verification/Pktids.thy ===== *)
theory Pktids
  imports Wire
begin

text \<open>
  The pool of packet identifiers of \<^verbatim>\<open>src/pktids.rs\<close>: a linked list of ranges of free
  identifiers, kept in a vector of nodes that point at each other by index. The ranges of
  the list are ascending; node 0 is always vacant and ends the list.
\<close>

section \<open>The code\<close>

datatype node = Vacant | Taken u16 u16 nat

record pkt_ids =
  pi_start :: nat
  ranges :: "node list"

definition new_with_max :: "pktid \<Rightarrow> pkt_ids" where
  "new_with_max mx = (let node = Taken 1 mx 0 in \<lparr>pi_start = 1, ranges = [Vacant, node]\<rparr>)"

definition pktids_new :: pkt_ids where
  "pktids_new = new_with_max 65535"

text \<open>
  What \<^verbatim>\<open>next_id\<close> does with the node it took out: the identifier, the node as it was changed,
  the node to put back instead of it, and the new start of the list. The vector \<open>rs\<close> has
  \<open>Vacant\<close> in the place of the node.
\<close>

definition next_in_node ::
  "build \<Rightarrow> node list \<Rightarrow> nat \<Rightarrow> node \<Rightarrow> (u16 option \<times> node \<times> node option \<times> nat, 'e) outcome" where
  "next_in_node b rs old_start nd =
     (case nd of
        Vacant \<Rightarrow> Ok (None, nd, None, old_start)
      | Taken lo hi next \<Rightarrow>
          if hi \<le> lo then
            (if get_at rs next = Some Vacant then
               andthen (uadd b lo 1) (\<lambda>lo'.
               Ok (if lo \<noteq> hi then None else Some lo, Taken lo' hi next, None, old_start))
             else Ok (Some lo, nd, Some Vacant, next))
          else
            andthen (uadd b lo 1) (\<lambda>lo'.
            Ok (Some lo, Taken lo' hi next, None, old_start)))"

definition next_id :: "build \<Rightarrow> pkt_ids \<Rightarrow> (pktid option \<times> pkt_ids, 'e) outcome" where
  "next_id b s =
     (let old_start = pi_start s in
      case get_at (ranges s) old_start of
        None \<Rightarrow> Ok (None, s)
      | Some nd \<Rightarrow>
          let rs = (ranges s)[old_start := Vacant] in
          andthen (next_in_node b rs old_start nd) (\<lambda>(result, nd, new_node, start').
          let put_back = (case new_node of Some n \<Rightarrow> n | None \<Rightarrow> nd) in
          Ok (case result of Some i \<Rightarrow> pktid_new i | None \<Rightarrow> None,
              \<lparr>pi_start = start', ranges = rs[old_start := put_back]\<rparr>)))"

text \<open>
  The \<^verbatim>\<open>while let\<close> loop of \<^verbatim>\<open>return_id\<close>. Nothing in it bounds the number of its steps, so not
  returning is the value \<open>None\<close>.
\<close>

partial_function (option) find_slot ::
  "node list \<Rightarrow> u16 \<Rightarrow> nat option \<Rightarrow> nat \<Rightarrow> (nat option \<times> nat) option" where
  "find_slot rs i prev_idx next_idx =
     (case get_at rs next_idx of
        Some nd \<Rightarrow>
          (case nd of
             Taken lo hi next \<Rightarrow>
               if i < lo then Some (prev_idx, next_idx)
               else find_slot rs i (Some next_idx) next
           | Vacant \<Rightarrow> Some (prev_idx, next_idx))
      | None \<Rightarrow> Some (prev_idx, next_idx))"

definition maybe_extend_next_node ::
  "build \<Rightarrow> node list \<Rightarrow> nat \<Rightarrow> u16 \<Rightarrow> (bool \<times> node list, 'e) outcome" where
  "maybe_extend_next_node b rs next_node i =
     (case get_at rs next_node of
        None \<Rightarrow> Panic
      | Some Vacant \<Rightarrow> Ok (False, rs)
      | Some (Taken lo hi next) \<Rightarrow>
          andthen (usub b lo 1) (\<lambda>x.
          if x = i then Ok (True, rs[next_node := Taken i hi next]) else Ok (False, rs)))"

definition maybe_extend_prev_node ::
  "build \<Rightarrow> node list \<Rightarrow> nat \<Rightarrow> u16 \<Rightarrow> (bool \<times> node list, 'e) outcome" where
  "maybe_extend_prev_node b rs prev_node i =
     (case get_at rs prev_node of
        None \<Rightarrow> Panic
      | Some Vacant \<Rightarrow> Ok (False, rs)
      | Some (Taken lo hi next) \<Rightarrow>
          andthen (uadd b hi 1) (\<lambda>x.
          if x = i then Ok (True, rs[prev_node := Taken lo i next]) else Ok (False, rs)))"

text \<open>A vacant node other than node 0, or a new one; and the assignment to a node.\<close>

definition vacant_slot :: "node list \<Rightarrow> (nat \<times> node list, 'e) outcome" where
  "vacant_slot rs =
     andthen (slice_from rs 1) (\<lambda>r.
     case position (\<lambda>nd. nd = Vacant) r of
       Some v \<Rightarrow> Ok (v + 1, rs)
     | None \<Rightarrow> Ok (length (rs @ [Vacant]) - 1, rs @ [Vacant]))"

definition set_at :: "'a list \<Rightarrow> nat \<Rightarrow> 'a \<Rightarrow> ('a list, 'e) outcome" where
  "set_at xs k x = (if k < length xs then Ok (xs[k := x]) else Panic)"

definition insert_head ::
  "build \<Rightarrow> pkt_ids \<Rightarrow> nat \<Rightarrow> pktid \<Rightarrow> (pkt_ids, 'e) outcome" where
  "insert_head b s next_idx i =
     andthen (maybe_extend_next_node b (ranges s) next_idx i) (\<lambda>(extended, rs).
     if extended then Ok (s\<lparr>ranges := rs\<rparr>)
     else
       andthen (vacant_slot rs) (\<lambda>(vacant_idx, rs).
       andthen (set_at rs vacant_idx (Taken i i (pi_start s))) (\<lambda>rs.
       Ok \<lparr>pi_start = vacant_idx, ranges = rs\<rparr>)))"

definition insert_between ::
  "build \<Rightarrow> pkt_ids \<Rightarrow> nat \<Rightarrow> nat \<Rightarrow> pktid \<Rightarrow> (pkt_ids, 'e) outcome" where
  "insert_between b s prev_idx next_idx i =
     andthen (maybe_extend_prev_node b (ranges s) prev_idx i) (\<lambda>(extended, rs).
     if extended then Ok (s\<lparr>ranges := rs\<rparr>)
     else
       andthen (maybe_extend_next_node b rs next_idx i) (\<lambda>(extended, rs).
       if extended then Ok (s\<lparr>ranges := rs\<rparr>)
       else
         andthen (vacant_slot rs) (\<lambda>(vacant_idx, rs).
         andthen (set_at rs vacant_idx (Taken i i next_idx)) (\<lambda>rs.
         case get_at rs prev_idx of
           None \<Rightarrow> Panic
         | Some Vacant \<Rightarrow> Panic
         | Some (Taken lo hi _) \<Rightarrow>
             Ok (s\<lparr>ranges := rs[prev_idx := Taken lo hi vacant_idx]\<rparr>)))))"

definition return_id :: "build \<Rightarrow> pkt_ids \<Rightarrow> pktid \<Rightarrow> (pkt_ids, 'e) outcome" where
  "return_id b s i =
     (case find_slot (ranges s) i None (pi_start s) of
        None \<Rightarrow> Diverge
      | Some (prev_idx, next_idx) \<Rightarrow>
          (case prev_idx of
             None \<Rightarrow> insert_head b s next_idx i
           | Some prev_idx \<Rightarrow> insert_between b s prev_idx next_idx i))"

end
