(* ===== verification/Client.thy ===== *)
theory Client
  imports Publish Connack Suback Unsuback
begin

text \<open>
  The client's half of \<^verbatim>\<open>src/client.rs\<close>: the publish builder, the commands it sends to the
  event loop, and the notifications that come back. The bounded channel between the two is
  \<^verbatim>\<open>futures::channel::mpsc\<close>, a parameter of the operations.
\<close>

section \<open>Commands and notifications\<close>

datatype command =
    CmdPublish rstring payload "property list" qos bool
  | CmdSubscribe rstring qos
  | CmdUnsubscribe "rstring list"
  | CmdDisconnect

text \<open>A \<^verbatim>\<open>format!("{:?}", m)\<close> text is represented by the value it prints.\<close>

datatype 'm notification =
    NConnAck connack
  | NSubAck suback
  | NMessage 'm
  | NUnsubAck unsuback

section \<open>The publish builder\<close>

record publish_builder =
  pb_topic :: rstring
  pb_payload :: payload
  pb_properties :: "property list"
  pb_qos :: "qos option"
  pb_retain :: "bool option"

definition from_bytes :: "rstring \<Rightarrow> u8 list \<Rightarrow> publish_builder" where
  "from_bytes t p =
     \<lparr>pb_topic = t, pb_payload = PayloadBytes p, pb_properties = [PayloadFormatId 0],
      pb_qos = None, pb_retain = None\<rparr>"

definition from_str :: "rstring \<Rightarrow> rstring \<Rightarrow> publish_builder" where
  "from_str t p =
     \<lparr>pb_topic = t, pb_payload = PayloadString p, pb_properties = [PayloadFormatId 1],
      pb_qos = None, pb_retain = None\<rparr>"

definition builder_qos :: "publish_builder \<Rightarrow> qos \<Rightarrow> publish_builder" where
  "builder_qos pb q = pb\<lparr>pb_qos := Some q\<rparr>"

definition with_property :: "publish_builder \<Rightarrow> property \<Rightarrow> publish_builder" where
  "with_property pb p = pb\<lparr>pb_properties := pb_properties pb @ [p]\<rparr>"

definition build_command :: "publish_builder \<Rightarrow> command" where
  "build_command pb =
     CmdPublish (pb_topic pb) (pb_payload pb) (pb_properties pb)
       (case pb_qos pb of Some q \<Rightarrow> q | None \<Rightarrow> AtMostOnce)
       (case pb_retain pb of Some r \<Rightarrow> r | None \<Rightarrow> False)"

section \<open>The client\<close>

text \<open>
  \<^verbatim>\<open>Sender::try_send\<close> of the \<^verbatim>\<open>futures\<close> crate: \<open>None\<close> when the channel is full or its receiver is
  gone. What it promises is stated over the commands the receiver has yet to read and over the
  number of messages the channel is sure to take: a message it takes comes behind the others,
  it takes one while it has a slot, and that uses up at most this slot.
\<close>

type_synonym 'c try_send = "'c \<Rightarrow> command \<Rightarrow> 'c option"

definition try_send_spec :: "'c try_send \<Rightarrow> ('c \<Rightarrow> command list) \<Rightarrow> ('c \<Rightarrow> nat) \<Rightarrow> bool" where
  "try_send_spec send pending slots \<longleftrightarrow>
     (\<forall>c m c'. send c m = Some c' \<longrightarrow> pending c' = pending c @ [m] \<and> slots c \<le> Suc (slots c')) \<and>
     (\<forall>c m. 0 < slots c \<longrightarrow> send c m \<noteq> None)"

text \<open>A channel with that behaviour, for the witnesses: a capacity and the commands.\<close>

definition list_send :: "(nat \<times> command list) try_send" where
  "list_send c m = (case c of (cap, ms) \<Rightarrow> if length ms < cap then Some (cap, ms @ [m]) else None)"

definition list_slots :: "nat \<times> command list \<Rightarrow> nat" where
  "list_slots c = fst c - length (snd c)"

lemma list_send_spec [simp]: "try_send_spec list_send snd list_slots"
  by (auto simp: try_send_spec_def list_send_def list_slots_def split: if_splits prod.splits)

datatype client_error = SubscribeSendFailed | PublishSendFailed | UnsubscribeSendFailed
  | DisconnectSendFailed

definition try_send_with_context ::
  "'c try_send \<Rightarrow> 'c \<Rightarrow> command \<Rightarrow> client_error \<Rightarrow> (unit, client_error) outcome \<times> 'c" where
  "try_send_with_context send c m e =
     (case send c m of Some c' \<Rightarrow> (Ok (), c') | None \<Rightarrow> (Err e, c))"

definition client_connect :: "'c \<Rightarrow> (unit, client_error) outcome \<times> 'c" where
  "client_connect c = (Ok (), c)"

definition client_subscribe ::
  "'c try_send \<Rightarrow> 'c \<Rightarrow> rstring \<Rightarrow> qos \<Rightarrow> (unit, client_error) outcome \<times> 'c" where
  "client_subscribe send c t q = try_send_with_context send c (CmdSubscribe t q) SubscribeSendFailed"

definition client_publish ::
  "'c try_send \<Rightarrow> 'c \<Rightarrow> publish_builder \<Rightarrow> (unit, client_error) outcome \<times> 'c" where
  "client_publish send c pb = try_send_with_context send c (build_command pb) PublishSendFailed"

definition client_unsubscribe ::
  "'c try_send \<Rightarrow> 'c \<Rightarrow> rstring \<Rightarrow> (unit, client_error) outcome \<times> 'c" where
  "client_unsubscribe send c t =
     try_send_with_context send c (CmdUnsubscribe [t]) UnsubscribeSendFailed"

definition client_disconnect :: "'c try_send \<Rightarrow> 'c \<Rightarrow> (unit, client_error) outcome \<times> 'c" where
  "client_disconnect send c = try_send_with_context send c CmdDisconnect DisconnectSendFailed"

lemmas client_defs =
  client_connect_def client_subscribe_def client_publish_def client_unsubscribe_def
  client_disconnect_def try_send_with_context_def

section \<open>A sequence of requests\<close>

text \<open>A call of one of the client's methods, and the calls of a user one after the other.\<close>

datatype request =
    AskSubscribe rstring qos | AskPublish publish_builder | AskUnsubscribe rstring | AskDisconnect

fun client_request :: "'c try_send \<Rightarrow> 'c \<Rightarrow> request \<Rightarrow> (unit, client_error) outcome \<times> 'c" where
  "client_request send c (AskSubscribe t q) = client_subscribe send c t q"
| "client_request send c (AskPublish pb) = client_publish send c pb"
| "client_request send c (AskUnsubscribe t) = client_unsubscribe send c t"
| "client_request send c AskDisconnect = client_disconnect send c"

fun client_requests ::
  "'c try_send \<Rightarrow> 'c \<Rightarrow> request list \<Rightarrow> (unit, client_error) outcome list \<times> 'c" where
  "client_requests send c [] = ([], c)"
| "client_requests send c (r # rs) =
     (let (x, c) = client_request send c r; (xs, c) = client_requests send c rs in (x # xs, c))"

fun request_command :: "request \<Rightarrow> command" where
  "request_command (AskSubscribe t q) = CmdSubscribe t q"
| "request_command (AskPublish pb) = build_command pb"
| "request_command (AskUnsubscribe t) = CmdUnsubscribe [t]"
| "request_command AskDisconnect = CmdDisconnect"

lemma client_request_sent:
  assumes "try_send_spec send pending slots" "0 < slots c"
  shows "\<exists>c'. client_request send c r = (Ok (), c') \<and> pending c' = pending c @ [request_command r] \<and>
    slots c \<le> Suc (slots c')"
proof -
  obtain c' where "send c (request_command r) = Some c'"
    using assms unfolding try_send_spec_def by blast
  then show ?thesis using assms(1) by (cases r) (auto simp: client_defs try_send_spec_def)
qed

lemma client_request_refused:
  "client_request send c r = (Err e, c') \<Longrightarrow> c' = c \<and> send c (request_command r) = None"
  by (cases r) (auto simp: client_defs split: option.splits)

lemma client_requests_sent:
  assumes "try_send_spec send pending slots"
  shows "length rs \<le> slots c \<Longrightarrow>
    \<exists>c'. client_requests send c rs = (replicate (length rs) (Ok ()), c') \<and>
      pending c' = pending c @ map request_command rs \<and> slots c \<le> slots c' + length rs"
proof (induction rs arbitrary: c)
  case (Cons r rs)
  then have "0 < slots c" by simp
  from client_request_sent [OF assms this, of r] obtain c1 where
    c1: "client_request send c r = (Ok (), c1)" "pending c1 = pending c @ [request_command r]"
      "slots c \<le> Suc (slots c1)" by blast
  then have "length rs \<le> slots c1" using Cons.prems by simp
  from Cons.IH [OF this] c1 show ?case by auto
qed simp

section \<open>What a builder builds\<close>

text \<open>
  A builder started by \<^verbatim>\<open>from_str\<close> or \<^verbatim>\<open>from_bytes\<close> and refined with further properties keeps
  the payload format flag in step with the payload, as long as no property added says UTF-8
  to a byte payload.
\<close>

definition format_agrees :: "payload \<Rightarrow> property list \<Rightarrow> bool" where
  "format_agrees p ps \<longleftrightarrow>
     (case p of
        PayloadString s \<Rightarrow> list_ex is_utf8_format ps
      | PayloadBytes d \<Rightarrow> \<not> list_ex is_utf8_format ps)"

lemma format_agrees_builder:
  "format_agrees (pb_payload (from_str t s)) (pb_properties (from_str t s))"
  "format_agrees (pb_payload (from_bytes t d)) (pb_properties (from_bytes t d))"
  "format_agrees (pb_payload pb) (pb_properties pb) \<Longrightarrow> \<not> is_utf8_format p \<Longrightarrow>
    format_agrees (pb_payload (with_property pb p)) (pb_properties (with_property pb p))"
  "format_agrees (pb_payload (builder_qos pb q)) (pb_properties (builder_qos pb q)) \<longleftrightarrow>
    format_agrees (pb_payload pb) (pb_properties pb)"
  by (auto simp: format_agrees_def from_str_def from_bytes_def with_property_def builder_qos_def
      is_utf8_format_def split: payload.splits)

end
