(* ===== verification/Event_Loop.thy ===== *)
theory Event_Loop
  imports Packet_Codec Pktids Client
begin

text \<open>
  The event loop of \<^verbatim>\<open>src/lib.rs\<close>: the future the user polls, the handshake, and the
  \<^verbatim>\<open>select!\<close> loop as a step function over the events that wake it.
\<close>

section \<open>The outer future\<close>

text \<open>
  \<^verbatim>\<open>EventLoop::poll\<close> waits for the TCP connection, then hands the command receiver to the
  MQTT future and polls that one. The results of the two inner futures in this call are
  arguments; the texts of \<^verbatim>\<open>anyhow\<close> errors are their constructors.
\<close>

datatype 'a poll = Pending | Ready 'a

datatype el_error = FailedToConnect io_error | MqttError io_error

datatype el_state = NotConnected | MqttConnected

record ('rx, 'tx, 'addr) event_loop =
  el_state :: el_state
  commands_rx :: "'rx option"
  notifications_tx :: 'tx
  address :: 'addr

text \<open>
  \<^verbatim>\<open>Client::new\<close>: the client (its sender), the event loop and the receiver of the notifications.
  The two calls of \<^verbatim>\<open>channel\<close>, a function of \<^verbatim>\<open>futures\<close>, are arguments.
\<close>

definition client_new ::
  "(nat \<Rightarrow> 'ctx \<times> 'rx) \<Rightarrow> (nat \<Rightarrow> 'tx \<times> 'nrx) \<Rightarrow> 'addr \<Rightarrow> 'ctx \<times> ('rx, 'tx, 'addr) event_loop \<times> 'nrx" where
  "client_new channel notif_channel addr =
     (let (tx, rx) = channel 100;
          (notif_tx, notif_rx) = notif_channel 100;
          evloop = \<lparr>el_state = NotConnected, commands_rx = Some rx, notifications_tx = notif_tx,
            address = addr\<rparr>
      in (tx, evloop, notif_rx))"

function el_poll ::
  "(unit, io_error) outcome poll \<Rightarrow> (unit, io_error) outcome poll \<Rightarrow> ('rx, 'tx, 'addr) event_loop \<Rightarrow>
    (unit, el_error) outcome poll \<times> ('rx, 'tx, 'addr) event_loop" where
  "el_poll connect mqtt el =
     (case el_state el of
        NotConnected \<Rightarrow>
          (case connect of
             Ready (Err e) \<Rightarrow> (Ready (Err (FailedToConnect e)), el)
           | Pending \<Rightarrow> (Pending, el)
           | Ready (Ok _) \<Rightarrow>
               (case commands_rx el of
                  None \<Rightarrow> (Ready Panic, el)
                | Some rx \<Rightarrow>
                    el_poll connect mqtt (el\<lparr>el_state := MqttConnected, commands_rx := None\<rparr>))
           | Ready Panic \<Rightarrow> (Ready Panic, el)
           | Ready Diverge \<Rightarrow> (Ready Diverge, el))
      | MqttConnected \<Rightarrow>
          (case mqtt of
             Pending \<Rightarrow> (Pending, el)
           | Ready r \<Rightarrow> (Ready (map_err MqttError r), el)))"
  by pat_completeness auto

termination
  by (relation "measure (\<lambda>(_, _, el). if el_state el = NotConnected then 1 else 0)") auto

declare el_poll.simps [simp del]

text \<open>The receiver is there until it is handed over, so the \<^verbatim>\<open>unwrap\<close> cannot panic.\<close>

definition el_inv :: "('rx, 'tx, 'addr) event_loop \<Rightarrow> bool" where
  "el_inv el \<longleftrightarrow> (el_state el = NotConnected \<longrightarrow> commands_rx el \<noteq> None)"

lemma client_new_loop:
  "el_state (fst (snd (client_new ch nch addr))) = NotConnected"
  "commands_rx (fst (snd (client_new ch nch addr))) = Some (snd (ch 100))"
  by (simp_all add: client_new_def split: prod.splits)

lemma el_poll_connected:
  "el_state el = MqttConnected \<Longrightarrow> el_poll c f el =
    ((case f of Pending \<Rightarrow> Pending | Ready r \<Rightarrow> Ready (map_err MqttError r)), el)"
  by (simp add: el_poll.simps split: poll.splits)

lemma el_poll_inv: "el_inv el \<Longrightarrow> el_inv (snd (el_poll c f el))"
  by (subst el_poll.simps)
    (auto simp: el_inv_def el_poll_connected split: poll.splits outcome.splits el_state.splits option.splits)

lemma el_poll_no_panic:
  "el_inv el \<Longrightarrow> c \<noteq> Ready Panic \<Longrightarrow> f \<noteq> Ready Panic \<Longrightarrow> fst (el_poll c f el) \<noteq> Ready Panic"
  by (subst el_poll.simps)
    (auto simp: el_inv_def el_poll_connected split: poll.splits outcome.splits el_state.splits option.splits)

section \<open>Writing\<close>

text \<open>
  \<^verbatim>\<open>mqtt_write.send(pkt).await?\<close>: the packet is encoded into the empty write buffer and the
  buffer is flushed. \<open>w\<close> is the error of the socket in this step, if it has one.
\<close>

datatype message_text = DebugPublish publish | DebugPacket packet

datatype effect = Sent packet "u8 list" | Notified "message_text notification"

type_synonym write_error = "io_error option"

definition send_packet ::
  "bytes_crate \<Rightarrow> write_error \<Rightarrow> packet \<Rightarrow> (effect list, io_error) outcome" where
  "send_packet B w pkt =
     (case encode B pkt [] of
        (r, buf) \<Rightarrow>
          andthen r (\<lambda>_.
          case w of None \<Rightarrow> Ok [Sent pkt buf] | Some e \<Rightarrow> Err e))"

section \<open>The handshake\<close>

definition connect_packet :: packet where
  "connect_packet =
     ConnectPkt (set_keep_alive (connect_new (str_lit ''whatever.devops.svc.example.org'')) 8)"

text \<open>
  What \<^verbatim>\<open>mqtt_read.next()\<close> returns: \<open>None\<close> at the end of the stream, else a packet or an error
  of the decoder or the socket (a panic of the decoder is one of the loop).
\<close>

type_synonym read = "(packet, io_error) outcome option"

text \<open>
  The loop for the first packet skips \<open>None\<close>. The argument is what the calls of \<^verbatim>\<open>next\<close> so far
  returned; \<open>None\<close> says the loop is still running.
\<close>

fun await_packet :: "read list \<Rightarrow> ((packet, io_error) outcome \<times> read list) option" where
  "await_packet [] = None"
| "await_packet (Some pkt # rs) = Some (pkt, rs)"
| "await_packet (None # rs) = await_packet rs"

definition accept_connack :: "packet \<Rightarrow> (effect list, io_error) outcome" where
  "accept_connack pkt =
     (case pkt of
        ConnackPkt p \<Rightarrow> Ok [Notified (NConnAck p)]
      | _ \<Rightarrow> Err (IoError InvalidData UnexpectedPacket))"

section \<open>The select loop\<close>

record ev_state =
  pingresp_received :: "bool option"
  pktids :: pkt_ids
  queue :: "(pktid \<times> publish) list"

definition ev_start :: ev_state where
  "ev_start = \<lparr>pingresp_received = None, pktids = pktids_new, queue = []\<rparr>"

text \<open>The handshake, and the state it leads to.\<close>

definition handshake ::
  "bytes_crate \<Rightarrow> write_error \<Rightarrow> read list \<Rightarrow> (effect list \<times> ev_state \<times> read list, io_error) outcome option"
where
  "handshake B w reads =
     (case send_packet B w connect_packet of
        Ok sent \<Rightarrow>
          (case await_packet reads of
             None \<Rightarrow> None
           | Some (pkt, rs) \<Rightarrow>
               Some (andthen pkt (\<lambda>pkt.
                 andthen (accept_connack pkt) (\<lambda>notified.
                 Ok (sent @ notified, ev_start, rs)))))
      | Err e \<Rightarrow> Some (Err e)
      | Panic \<Rightarrow> Some Panic
      | Diverge \<Rightarrow> Some Diverge)"

text \<open>A step goes on with the loop or returns \<^verbatim>\<open>Ok(())\<close> from it.\<close>

datatype control = Continue ev_state | Finished

datatype event = Tick | Read read | Command "command option"

type_synonym step_result = "(effect list \<times> control, io_error) outcome"

definition handle_tick :: "bytes_crate \<Rightarrow> write_error \<Rightarrow> ev_state \<Rightarrow> step_result" where
  "handle_tick B w s =
     (if pingresp_received s = Some False then Err (IoError TimedOut PingTimedOut)
      else
        andthen (send_packet B w (PingReqPkt PingReqPacket)) (\<lambda>sent.
        Ok (sent, Continue (s\<lparr>pingresp_received := Some False\<rparr>))))"

definition handle_puback :: "build \<Rightarrow> puback \<Rightarrow> ev_state \<Rightarrow> step_result" where
  "handle_puback b m s =
     (let q = (case position (\<lambda>(i, _). i = puback_pktid m) (queue s) of
                 Some idx \<Rightarrow> take idx (queue s) @ drop (idx + 1) (queue s)
               | None \<Rightarrow> queue s) in
      andthen (return_id b (pktids s) (puback_pktid m)) (\<lambda>ids.
      Ok ([], Continue (s\<lparr>pktids := ids, queue := q\<rparr>))))"

definition handle_publish :: "bytes_crate \<Rightarrow> write_error \<Rightarrow> publish \<Rightarrow> ev_state \<Rightarrow> step_result" where
  "handle_publish B w m s =
     andthen
       (case publish_qos m of
          AtMostOnce \<Rightarrow> Ok []
        | AtLeastOnce \<Rightarrow>
            (case pktid m of
               None \<Rightarrow> Panic
             | Some i \<Rightarrow> send_packet B w (PubAckPkt (puback_new i)))
        | ExactlyOnce \<Rightarrow> Panic) (\<lambda>sent.
     Ok (sent @ [Notified (NMessage (DebugPublish m))], Continue s))"

definition handle_packet ::
  "bytes_crate \<Rightarrow> build \<Rightarrow> write_error \<Rightarrow> packet \<Rightarrow> ev_state \<Rightarrow> step_result" where
  "handle_packet B b w pkt s =
     (case pkt of
        DisconnectPkt d \<Rightarrow>
          (case disconnect_reason d of
             Normal \<Rightarrow> Ok ([], Finished)
           | reason \<Rightarrow> Err (IoError OtherKind (DisconnectedDueTo reason)))
      | PingRespPkt _ \<Rightarrow> Ok ([], Continue (s\<lparr>pingresp_received := Some True\<rparr>))
      | SubAckPkt m \<Rightarrow>
          andthen (return_id b (pktids s) (suback_pktid m)) (\<lambda>ids.
          Ok ([Notified (NSubAck m)], Continue (s\<lparr>pktids := ids\<rparr>)))
      | UnsubAckPkt m \<Rightarrow>
          andthen (return_id b (pktids s) (unsuback_pktid m)) (\<lambda>ids.
          Ok ([Notified (NUnsubAck m)], Continue (s\<lparr>pktids := ids\<rparr>)))
      | PubAckPkt m \<Rightarrow> handle_puback b m s
      | PublishPkt m \<Rightarrow> handle_publish B w m s
      | m \<Rightarrow> Ok ([Notified (NMessage (DebugPacket m))], Continue s))"

text \<open>A command that needs an identifier panics (\<^verbatim>\<open>todo!()\<close>) when the pool has none.\<close>

definition with_next_id ::
  "build \<Rightarrow> ev_state \<Rightarrow> (pktid \<Rightarrow> ev_state \<Rightarrow> ('a, io_error) outcome) \<Rightarrow> ('a, io_error) outcome" where
  "with_next_id b s f =
     andthen (next_id b (pktids s)) (\<lambda>(i, ids).
     case i of Some j \<Rightarrow> f j (s\<lparr>pktids := ids\<rparr>) | None \<Rightarrow> Panic)"

definition prepare_publish ::
  "build \<Rightarrow> rstring \<Rightarrow> payload \<Rightarrow> property list \<Rightarrow> qos \<Rightarrow> bool \<Rightarrow> ev_state \<Rightarrow>
    (publish \<times> ev_state, io_error) outcome" where
  "prepare_publish b t p ps q r s =
     (case q of
        AtMostOnce \<Rightarrow> Ok (at_most_once t p r ps, s)
      | AtLeastOnce \<Rightarrow>
          with_next_id b s (\<lambda>i s.
          let pkt = at_least_once t p r ps i in
          Ok (pkt, s\<lparr>queue := queue s @ [(i, pkt)]\<rparr>))
      | ExactlyOnce \<Rightarrow> with_next_id b s (\<lambda>i s. Ok (exactly_once t p r ps i, s)))"

definition handle_command ::
  "bytes_crate \<Rightarrow> build \<Rightarrow> write_error \<Rightarrow> command \<Rightarrow> ev_state \<Rightarrow> step_result" where
  "handle_command B b w cmd s =
     (case cmd of
        CmdPublish t p ps q r \<Rightarrow>
          andthen (prepare_publish b t p ps q r s) (\<lambda>(pkt, s).
          andthen (send_packet B w (PublishPkt pkt)) (\<lambda>sent.
          Ok (sent, Continue s)))
      | CmdSubscribe t q \<Rightarrow>
          with_next_id b s (\<lambda>i s.
          andthen (send_packet B w (SubscribePkt (subscribe_new t i q))) (\<lambda>sent.
          Ok (sent, Continue s)))
      | CmdUnsubscribe ts \<Rightarrow>
          with_next_id b s (\<lambda>i s.
          andthen (send_packet B w (UnsubscribePkt (unsubscribe_new ts i))) (\<lambda>sent.
          Ok (sent, Continue s)))
      | CmdDisconnect \<Rightarrow>
          andthen (send_packet B w (DisconnectPkt disconnect_new)) (\<lambda>sent.
          Ok (sent, Finished)))"

definition ev_step ::
  "bytes_crate \<Rightarrow> build \<Rightarrow> write_error \<Rightarrow> event \<Rightarrow> ev_state \<Rightarrow> step_result" where
  "ev_step B b w e s =
     (case e of
        Tick \<Rightarrow> handle_tick B w s
      | Read (Some r) \<Rightarrow> andthen r (\<lambda>pkt. handle_packet B b w pkt s)
      | Read None \<Rightarrow> Ok ([], Finished)
      | Command (Some cmd) \<Rightarrow> handle_command B b w cmd s
      | Command None \<Rightarrow> Ok ([], Continue s))"

text \<open>
  The loop, over the events that wake it in the order \<^verbatim>\<open>select!\<close> picks them, each with the
  result the socket has for a write of that step.
\<close>

fun ev_run ::
  "bytes_crate \<Rightarrow> build \<Rightarrow> (write_error \<times> event) list \<Rightarrow> ev_state \<Rightarrow> step_result" where
  "ev_run B b [] s = Ok ([], Continue s)"
| "ev_run B b ((w, e) # es) s =
     andthen (ev_step B b w e s) (\<lambda>(effs, c).
     case c of
       Finished \<Rightarrow> Ok (effs, Finished)
     | Continue s' \<Rightarrow> andthen (ev_run B b es s') (\<lambda>(effs', c'). Ok (effs @ effs', c')))"

text \<open>The whole task: the handshake over what the socket yields, then the loop over its events.\<close>

definition mqtt_poll ::
  "bytes_crate \<Rightarrow> build \<Rightarrow> write_error \<Rightarrow> read list \<Rightarrow> (write_error \<times> event) list \<Rightarrow> step_result option"
where
  "mqtt_poll B b w reads es =
     (case handshake B w reads of
        None \<Rightarrow> None
      | Some r \<Rightarrow>
          Some (andthen r (\<lambda>(effs, s, _).
            andthen (ev_run B b es s) (\<lambda>(effs', c). Ok (effs @ effs', c)))))"


section \<open>Properties\<close>

lemma await_packet_replicate: "await_packet (replicate n None @ rs) = await_packet rs"
  by (induction n) simp_all

text \<open>C20: however often the future is polled and whatever its inner futures return, the
  \<open>unwrap\<close> of the command receiver does not panic, and the receiver is handed over when the
  connection is there and not before.\<close>

theorem receiver_unwrap_safe:
  fixes el :: "('rx, 'tx, 'addr) event_loop"
  assumes "c \<noteq> Ready Panic" "f \<noteq> Ready Panic"
    and "el = fold (\<lambda>(c, f) el. snd (el_poll c f el)) past (fst (snd (client_new ch nch addr)))"
  shows "fst (el_poll c f el) \<noteq> Ready Panic \<and>
    (commands_rx (snd (el_poll c f el)) = None \<longleftrightarrow> el_state (snd (el_poll c f el)) = MqttConnected)"
proof -
  let ?I = "\<lambda>el :: ('rx, 'tx, 'addr) event_loop. commands_rx el = None \<longleftrightarrow> el_state el = MqttConnected"
  have step: "?I el \<Longrightarrow> ?I (snd (el_poll c f el))" for c f el
    unfolding el_poll.simps [of c f el]
    by (auto simp: el_poll_connected split: poll.splits outcome.splits el_state.splits option.splits)
  have fold: "?I el0 \<Longrightarrow> ?I (fold (\<lambda>(c, f) el. snd (el_poll c f el)) past el0)" for el0
  proof (induction past arbitrary: el0)
    case (Cons cf past)
    then show ?case using step by (cases cf) simp
  qed simp
  have I: "?I el" unfolding assms(3) by (rule fold) (simp add: client_new_loop)
  then have "el_inv el" by (auto simp: el_inv_def)
  with step [OF I] show ?thesis using el_poll_no_panic [OF _ assms(1,2)] by blast
qed

theorem receiver_unwrap_safe_witness:
  "fst (el_poll (Ready (Ok ())) Pending (fold (\<lambda>(c, f) el. snd (el_poll c f el)) [(Pending, Pending)]
    (fst (snd (client_new (\<lambda>n. ((), n)) (\<lambda>n. ((), n)) ''host''))))) \<noteq> Ready Panic"
  using receiver_unwrap_safe [OF _ _ refl, of "Ready (Ok ())" Pending "[(Pending, Pending)]"
      "\<lambda>n. ((), n)" "\<lambda>n. ((), n)" "''host''"]
  by simp

text \<open>C21: the handshake sends CONNECT, skips ends of stream, and takes the first packet:
  a CONNACK with any reason code, even a refusal, is reported and starts the loop; every other
  packet ends the connection with an error.\<close>

theorem handshake_first_packet:
  assumes "bytes_crate_spec B"
  shows "handshake B None (replicate n None @ Some (Ok pkt) # rs) =
    Some (case pkt of
        ConnackPkt p \<Rightarrow>
          Ok ([Sent connect_packet
                 (connect_to_mqtt (set_keep_alive (connect_new (str_lit ''whatever.devops.svc.example.org'')) 8)),
               Notified (NConnAck p)], ev_start, rs)
      | _ \<Rightarrow> Err (IoError InvalidData UnexpectedPacket))"
  using bytes_crate_specD(4) [OF assms, of "[]"]
  by (simp add: handshake_def send_packet_def encode_def connect_packet_def packet_to_mqtt_def
      await_packet_replicate accept_connack_def split: packet.splits)

theorem handshake_first_packet_witness:
  "handshake bytes_model None [None, Some (Ok (PingRespPkt PingRespPacket))] =
    Some (Err (IoError InvalidData UnexpectedPacket))"
  using handshake_first_packet [of bytes_model 1 "PingRespPkt PingRespPacket" "[]"] by simp

text \<open>C27: rounds that find nothing are without effect. While the stream only reports its
  end the handshake polls it again, so without a packet it never ends. And once every client
  handle is dropped, the rounds in which the event loop reads the closed command channel leave
  the effects, the state and the outcome of a run as they are: they never end the loop, which
  another event can.\<close>

theorem loops_without_end:
  "handshake B w (replicate n None @ reads) = handshake B w reads \<and>
   handshake B None (replicate n None) = None \<and>
   ev_run B b es s = ev_run B b (filter (\<lambda>(_, e). e \<noteq> Command None) es) s"
proof (intro conjI)
  show skip: "handshake B w (replicate n None @ reads) = handshake B w reads" for w reads
    by (cases "send_packet B w connect_packet") (simp_all add: handshake_def await_packet_replicate)
  show "handshake B None (replicate n None) = None"
    using skip [of None "[]"] by (simp add: handshake_def send_packet_def encode_def connect_packet_def packet_to_mqtt_def)
  show "ev_run B b es s = ev_run B b (filter (\<lambda>(_, e). e \<noteq> Command None) es) s"
  proof (induction es arbitrary: s)
    case (Cons we es)
    obtain w e where we: "we = (w, e)" by (cases we)
    show ?case
    proof (cases "e = Command None")
      case True
      have "ev_run B b (we # es) s = andthen (ev_run B b es s) (\<lambda>(effs, c). Ok (effs, c))"
        using True we by (simp add: ev_step_def)
      also have "\<dots> = ev_run B b es s" by (cases "ev_run B b es s") auto
      finally show ?thesis using True we Cons.IH by simp
    next
      case False
      then show ?thesis using we Cons.IH by (simp split: control.splits)
    qed
  qed simp
qed

end
