(* ===== verification/Pktids_Ranges.thy ===== *)
theory Pktids_Ranges
  imports Pktids
begin

text \<open>
  The pool as a set: which vectors of nodes hold a list of ascending ranges, the invariant
  \<open>pi_inv\<close> and the set \<open>pi_free\<close> of free identifiers of a state, and what \<open>next_id\<close> and
  \<open>return_id\<close> do to them.
\<close>

section \<open>The list in the vector\<close>

text \<open>
  A segment is a node's index with the bounds of its range; a path leads from index \<open>i\<close>
  through the segments to index \<open>k\<close>.
\<close>

type_synonym segment = "nat \<times> nat \<times> nat"

fun path :: "node list \<Rightarrow> nat \<Rightarrow> segment list \<Rightarrow> nat \<Rightarrow> bool" where
  "path rs i [] k \<longleftrightarrow> i = k"
| "path rs i ((j, lo, hi) # segs) k \<longleftrightarrow>
     i = j \<and> (\<exists>x y n. get_at rs j = Some (Taken x y n) \<and> unat x = lo \<and> unat y = hi \<and> path rs n segs k)"

lemma path_append:
  "path rs i (ps @ qs) k \<longleftrightarrow> (\<exists>j. path rs i ps j \<and> path rs j qs k)"
  by (induction ps arbitrary: i) (auto, blast+)

lemma path_taken: "path rs i segs k \<Longrightarrow> j \<in> fst ` set segs \<Longrightarrow> \<exists>x y n. get_at rs j = Some (Taken x y n)"
  by (induction rs i segs k rule: path.induct) (simp, force)

lemma path_update:
  "path rs i segs k \<Longrightarrow> j \<notin> fst ` set segs \<Longrightarrow> path (rs[j := nd]) i segs k"
  by (induction rs i segs k rule: path.induct) (auto simp: get_at_def)

lemma path_extend: "path rs i segs k \<Longrightarrow> path (rs @ r) i segs k"
proof (induction rs i segs k rule: path.induct)
  case (2 rs i j lo hi segs k)
  then show ?case by (auto simp: get_at_def nth_append)
qed simp

lemma path_last:
  "path rs i (ps @ [(j, lo, hi)]) k \<longleftrightarrow>
    path rs i ps j \<and> (\<exists>x y. get_at rs j = Some (Taken x y k) \<and> unat x = lo \<and> unat y = hi)"
  by (auto simp: path_append)

lemma find_slot_path:
  assumes "path rs i (ps @ qs) 0" "get_at rs 0 = Some Vacant"
    and "\<forall>(_, lo, _) \<in> set ps. lo \<le> unat x" "qs \<noteq> [] \<Longrightarrow> unat x < fst (snd (hd qs))"
  shows "find_slot rs x prev i =
    Some (if ps = [] then prev else Some (fst (last ps)), if qs = [] then 0 else fst (hd qs))"
  using assms(1,3)
proof (induction ps arbitrary: i prev)
  case Nil
  show ?case
  proof (cases qs)
    case (Cons q qs')
    then show ?thesis using Nil assms(4)
      by (cases q) (auto simp: find_slot.simps word_less_nat_alt)
  qed (use Nil assms(2) in \<open>simp add: find_slot.simps\<close>)
next
  case (Cons p ps)
  obtain j lo hi where p: "p = (j, lo, hi)" by (cases p) auto
  then show ?case using Cons
    by (subst find_slot.simps) (auto simp: word_less_nat_alt)
qed

text \<open>The vector represents a list of segments: the path from the start, and nothing else.\<close>

definition repr :: "pkt_ids \<Rightarrow> segment list \<Rightarrow> bool" where
  "repr s segs \<longleftrightarrow>
     path (ranges s) (pi_start s) segs 0 \<and> get_at (ranges s) 0 = Some Vacant \<and>
     distinct (map fst segs) \<and>
     (\<forall>j < length (ranges s). ranges s ! j \<noteq> Vacant \<longrightarrow> j \<in> fst ` set segs)"

lemma repr_nonzero: "repr s segs \<Longrightarrow> 0 \<notin> fst ` set segs"
  using path_taken [of "ranges s" "pi_start s" segs 0 0] by (auto simp: repr_def)

text \<open>Changing the range of one node.\<close>

lemma repr_update:
  assumes "repr s (ps @ (j, lo, hi) # qs)"
  obtains x y n where "get_at (ranges s) j = Some (Taken x y n)" "unat x = lo" "unat y = hi"
    "\<And>x' y'. repr (s\<lparr>ranges := (ranges s)[j := Taken x' y' n]\<rparr>) (ps @ (j, unat x', unat y') # qs)"
proof -
  have d: "j \<notin> fst ` set ps" "j \<notin> fst ` set qs" "distinct (map fst (ps @ qs))"
    using assms by (auto simp: repr_def)
  have j: "j \<noteq> 0" using repr_nonzero [OF assms] by auto
  obtain x y n where n: "path (ranges s) (pi_start s) ps j" "get_at (ranges s) j = Some (Taken x y n)"
      "unat x = lo" "unat y = hi" "path (ranges s) n qs 0"
    using assms by (auto simp: repr_def path_append)
  have "repr (s\<lparr>ranges := (ranges s)[j := Taken x' y' n]\<rparr>) (ps @ (j, unat x', unat y') # qs)" for x' y'
    using n d j assms path_update [of "ranges s" _ ps j j "Taken x' y' n"]
      path_update [of "ranges s" n qs 0 j "Taken x' y' n"]
    by (auto simp: repr_def path_append get_at_eq_Some nth_list_update split: if_splits)
  with that n show ?thesis by blast
qed

text \<open>Dropping the first node.\<close>

lemma repr_drop_head:
  assumes "repr s ((i, lo, hi) # segs)" "get_at (ranges s) i = Some (Taken x y n)"
  shows "repr \<lparr>pi_start = n, ranges = (ranges s)[i := Vacant]\<rparr> segs"
proof -
  have i: "i \<noteq> 0" using repr_nonzero [OF assms(1)] by auto
  have "path (ranges s) n segs 0" "i \<notin> fst ` set segs" using assms by (auto simp: repr_def)
  then show ?thesis using path_update [of "ranges s" n segs 0 i Vacant] assms i
    by (auto simp: repr_def get_at_eq_Some nth_list_update split: if_splits)
qed

text \<open>Finding a node for a new range.\<close>

lemma vacant_slot_spec:
  assumes "get_at rs 0 = Some Vacant"
  obtains v rs' where "vacant_slot rs = Ok (v, rs')" "v \<noteq> 0" "v < length rs'" "rs' ! v = Vacant"
    "\<exists>r. rs' = rs @ r \<and> set r \<subseteq> {Vacant}"
proof -
  obtain r where rs: "rs = Vacant # r" using assms by (cases rs) (auto simp: get_at_eq_Some)
  show ?thesis
  proof (cases "position (\<lambda>nd. nd = Vacant) r")
    case None
    then show ?thesis using that [of "length rs" "rs @ [Vacant]"] rs
      by (auto simp: vacant_slot_def slice_from_def nth_append)
  next
    case (Some v)
    then show ?thesis using that [of "v + 1" rs] position_Some [OF Some] rs
      by (auto simp: vacant_slot_def slice_from_def)
  qed
qed

lemma repr_more:
  assumes "repr s segs" "set r \<subseteq> {Vacant}"
  shows "repr (s\<lparr>ranges := ranges s @ r\<rparr>) segs"
proof -
  have "r ! k = Vacant" if "k < length r" for k using assms(2) nth_mem [OF that] by auto
  then show ?thesis using assms(1)
    by (auto simp: repr_def path_extend get_at_eq_Some nth_append)
qed

lemma repr_insert_head:
  assumes "repr s segs" "v \<noteq> 0" "get_at (ranges s) v = Some Vacant"
  shows "repr \<lparr>pi_start = v, ranges = (ranges s)[v := Taken x y (pi_start s)]\<rparr>
    ((v, unat x, unat y) # segs)"
proof -
  have "v \<notin> fst ` set segs" using assms path_taken [of "ranges s" _ segs 0 v] by (auto simp: repr_def)
  then show ?thesis using assms path_update [of "ranges s" "pi_start s" segs 0 v]
    by (auto simp: repr_def get_at_eq_Some nth_list_update split: if_splits)
qed

lemma repr_insert_between:
  assumes "repr s (ps @ (j, lo, hi) # qs)" "v \<noteq> 0" "get_at (ranges s) v = Some Vacant"
    and "get_at (ranges s) j = Some (Taken x' y' n)"
  shows "repr (s\<lparr>ranges := (ranges s)[v := Taken x y n, j := Taken x' y' v]\<rparr>)
    (ps @ (j, lo, hi) # (v, unat x, unat y) # qs)"
proof -
  let ?rs = "(ranges s)[v := Taken x y n, j := Taken x' y' v]"
  let ?segs = "ps @ (j, lo, hi) # qs"
  have v: "v \<notin> fst ` set ?segs"
    using assms(1,3) path_taken [of "ranges s" _ ?segs 0 v] by (auto simp: repr_def)
  have d: "j \<notin> fst ` set ps" "j \<notin> fst ` set qs" "distinct (map fst (ps @ qs))"
    and p: "path (ranges s) (pi_start s) ps j" "unat x' = lo" "unat y' = hi" "path (ranges s) n qs 0"
    using assms(1,4) by (auto simp: repr_def path_append)
  have "path ?rs (pi_start s) ps j" "path ?rs n qs 0"
    using d v p by (auto intro!: path_update)
  then show ?thesis using assms(1-4) d v p repr_nonzero [OF assms(1)]
    by (auto simp: repr_def path_append get_at_eq_Some nth_list_update split: if_splits)
qed

section \<open>Ascending segments\<close>

text \<open>
  The segments are disjoint and ascending above \<open>l\<close>, all but the last are non-empty, and the
  last ends with the largest identifier \<open>m\<close>. It may be exhausted; \<open>k\<close> bounds how far its
  start has run past its end, by calls of \<^verbatim>\<open>next_id\<close> that found nothing.
\<close>

fun ascending :: "nat \<Rightarrow> nat \<Rightarrow> nat \<Rightarrow> segment list \<Rightarrow> bool" where
  "ascending m k l [] \<longleftrightarrow> False"
| "ascending m k l ((j, lo, hi) # segs) \<longleftrightarrow>
     l < lo \<and> (if segs = [] then lo \<le> hi + 1 + k \<and> hi = m else lo \<le> hi \<and> hi \<le> m \<and> ascending m k hi segs)"

lemma ascending_Cons2:
  "ascending m k l ((j, lo, hi) # q # segs) \<longleftrightarrow>
    l < lo \<and> lo \<le> hi \<and> hi \<le> m \<and> ascending m k hi (q # segs)"
  by simp

fun ascends :: "nat \<Rightarrow> nat \<Rightarrow> segment list \<Rightarrow> nat \<Rightarrow> bool" where
  "ascends m l [] l' \<longleftrightarrow> l = l'"
| "ascends m l ((j, lo, hi) # segs) l' \<longleftrightarrow> l < lo \<and> lo \<le> hi \<and> hi \<le> m \<and> ascends m hi segs l'"

lemma ascending_append:
  "qs \<noteq> [] \<Longrightarrow> ascending m k l (ps @ qs) \<longleftrightarrow> (\<exists>l'. ascends m l ps l' \<and> ascending m k l' qs)"
proof (induction ps arbitrary: l)
  case (Cons p ps)
  then show ?case by (cases p) auto
qed simp

lemma ascends_append:
  "ascends m l (ps @ qs) l' \<longleftrightarrow> (\<exists>h. ascends m l ps h \<and> ascends m h qs l')"
proof (induction ps arbitrary: l)
  case (Cons p ps)
  then show ?case by (cases p) auto
qed simp

definition free_of :: "segment list \<Rightarrow> pktid set" where
  "free_of segs = {x. \<exists>(_, lo, hi) \<in> set segs. lo \<le> unat x \<and> unat x \<le> hi}"

lemma free_of_simps [simp]:
  "free_of [] = {}"
  "free_of ((j, lo, hi) # segs) = {x. lo \<le> unat x \<and> unat x \<le> hi} \<union> free_of segs"
  "free_of (ps @ qs) = free_of ps \<union> free_of qs"
  by (auto simp: free_of_def)

lemma ascending_above: "ascending m k l segs \<Longrightarrow> x \<in> free_of segs \<Longrightarrow> l < unat x \<and> unat x \<le> m"
proof (induction m k l segs rule: ascending.induct)
  case (2 m k l j lo hi segs)
  then show ?case by (cases "segs = []") auto
qed simp

lemma ascends_le: "ascends m l ps l' \<Longrightarrow> l \<le> l' \<and> (\<forall>x\<in>free_of ps. unat x \<le> l')"
  by (induction m l ps l' rule: ascends.induct) fastforce+

text \<open>Where an identifier that is not free belongs.\<close>

lemma ascending_locate:
  assumes "ascending m k l segs" "x \<notin> free_of segs" "l < unat x" "unat x \<le> m"
  obtains ps j lo hi qs l' where "segs = ps @ (j, lo, hi) # qs" "unat x < lo"
    "\<forall>(_, lo, _) \<in> set ps. lo \<le> unat x" "ascends m l ps l'" "l' < unat x"
    "ascending m k l' ((j, lo, hi) # qs)"
proof -
  have "\<exists>ps j lo hi qs l'. segs = ps @ (j, lo, hi) # qs \<and> unat x < lo \<and>
    (\<forall>(_, lo, _) \<in> set ps. lo \<le> unat x) \<and> ascends m l ps l' \<and> l' < unat x \<and>
    ascending m k l' ((j, lo, hi) # qs)"
    using assms
  proof (induction m k l segs rule: ascending.induct)
    case (2 m k l j lo hi segs)
    show ?case
    proof (cases "unat x < lo")
      case True
      then show ?thesis using 2 by (intro exI [of _ "[]"]) auto
    next
      case False
      then have hi: "hi < unat x" using 2(3) by auto
      then have "segs \<noteq> []" using 2(2,5) by auto
      then have "\<exists>ps j lo hi' qs l'. segs = ps @ (j, lo, hi') # qs \<and> unat x < lo \<and>
          (\<forall>(_, lo, _) \<in> set ps. lo \<le> unat x) \<and> ascends m hi ps l' \<and> l' < unat x \<and>
          ascending m k l' ((j, lo, hi') # qs)"
        using 2 hi by (intro 2(1)) auto
      then obtain ps j' lo' hi' qs l' where "segs = ps @ (j', lo', hi') # qs"
        "unat x < lo'" "\<forall>(_, lo, _) \<in> set ps. lo \<le> unat x" "ascends m hi ps l'" "l' < unat x"
        "ascending m k l' ((j', lo', hi') # qs)" by blast
      moreover have "l < lo" "lo \<le> hi" "hi \<le> m" using 2(2) \<open>segs \<noteq> []\<close> by auto
      ultimately show ?thesis using False
        by (intro exI [of _ "(j, lo, hi) # ps"] exI [of _ j'] exI [of _ lo'] exI [of _ hi']
            exI [of _ qs] exI [of _ l']) auto
    qed
  qed simp
  with that show ?thesis by blast
qed

section \<open>Handing out\<close>

lemma unat_add_one: "unat (x :: u16) < 65535 \<Longrightarrow> unat (x + 1) = unat x + 1"
  by (simp add: unat_word_ariths)

lemma uadd_one: "unat (x :: u16) < 65535 \<Longrightarrow> uadd b x 1 = Ok (x + 1)"
  by (rule uadd_ok) simp

lemma next_id_stay:
  assumes "repr s ((i, lo, hi) # segs)" "lo < hi \<or> segs = []" "0 < lo" "lo < 65535"
  obtains s' where "next_id b s =
    (Ok (if lo \<le> hi then Some (word_of_nat lo) else None, s') ::
      (pktid option \<times> pkt_ids, 'e) outcome)"
    "repr s' ((i, lo + 1, hi) # segs)"
proof -
  have i: "pi_start s = i" "i \<noteq> 0" using assms(1) repr_nonzero [OF assms(1)] by (auto simp: repr_def)
  obtain x y n where n: "get_at (ranges s) i = Some (Taken x y n)" "unat x = lo" "unat y = hi"
      "\<And>x' y'. repr (s\<lparr>ranges := (ranges s)[i := Taken x' y' n]\<rparr>) ((i, unat x', unat y') # segs)"
    using repr_update [of s "[]" i lo hi segs] assms(1) by auto
  have "segs = [] \<Longrightarrow> n = 0" using assms(1) n(1) by (simp add: repr_def)
  then have last: "segs = [] \<Longrightarrow> get_at ((ranges s)[i := Vacant]) n = Some Vacant"
    using assms(1) i by (simp add: repr_def get_at_eq_Some)
  have x: "unat x < 65535" "x \<noteq> 0" "word_of_nat lo = x" using n assms(3,4) by auto
  define s' where "s' = s\<lparr>ranges := (ranges s)[i := Taken (x + 1) y n]\<rparr>"
  have "repr s' ((i, lo + 1, hi) # segs)"
    using n(4) [of "x + 1" y] x n(2,3) unat_add_one [of x] by (simp add: s'_def)
  moreover have "next_id b s =
    (Ok (if lo \<le> hi then Some (word_of_nat lo) else None, s') ::
      (pktid option \<times> pkt_ids, 'e) outcome)"
  proof (cases "hi \<le> lo")
    case True
    then have "segs = []" using assms(2) by auto
    then show ?thesis using True n(1-3) x last i
      by (auto simp: next_id_def next_in_node_def uadd_one s'_def pktid_new_def word_le_nat_alt)
  next
    case False
    then show ?thesis using n(1-3) x i
      by (auto simp: next_id_def next_in_node_def uadd_one s'_def pktid_new_def word_le_nat_alt)
  qed
  ultimately show ?thesis using that by blast
qed

lemma next_id_drop:
  assumes "repr s ((i, lo, lo) # segs)" "segs \<noteq> []" "0 < lo"
  obtains s' where "next_id b s = (Ok (Some (word_of_nat lo), s') :: (pktid option \<times> pkt_ids, 'e) outcome)" "repr s' segs"
proof -
  have i: "pi_start s = i" using assms(1) by (auto simp: repr_def)
  obtain x y n where n: "get_at (ranges s) i = Some (Taken x y n)" "unat x = lo" "unat y = lo"
      "path (ranges s) n segs 0"
    using assms(1) by (auto simp: repr_def)
  then have x: "x = y" "x \<noteq> 0" "word_of_nat lo = x"
    using assms(3) by (auto simp: word_unat_eq_iff)
  have "n \<in> fst ` set segs" using n(4) assms(2) by (cases segs) auto
  moreover from this obtain x' y' n' where "get_at (ranges s) n = Some (Taken x' y' n')"
    using path_taken [OF n(4)] by blast
  ultimately have "get_at ((ranges s)[i := Vacant]) n \<noteq> Some Vacant"
    using assms(1) by (auto simp: repr_def get_at_eq_Some nth_list_update)
  then have "next_id b s =
    (Ok (Some (word_of_nat lo), \<lparr>pi_start = n, ranges = (ranges s)[i := Vacant]\<rparr>) ::
      (pktid option \<times> pkt_ids, 'e) outcome)"
    using i n x by (simp add: next_id_def next_in_node_def pktid_new_def)
  then show ?thesis using that repr_drop_head [OF assms(1) n(1)] by blast
qed

section \<open>The pool\<close>

text \<open>The free identifiers of a state, and the invariant.\<close>

fun node_ids :: "node \<Rightarrow> pktid set" where
  "node_ids Vacant = {}"
| "node_ids (Taken lo hi _) = {lo..hi}"

definition pi_free :: "pkt_ids \<Rightarrow> pktid set" where
  "pi_free s = \<Union> (node_ids ` set (ranges s))"

definition pi_inv :: "pktid \<Rightarrow> nat \<Rightarrow> pkt_ids \<Rightarrow> bool" where
  "pi_inv m k s \<longleftrightarrow> (\<exists>segs. repr s segs \<and> ascending (unat m) k 0 segs)"

lemma path_segment:
  "path rs i segs k \<Longrightarrow> (j, lo, hi) \<in> set segs \<Longrightarrow>
    \<exists>x y n. get_at rs j = Some (Taken x y n) \<and> unat x = lo \<and> unat y = hi"
  by (induction rs i segs k rule: path.induct) (simp, force)

lemma repr_free:
  assumes "repr s segs"
  shows "pi_free s = free_of segs"
proof (intro subset_antisym subsetI)
  fix v
  assume "v \<in> pi_free s"
  then obtain j x y n where j: "j < length (ranges s)" "ranges s ! j = Taken x y n" "x \<le> v" "v \<le> y"
    unfolding pi_free_def by (clarsimp simp: in_set_conv_nth) (metis atLeastAtMost_iff empty_iff node_ids.elims)
  then obtain lo hi where seg: "(j, lo, hi) \<in> set segs" using assms by (force simp: repr_def)
  have "path (ranges s) (pi_start s) segs 0" using assms by (simp add: repr_def)
  from path_segment [OF this seg] have "unat x = lo \<and> unat y = hi"
    using j(1,2) by (auto simp: get_at_eq_Some)
  with seg show "v \<in> free_of segs" using j(3,4) by (force simp: free_of_def word_le_nat_alt)
next
  fix v
  assume "v \<in> free_of segs"
  then obtain j lo hi where seg: "(j, lo, hi) \<in> set segs" "lo \<le> unat v" "unat v \<le> hi"
    by (auto simp: free_of_def)
  have "path (ranges s) (pi_start s) segs 0" using assms by (simp add: repr_def)
  from path_segment [OF this seg(1)] obtain x y n where
    n: "get_at (ranges s) j = Some (Taken x y n)" "unat x = lo" "unat y = hi" by blast
  then have "Taken x y n \<in> set (ranges s)" by (auto simp: get_at_eq_Some)
  moreover have "v \<in> node_ids (Taken x y n)" using n seg(2,3) by (simp add: word_le_nat_alt)
  ultimately show "v \<in> pi_free s" unfolding pi_free_def by blast
qed

lemma pi_inv_bounds:
  assumes "pi_inv m k s" "x \<in> pi_free s"
  shows "x \<noteq> 0" "x \<le> m"
  using assms ascending_above by (fastforce simp: pi_inv_def repr_free word_le_nat_alt)+

lemma segment_minus_lo:
  "lo = unat (x :: pktid) \<Longrightarrow> {v. lo + 1 \<le> unat v \<and> unat v \<le> hi} = {v. lo \<le> unat v \<and> unat v \<le> hi} - {x}"
  by (auto simp: word_unat_eq_iff)

text \<open>The first range, when an identifier is free: its lower bound is the smallest.\<close>

lemma pi_inv_first:
  assumes "pi_inv m k s" "pi_free s \<noteq> {}"
  obtains i lo hi segs where "repr s ((i, lo, hi) # segs)" "ascending (unat m) k 0 ((i, lo, hi) # segs)"
    "lo \<le> hi" "0 < lo" "lo \<le> unat m" "Min (pi_free s) = word_of_nat lo"
    "unat (word_of_nat lo :: pktid) = lo" "free_of segs - {word_of_nat lo} = free_of segs"
proof -
  obtain segs0 where r0: "repr s segs0" "ascending (unat m) k 0 segs0" using assms(1) by (auto simp: pi_inv_def)
  then obtain i lo hi segs where "segs0 = (i, lo, hi) # segs" by (cases segs0) auto
  with r0 have r: "repr s ((i, lo, hi) # segs)" and a: "ascending (unat m) k 0 ((i, lo, hi) # segs)" by auto
  have ne: "lo \<le> hi"
  proof (cases "segs = []")
    case True
    then show ?thesis using assms(2) by (auto simp: repr_free [OF r])
  qed (use a in auto)
  moreover have hi: "hi \<le> unat m" using a by (auto split: if_splits)
  define x :: pktid where "x = word_of_nat lo"
  have "lo < 65536" using ne hi unat_u16_less [of m] by linarith
  then have x: "unat x = lo" by (simp add: x_def unat_of_nat)
  have above: "\<forall>v\<in>free_of segs. lo < unat v"
    using a ne ascending_above [of "unat m" k hi segs] by (fastforce split: if_splits)
  have "Min (pi_free s) = x"
    using ne x above unfolding repr_free [OF r] by (intro Min_eqI) (auto simp: word_le_nat_alt)
  moreover have "free_of segs - {x} = free_of segs" using above x by auto
  moreover have "0 < lo" using a by auto
  ultimately show ?thesis using that r a hi x unfolding x_def by fastforce
qed

text \<open>\<^verbatim>\<open>next_id\<close> hands out the smallest free identifier.\<close>

lemma next_id_some:
  assumes "pi_inv m k s" "pi_free s \<noteq> {}" "pi_free s \<noteq> {65535}"
  obtains s' where "next_id b s = (Ok (Some (Min (pi_free s)), s') :: (pktid option \<times> pkt_ids, 'e) outcome)"
    "pi_inv m k s'" "pi_free s' = pi_free s - {Min (pi_free s)}"
proof -
  obtain i lo hi segs where r: "repr s ((i, lo, hi) # segs)"
    and a: "ascending (unat m) k 0 ((i, lo, hi) # segs)" and lo: "lo \<le> hi" "0 < lo" "lo \<le> unat m"
    and min: "Min (pi_free s) = word_of_nat lo" and u: "unat (word_of_nat lo :: pktid) = lo"
    and minus: "free_of segs - {word_of_nat lo} = free_of segs"
    by (rule pi_inv_first [OF assms(1,2)])
  define x :: pktid where "x = word_of_nat lo"
  note x = u [folded x_def] and minus = minus [folded x_def]
  have "\<exists>s' segs'. next_id b s = (Ok (Some x, s') :: (pktid option \<times> pkt_ids, 'e) outcome) \<and>
    repr s' segs' \<and> ascending (unat m) k 0 segs' \<and> free_of segs' = free_of ((i, lo, hi) # segs) - {x}"
  proof (cases "lo < hi \<or> segs = []")
    case True
    have "lo < 65535"
    proof (rule ccontr)
      assume top: "\<not> lo < 65535"
      have "hi \<le> unat m" using a by (auto split: if_splits)
      then have "lo = 65535" "hi = 65535" using top lo unat_u16_less [of m] by linarith+
      then have "free_of ((i, lo, hi) # segs) = {x}" using True x by (auto simp: word_unat_eq_iff)
      moreover have "x = 65535" using \<open>lo = 65535\<close> by (simp add: x_def)
      ultimately show False using assms(3) by (simp add: repr_free [OF r])
    qed
    then obtain s' where s': "next_id b s = (Ok (Some x, s') :: (pktid option \<times> pkt_ids, 'e) outcome)"
        "repr s' ((i, lo + 1, hi) # segs)"
      using next_id_stay [OF r True, of b] lo by (auto simp: x_def)
    have "ascending (unat m) k 0 ((i, lo + 1, hi) # segs)" using a lo True by (auto split: if_splits)
    moreover have "free_of ((i, lo + 1, hi) # segs) = free_of ((i, lo, hi) # segs) - {x}"
      unfolding free_of_simps segment_minus_lo [OF x [symmetric]] using minus by blast
    ultimately show ?thesis using s' by blast
  next
    case False
    then have eq: "hi = lo" and segs: "segs \<noteq> []" using lo by auto
    have "repr s ((i, lo, lo) # segs)" using r eq by simp
    from next_id_drop [OF this segs lo(2), of b] obtain s' where
      s': "next_id b s = (Ok (Some x, s') :: (pktid option \<times> pkt_ids, 'e) outcome)" "repr s' segs"
      unfolding x_def by blast
    have "ascending (unat m) k 0 segs" using a segs by (cases segs) (auto split: if_splits)
    moreover have "{v. lo \<le> unat v \<and> unat v \<le> hi} = {x}" using eq x by (auto simp: word_unat_eq_iff)
    then have "free_of segs = free_of ((i, lo, hi) # segs) - {x}"
      unfolding free_of_simps using minus by blast
    ultimately show ?thesis using s' by blast
  qed
  then obtain s' segs' where s': "next_id b s = (Ok (Some x, s') :: (pktid option \<times> pkt_ids, 'e) outcome)"
    "repr s' segs'" "ascending (unat m) k 0 segs'" "free_of segs' = free_of ((i, lo, hi) # segs) - {x}" by blast
  show ?thesis
  proof (rule that)
    show "next_id b s = (Ok (Some (Min (pi_free s)), s') :: (pktid option \<times> pkt_ids, 'e) outcome)"
      using s'(1) min by (simp add: x_def)
    show "pi_inv m k s'" using s'(2,3) unfolding pi_inv_def by blast
    have "pi_free s' = pi_free s - {x}"
      unfolding repr_free [OF s'(2)] s'(4) repr_free [OF r] by (rule refl)
    then show "pi_free s' = pi_free s - {Min (pi_free s)}" unfolding min x_def .
  qed
qed

lemma next_id_none:
  assumes "pi_inv m k s" "pi_free s = {}" "unat m + 1 + k < 65535"
  obtains s' where "next_id b s = (Ok (None, s') :: (pktid option \<times> pkt_ids, 'e) outcome)" "pi_inv m (k + 1) s'" "pi_free s' = {}"
proof -
  obtain segs0 where r0: "repr s segs0" "ascending (unat m) k 0 segs0" using assms(1) by (auto simp: pi_inv_def)
  then obtain i lo hi segs where "segs0 = (i, lo, hi) # segs" by (cases segs0) auto
  with r0 have r: "repr s ((i, lo, hi) # segs)" and a: "ascending (unat m) k 0 ((i, lo, hi) # segs)" by auto
  have "{x :: pktid. lo \<le> unat x \<and> unat x \<le> hi} = {}" using assms(2) by (simp add: repr_free [OF r])
  moreover have "hi \<le> unat m" using a by (auto split: if_splits)
  then have "hi < 65536" using unat_u16_less [of m] by linarith
  then have "unat (word_of_nat hi :: pktid) = hi" by (simp add: unat_of_nat)
  ultimately have lt: "hi < lo" by (metis (mono_tags, lifting) empty_Collect_eq linorder_not_less order_refl)
  then have segs: "segs = []" "hi = unat m" "lo \<le> unat m + 1 + k" using a by (auto split: if_splits)
  then obtain s' where s': "next_id b s = (Ok (None, s') :: (pktid option \<times> pkt_ids, 'e) outcome)" "repr s' ((i, lo + 1, hi) # segs)"
    using next_id_stay [OF r, of b] lt assms(3) by auto
  moreover have "pi_free s' = {}" using lt segs by (auto simp: repr_free [OF s'(2)])
  moreover have "pi_inv m (k + 1) s'"
    unfolding pi_inv_def using s'(2) segs by (intro exI [of _ "[(i, lo + 1, hi)]"]) simp
  ultimately show ?thesis by (intro that)
qed

section \<open>Taking back\<close>

lemma maybe_extend_next_spec:
  assumes "repr s (ps @ (j, lo, hi) # qs)" "unat x < lo"
  obtains rs where "maybe_extend_next_node b (ranges s) j x =
      (Ok (lo = unat x + 1, rs) :: (bool \<times> node list, 'e) outcome)"
    "lo = unat x + 1 \<Longrightarrow> repr (s\<lparr>ranges := rs\<rparr>) (ps @ (j, unat x, hi) # qs)"
    "lo \<noteq> unat x + 1 \<Longrightarrow> rs = ranges s"
proof -
  obtain y z n where n: "get_at (ranges s) j = Some (Taken y z n)" "unat y = lo" "unat z = hi"
      "\<And>x' y'. repr (s\<lparr>ranges := (ranges s)[j := Taken x' y' n]\<rparr>) (ps @ (j, unat x', unat y') # qs)"
    using repr_update [OF assms(1)] by blast
  have y: "x < y" "1 \<le> y" using n(2) assms(2) by (simp_all add: word_less_nat_alt word_le_nat_alt)
  then have "unat (y - 1) = lo - 1" using n(2) by (simp add: unat_sub)
  then have eq: "y - 1 = x \<longleftrightarrow> lo = unat x + 1" using assms(2) by (auto simp: word_unat_eq_iff)
  show ?thesis
    using n(1) n(4) [of x z] n(3) y eq
    by (intro that [of "if y - 1 = x then (ranges s)[j := Taken x z n] else ranges s"])
      (simp_all add: maybe_extend_next_node_def usub_ok)
qed

lemma maybe_extend_prev_spec:
  assumes "repr s (ps @ (j, lo, hi) # qs)" "hi < unat x"
  obtains rs where "maybe_extend_prev_node b (ranges s) j x =
      (Ok (unat x = hi + 1, rs) :: (bool \<times> node list, 'e) outcome)"
    "unat x = hi + 1 \<Longrightarrow> repr (s\<lparr>ranges := rs\<rparr>) (ps @ (j, lo, unat x) # qs)"
    "unat x \<noteq> hi + 1 \<Longrightarrow> rs = ranges s"
proof -
  obtain y z n where n: "get_at (ranges s) j = Some (Taken y z n)" "unat y = lo" "unat z = hi"
      "\<And>x' y'. repr (s\<lparr>ranges := (ranges s)[j := Taken x' y' n]\<rparr>) (ps @ (j, unat x', unat y') # qs)"
    using repr_update [OF assms(1)] by blast
  have z: "unat z < 65535" using n(3) assms(2) unat_u16_less [of x] by linarith
  then have eq: "z + 1 = x \<longleftrightarrow> unat x = hi + 1"
    using unat_add_one [OF z] n(3) by (auto simp: word_unat_eq_iff)
  show ?thesis
    using n(1) n(4) [of y x] n(2) eq
    by (intro that [of "if z + 1 = x then (ranges s)[j := Taken y x n] else ranges s"])
      (simp_all add: maybe_extend_prev_node_def uadd_one [OF z])
qed

lemma insert_head_spec:
  assumes "repr s ((j, lo, hi) # qs)" "unat x < lo"
  obtains s' v where "insert_head b s j x = (Ok s' :: (pkt_ids, 'e) outcome)"
    "repr s'
      (if lo = unat x + 1 then (j, unat x, hi) # qs else (v, unat x, unat x) # (j, lo, hi) # qs)"
proof -
  from assms(1) have "repr s ([] @ (j, lo, hi) # qs)" by simp
  from maybe_extend_next_spec [OF this assms(2), of b] obtain rs where
    rs: "maybe_extend_next_node b (ranges s) j x = (Ok (lo = unat x + 1, rs) :: (bool \<times> node list, 'e) outcome)"
      "lo = unat x + 1 \<Longrightarrow> repr (s\<lparr>ranges := rs\<rparr>) ((j, unat x, hi) # qs)"
      "lo \<noteq> unat x + 1 \<Longrightarrow> rs = ranges s" by auto
  show ?thesis
  proof (cases "lo = unat x + 1")
    case True
    then show ?thesis using rs by (intro that [of "s\<lparr>ranges := rs\<rparr>"]) (auto simp: insert_head_def)
  next
    case False
    have "get_at (ranges s) 0 = Some Vacant" using assms(1) by (simp add: repr_def)
    then obtain v rs' r where v: "vacant_slot (ranges s) = (Ok (v, rs') :: (nat \<times> node list, 'e) outcome)"
        "v \<noteq> 0" "v < length rs'" "rs' ! v = Vacant" "rs' = ranges s @ r" "set r \<subseteq> {Vacant}"
      by (rule vacant_slot_spec) blast
    have "repr (s\<lparr>ranges := rs'\<rparr>) ((j, lo, hi) # qs)"
      using repr_more [OF assms(1) v(6)] v(5) by simp
    from repr_insert_head [OF this v(2), of x x] have
      "repr \<lparr>pi_start = v, ranges = rs'[v := Taken x x (pi_start s)]\<rparr>
        ((v, unat x, unat x) # (j, lo, hi) # qs)" using v(3,4) by (simp add: get_at_def)
    then show ?thesis using rs(1,3) False v(1,3)
      by (intro that [of "\<lparr>pi_start = v, ranges = rs'[v := Taken x x (pi_start s)]\<rparr>" v])
        (auto simp: insert_head_def set_at_def)
  qed
qed

lemma insert_between_spec:
  assumes "repr s (ps @ (i, lo', hi') # (j, lo, hi) # qs)" "hi' < unat x" "unat x < lo"
  obtains s' v where "insert_between b s i j x = (Ok s' :: (pkt_ids, 'e) outcome)"
    "repr s'
      (if unat x = hi' + 1 then ps @ (i, lo', unat x) # (j, lo, hi) # qs
       else if lo = unat x + 1 then ps @ (i, lo', hi') # (j, unat x, hi) # qs
       else ps @ (i, lo', hi') # (v, unat x, unat x) # (j, lo, hi) # qs)"
proof -
  from maybe_extend_prev_spec [OF assms(1,2), of b] obtain rs where
    rs: "maybe_extend_prev_node b (ranges s) i x = (Ok (unat x = hi' + 1, rs) :: (bool \<times> node list, 'e) outcome)"
      "unat x = hi' + 1 \<Longrightarrow> repr (s\<lparr>ranges := rs\<rparr>) (ps @ (i, lo', unat x) # (j, lo, hi) # qs)"
      "unat x \<noteq> hi' + 1 \<Longrightarrow> rs = ranges s" by auto
  have "repr s ((ps @ [(i, lo', hi')]) @ (j, lo, hi) # qs)" using assms(1) by simp
  from maybe_extend_next_spec [OF this assms(3), of b] obtain rs2 where
    rs2: "maybe_extend_next_node b (ranges s) j x = (Ok (lo = unat x + 1, rs2) :: (bool \<times> node list, 'e) outcome)"
      "lo = unat x + 1 \<Longrightarrow> repr (s\<lparr>ranges := rs2\<rparr>) (ps @ (i, lo', hi') # (j, unat x, hi) # qs)"
      "lo \<noteq> unat x + 1 \<Longrightarrow> rs2 = ranges s" by auto
  consider (prev) "unat x = hi' + 1" | (nxt) "unat x \<noteq> hi' + 1" "lo = unat x + 1"
    | (new) "unat x \<noteq> hi' + 1" "lo \<noteq> unat x + 1" by blast
  then show ?thesis
  proof cases
    case prev
    then show ?thesis using rs by (intro that [of "s\<lparr>ranges := rs\<rparr>"]) (auto simp: insert_between_def)
  next
    case nxt
    then show ?thesis using rs rs2
      by (intro that [of "s\<lparr>ranges := rs2\<rparr>"]) (auto simp: insert_between_def)
  next
    case new
    have "get_at (ranges s) 0 = Some Vacant" using assms(1) by (simp add: repr_def)
    then obtain v rs' r where v: "vacant_slot (ranges s) = (Ok (v, rs') :: (nat \<times> node list, 'e) outcome)"
        "v \<noteq> 0" "v < length rs'" "rs' ! v = Vacant" "rs' = ranges s @ r" "set r \<subseteq> {Vacant}"
      by (rule vacant_slot_spec) blast
    have r: "repr (s\<lparr>ranges := rs'\<rparr>) (ps @ (i, lo', hi') # (j, lo, hi) # qs)"
      using repr_more [OF assms(1) v(6)] v(5) by simp
    obtain y z where n: "get_at rs' i = Some (Taken y z j)"
      using r by (auto simp: repr_def path_append)
    then have "i \<noteq> v" using v(4) by (auto simp: get_at_eq_Some)
    with n have g: "get_at (rs'[v := Taken x x j]) i = Some (Taken y z j)" by (simp add: get_at_eq_Some)
    have "repr (s\<lparr>ranges := rs'[v := Taken x x j, i := Taken y z v]\<rparr>)
        (ps @ (i, lo', hi') # (v, unat x, unat x) # (j, lo, hi) # qs)"
      using repr_insert_between [OF r v(2) _, of y z j x x] v(3,4) n by (simp add: get_at_def)
    moreover have "insert_between b s i j x =
        (Ok (s\<lparr>ranges := rs'[v := Taken x x j, i := Taken y z v]\<rparr>) :: (pkt_ids, 'e) outcome)"
      using rs(1,3) rs2(1,3) new v(1,3) g by (simp add: insert_between_def set_at_def)
    ultimately show ?thesis using new by (intro that [of _ v]) simp_all
  qed
qed

lemma segment_extend:
  "unat x \<le> hi \<Longrightarrow>
    {v. unat x \<le> unat v \<and> unat v \<le> hi} = insert x {v :: pktid. unat x + 1 \<le> unat v \<and> unat v \<le> hi}"
  "lo \<le> unat x \<Longrightarrow> unat x = hi + 1 \<Longrightarrow>
    {v. lo \<le> unat v \<and> unat v \<le> unat x} = insert x {v :: pktid. lo \<le> unat v \<and> unat v \<le> hi}"
  "{v :: pktid. unat x \<le> unat v \<and> unat v \<le> unat x} = {x}"
  by (auto simp: word_unat_eq_iff)

lemma ascending_insert:
  assumes "ascending mx k l ((j, lo, hi) # qs)" "unat x < lo" "l < unat x" "unat x \<le> mx"
  shows "lo = unat x + 1 \<Longrightarrow> unat x \<le> hi"
    and "ascending mx k l ((v, unat x, unat x) # (j, lo, hi) # qs)"
    and "lo = unat x + 1 \<Longrightarrow> ascending mx k l ((j, unat x, hi) # qs)"
  using assms by (auto split: if_splits)

text \<open>The identifier is below every range.\<close>

lemma return_id_head:
  assumes "repr s ((j, lo, hi) # qs)" "ascending mx k 0 ((j, lo, hi) # qs)"
    and "unat x < lo" "0 < unat x" "unat x \<le> mx"
    and "find_slot (ranges s) x None (pi_start s) = Some (None, j)"
  shows "\<exists>s' segs'. return_id b s x = (Ok s' :: (pkt_ids, 'e) outcome) \<and> repr s' segs' \<and>
    ascending mx k 0 segs' \<and> free_of segs' = insert x (free_of ((j, lo, hi) # qs))"
proof -
  note asc = ascending_insert [OF assms(2-5)]
  obtain s' v where s': "insert_head b s j x = (Ok s' :: (pkt_ids, 'e) outcome)"
    "repr s' (if lo = unat x + 1 then (j, unat x, hi) # qs else (v, unat x, unat x) # (j, lo, hi) # qs)"
    by (rule insert_head_spec [OF assms(1,3)])
  define segs' where "segs' = (if lo = unat x + 1 then (j, unat x, hi) # qs
    else (v, unat x, unat x) # (j, lo, hi) # qs)"
  have "ascending mx k 0 segs'" using asc(2,3) by (simp add: segs'_def del: ascending.simps)
  moreover have "free_of segs' = insert x (free_of ((j, lo, hi) # qs))"
    using asc(1) by (auto simp: segs'_def segment_extend(1,3))
  moreover have "return_id b s x = (Ok s' :: (pkt_ids, 'e) outcome)"
    using assms(6) s'(1) by (simp add: return_id_def)
  ultimately show ?thesis using s'(2) unfolding segs'_def by blast
qed

text \<open>The identifier is between two ranges.\<close>

lemma return_id_between:
  assumes "repr s (ps @ (i, lo', hi') # (j, lo, hi) # qs)"
    and "ascends mx 0 ps h" "h < lo'" "lo' \<le> hi'" "hi' \<le> mx" "ascending mx k hi' ((j, lo, hi) # qs)"
    and "unat x < lo" "hi' < unat x" "unat x \<le> mx"
    and "find_slot (ranges s) x None (pi_start s) = Some (Some i, j)"
  shows "\<exists>s' segs'. return_id b s x = (Ok s' :: (pkt_ids, 'e) outcome) \<and> repr s' segs' \<and>
    ascending mx k 0 segs' \<and> free_of segs' = insert x (free_of (ps @ (i, lo', hi') # (j, lo, hi) # qs))"
proof -
  note asc = ascending_insert [OF assms(6-9)]
  obtain s' v where s': "insert_between b s i j x = (Ok s' :: (pkt_ids, 'e) outcome)"
    "repr s'
      (if unat x = hi' + 1 then ps @ (i, lo', unat x) # (j, lo, hi) # qs
       else if lo = unat x + 1 then ps @ (i, lo', hi') # (j, unat x, hi) # qs
       else ps @ (i, lo', hi') # (v, unat x, unat x) # (j, lo, hi) # qs)"
    by (rule insert_between_spec [OF assms(1,8,7)])
  define segs' where "segs' =
    (if unat x = hi' + 1 then ps @ (i, lo', unat x) # (j, lo, hi) # qs
     else if lo = unat x + 1 then ps @ (i, lo', hi') # (j, unat x, hi) # qs
     else ps @ (i, lo', hi') # (v, unat x, unat x) # (j, lo, hi) # qs)"
  have "ascending mx k (unat x) ((j, lo, hi) # qs)"
    using asc(2) by (simp only: ascending_Cons2)
  then have "ascending mx k 0 segs'"
    using asc assms(2-6,8,9) exI [of "\<lambda>h. ascends mx 0 ps h \<and> h < lo'" h]
    by (auto simp: segs'_def ascending_append ascending_Cons2 simp del: ascending.simps)
  moreover have "free_of segs' = insert x (free_of (ps @ (i, lo', hi') # (j, lo, hi) # qs))"
    using asc(1) assms(4,8) by (auto simp: segs'_def segment_extend(1,3) word_unat_eq_iff)
  moreover have "return_id b s x = (Ok s' :: (pkt_ids, 'e) outcome)"
    using assms(10) s'(1) by (simp add: return_id_def)
  ultimately show ?thesis using s'(2) unfolding segs'_def by blast
qed

text \<open>\<^verbatim>\<open>return_id\<close> makes an identifier that was handed out free again.\<close>

lemma return_id_ok:
  assumes "pi_inv m k s" "x \<notin> pi_free s" "x \<noteq> 0" "x \<le> m"
  obtains s' where "return_id b s x = (Ok s' :: (pkt_ids, 'e) outcome)" "pi_inv m k s'"
    "pi_free s' = insert x (pi_free s)"
proof -
  obtain segs where r0: "repr s segs" "ascending (unat m) k 0 segs" using assms(1) by (auto simp: pi_inv_def)
  have x: "0 < unat x" "unat x \<le> unat m" "x \<notin> free_of segs"
    using assms by (simp_all add: unat_gt_0 word_le_nat_alt repr_free [OF r0(1)])
  with ascending_locate [OF r0(2)] obtain ps j lo hi qs l' where
    loc: "segs = ps @ (j, lo, hi) # qs" "unat x < lo" "\<forall>(_, lo, _) \<in> set ps. lo \<le> unat x"
      "ascends (unat m) 0 ps l'" "l' < unat x" "ascending (unat m) k l' ((j, lo, hi) # qs)" by metis
  note r = r0(1) [unfolded loc(1)]
  have slot: "find_slot (ranges s) x None (pi_start s) =
      Some (if ps = [] then None else Some (fst (last ps)), j)"
    using find_slot_path [of "ranges s" "pi_start s" ps "(j, lo, hi) # qs" x None] r loc(2,3)
    by (auto simp: repr_def)
  have "\<exists>s' segs'. return_id b s x = (Ok s' :: (pkt_ids, 'e) outcome) \<and> repr s' segs' \<and>
    ascending (unat m) k 0 segs' \<and> free_of segs' = insert x (free_of segs)"
  proof (cases ps rule: rev_cases)
    case Nil
    then show ?thesis using return_id_head [of s j lo hi qs "unat m" k x b] r loc slot x by simp
  next
    case (snoc ps' q)
    obtain i lo' hi' where q: "q = (i, lo', hi')" by (cases q) auto
    obtain h where h: "ascends (unat m) 0 ps' h" "h < lo'" "lo' \<le> hi'" "hi' \<le> unat m" "l' = hi'"
      using loc(4) snoc q by (auto simp: ascends_append)
    have "repr s (ps' @ (i, lo', hi') # (j, lo, hi) # qs)" using r snoc q by simp
    from return_id_between [OF this h(1-4) loc(6) [unfolded h(5)] loc(2) loc(5) [unfolded h(5)] x(2), of b]
    show ?thesis using slot snoc q loc(1) by simp
  qed
  then obtain s' segs' where s': "return_id b s x = (Ok s' :: (pkt_ids, 'e) outcome)"
      "repr s' segs'" "ascending (unat m) k 0 segs'" "free_of segs' = insert x (free_of segs)" by blast
  show ?thesis
  proof (rule that [OF s'(1)])
    show "pi_inv m k s'" using s' unfolding pi_inv_def by blast
    show "pi_free s' = insert x (pi_free s)" using s'(4) by (simp add: repr_free [OF r0(1)] repr_free [OF s'(2)])
  qed
qed

end
