(* ===== verification/Pktids_Pool.thy ===== *)
theory Pktids_Pool
  imports Pktids_Ranges
begin

text \<open>
  What the pool promises its clients: the contract \<open>id_pool\<close>, interpreted on \<open>next_id\<close> and
  \<open>return_id\<close>, runs of a fresh pool, and what happens outside the contract.
\<close>

section \<open>The contract of the pool\<close>

text \<open>
  What the event loop relies on: the smallest free identifier is handed out and no longer
  free, and an outstanding identifier can be given back. The identifier \<open>spare\<close> is one the
  pool may fail to hand out when it is the only one left. The client lemma is about any
  sequence of calls: an identifier is never handed out while it is outstanding.
\<close>

datatype 'i pool_event = Took 'i | Gave 'i

inductive pool_run ::
  "('s \<Rightarrow> ('i option \<times> 's, 'e) outcome) \<Rightarrow> ('s \<Rightarrow> 'i \<Rightarrow> ('s, 'e) outcome) \<Rightarrow>
    's \<Rightarrow> 'i pool_event list \<Rightarrow> 's \<Rightarrow> bool" for tk gv
where
  run_Nil: "pool_run tk gv s [] s"
| run_Took: "tk s = Ok (Some i, s') \<Longrightarrow> pool_run tk gv s' es s'' \<Longrightarrow> pool_run tk gv s (Took i # es) s''"
| run_Gave: "gv s i = Ok s' \<Longrightarrow> pool_run tk gv s' es s'' \<Longrightarrow> pool_run tk gv s (Gave i # es) s''"

text \<open>The identifiers outstanding after some events.\<close>

fun outstanding :: "'i set \<Rightarrow> 'i pool_event list \<Rightarrow> 'i set" where
  "outstanding out [] = out"
| "outstanding out (Took i # es) = outstanding (insert i out) es"
| "outstanding out (Gave i # es) = outstanding (out - {i}) es"

text \<open>A client that gives back only what it has and does not take the last one.\<close>

fun lawful :: "'i set \<Rightarrow> 'i set \<Rightarrow> 'i pool_event list \<Rightarrow> bool" where
  "lawful ids out [] \<longleftrightarrow> True"
| "lawful ids out (Took i # es) \<longleftrightarrow> 2 \<le> card (ids - out) \<and> lawful ids (insert i out) es"
| "lawful ids out (Gave i # es) \<longleftrightarrow> i \<in> out \<and> lawful ids (out - {i}) es"

text \<open>Every identifier is fresh when it is taken.\<close>

fun fresh_takes :: "'i set \<Rightarrow> 'i set \<Rightarrow> 'i pool_event list \<Rightarrow> bool" where
  "fresh_takes ids out [] \<longleftrightarrow> True"
| "fresh_takes ids out (Took i # es) \<longleftrightarrow> i \<in> ids \<and> i \<notin> out \<and> fresh_takes ids (insert i out) es"
| "fresh_takes ids out (Gave i # es) \<longleftrightarrow> fresh_takes ids (out - {i}) es"

locale id_pool =
  fixes tk :: "'s \<Rightarrow> ('i::linorder option \<times> 's, 'e) outcome"
    and gv :: "'s \<Rightarrow> 'i \<Rightarrow> ('s, 'e) outcome"
    and inv :: "'s \<Rightarrow> bool"
    and free :: "'s \<Rightarrow> 'i set"
    and ids :: "'i set"
    and spare :: 'i
  assumes tk_min: "inv s \<Longrightarrow> free s \<noteq> {} \<Longrightarrow> free s \<noteq> {spare} \<Longrightarrow>
      \<exists>s'. tk s = Ok (Some (Min (free s)), s') \<and> inv s' \<and> free s' = free s - {Min (free s)}"
    and gv_back: "inv s \<Longrightarrow> i \<in> ids \<Longrightarrow> i \<notin> free s \<Longrightarrow>
      \<exists>s'. gv s i = Ok s' \<and> inv s' \<and> free s' = insert i (free s)"
    and free_ids: "inv s \<Longrightarrow> free s \<subseteq> ids"
    and ids_finite: "finite ids"
begin

lemma free_finite: "inv s \<Longrightarrow> finite (free s)"
  using free_ids ids_finite finite_subset by blast

lemma tk_two:
  assumes "inv s" "2 \<le> card (free s)"
  obtains s' where "tk s = Ok (Some (Min (free s)), s')" "inv s'"
    "free s' = free s - {Min (free s)}" "Min (free s) \<in> free s"
proof -
  have "free s \<noteq> {}" "free s \<noteq> {spare}" using assms(2) by auto
  moreover from this have "Min (free s) \<in> free s" using free_finite [OF assms(1)] by simp
  ultimately show ?thesis using tk_min [OF assms(1)] that by blast
qed

lemma run_fresh:
  assumes "pool_run tk gv s es s'" "inv s" "out = ids - free s" "lawful ids out es"
  shows "inv s' \<and> free s' = ids - outstanding out es \<and> outstanding out es \<subseteq> ids \<and>
    fresh_takes ids out es"
  using assms
proof (induction s es s' arbitrary: out rule: pool_run.induct)
  case (run_Nil s)
  then show ?case using free_ids by auto
next
  case (run_Took s i s' es s'')
  have f: "ids - out = free s" using run_Took.prems free_ids by auto
  then have "2 \<le> card (free s)" using run_Took.prems by simp
  from tk_two [OF run_Took.prems(1) this] run_Took.hyps(1)
  have *: "inv s'" "free s' = free s - {i}" "i \<in> free s" by auto
  then have "insert i out = ids - free s'" using f free_ids run_Took.prems(1,2) by auto
  then show ?case using run_Took.IH [of "insert i out"] run_Took.prems * f by auto
next
  case (run_Gave s i s' es s'')
  have i: "i \<in> ids" "i \<notin> free s" using run_Gave.prems by auto
  from gv_back [OF run_Gave.prems(1) this] run_Gave.hyps(1)
  have *: "inv s'" "free s' = insert i (free s)" by auto
  then have "out - {i} = ids - free s'" using run_Gave.prems by auto
  then show ?case using run_Gave.IH [of "out - {i}"] run_Gave.prems * by auto
qed

end

lemma next_id_ex:
  assumes "pi_inv m k s" "pi_free s \<noteq> {}" "pi_free s \<noteq> {65535}"
  shows "\<exists>s'. next_id b s = Ok (Some (Min (pi_free s)), s') \<and> pi_inv m k s' \<and>
    pi_free s' = pi_free s - {Min (pi_free s)}"
  by (rule next_id_some [OF assms]) blast

definition all_ids :: "pktid \<Rightarrow> pktid set" where
  "all_ids m = {x. x \<noteq> 0 \<and> x \<le> m}"

lemma return_id_ex:
  assumes "pi_inv m k s" "i \<in> all_ids m" "i \<notin> pi_free s"
  shows "\<exists>s'. return_id b s i = Ok s' \<and> pi_inv m k s' \<and> pi_free s' = insert i (pi_free s)"
proof -
  have "i \<noteq> 0" "i \<le> m" using assms(2) by (simp_all add: all_ids_def)
  then show ?thesis by (rule return_id_ok [OF assms(1,3)]) blast
qed

interpretation pool: id_pool "next_id b" "return_id b" "pi_inv m 0" pi_free "all_ids m" 65535
  for b :: build and m :: pktid
proof
  show "pi_inv m 0 s \<Longrightarrow> pi_free s \<subseteq> all_ids m" for s
    using pi_inv_bounds by (auto simp: all_ids_def)
qed (simp_all add: next_id_ex return_id_ex finite_subset [OF subset_UNIV])

section \<open>A fresh pool\<close>

lemma repr_new: "m \<noteq> 0 \<Longrightarrow> repr (new_with_max m) [(1, 1, unat m)]"
  unfolding repr_def new_with_max_def by (auto simp: get_at_def less_Suc_eq Let_def)

lemma pi_inv_new: "m \<noteq> 0 \<Longrightarrow> pi_inv m 0 (new_with_max m)"
  unfolding pi_inv_def
  by (intro exI [of _ "[(1, 1, unat m)]"] conjI repr_new) (simp_all add: unat_gt_0 Suc_le_eq)

lemma pi_free_new: "m \<noteq> 0 \<Longrightarrow> pi_free (new_with_max m) = all_ids m"
  by (auto simp: repr_free [OF repr_new] all_ids_def word_le_nat_alt unat_gt_0 Suc_le_eq)

text \<open>The first calls on a fresh pool.\<close>

fun next_ids :: "build \<Rightarrow> nat \<Rightarrow> pkt_ids \<Rightarrow> (pktid option list \<times> pkt_ids, 'e) outcome" where
  "next_ids b 0 s = Ok ([], s)"
| "next_ids b (Suc n) s =
     andthen (next_id b s) (\<lambda>(i, s).
     andthen (next_ids b n s) (\<lambda>(ids, s). Ok (i # ids, s)))"

abbreviation one_range :: "u16 \<Rightarrow> u16 \<Rightarrow> pkt_ids" where
  "one_range lo hi \<equiv> \<lparr>pi_start = 1, ranges = [Vacant, Taken lo hi 0]\<rparr>"

lemma next_id_one_range:
  "0 < unat x \<Longrightarrow> x \<le> m \<Longrightarrow> unat x < 65535 \<Longrightarrow> next_id b (one_range x m) = Ok (Some x, one_range (x + 1) m)"
  by (auto simp: next_id_def next_in_node_def wire_simps uadd_one pktid_new_def unat_gt_0 [symmetric])

lemma next_ids_one_range:
  "0 < unat x \<Longrightarrow> unat x + n \<le> unat m + 1 \<Longrightarrow> unat x + n \<le> 65535 \<Longrightarrow>
    next_ids b n (one_range x m) =
      Ok (map (\<lambda>i. Some (word_of_nat i)) [unat x..<unat x + n], one_range (x + word_of_nat n) m)"
proof (induction n arbitrary: x)
  case (Suc n)
  have x: "unat x < 65535" "x \<le> m" using Suc.prems by (simp_all add: word_le_nat_alt)
  note x1 = unat_add_one [OF x(1)]
  have upt: "[unat x..<unat x + Suc n] = unat x # [unat x + 1..<unat x + 1 + n]"
    by (simp add: upt_conv_Cons)
  show ?case
    using Suc.IH [of "x + 1"] Suc.prems x1 unfolding upt
    by (simp add: next_id_one_range [OF Suc.prems(1) x(2,1), simplified] algebra_simps del: upt_Suc)
qed simp

text \<open>
  The real pool, whose largest identifier is 65535: the call that should hand it out adds one
  to it. With overflow checks it panics. Without them the range becomes \<open>0..=65535\<close>, and two
  calls later identifiers that are outstanding are handed out again.
\<close>

lemma next_id_last_checked: "next_id Checked (one_range 65535 65535) = Panic"
  by (simp add: next_id_def next_in_node_def wire_simps uadd_def checked_word_def)

lemma next_id_last_wrapping:
  "next_id Wrapping (one_range 65535 65535) = Ok (Some 65535, one_range 0 65535)"
  "next_id Wrapping (one_range 0 65535) = Ok (None, one_range 1 65535)"
  by (simp_all add: next_id_def next_in_node_def wire_simps pktid_new_def)

text \<open>
  In the real pool the range that ends with 65535 never empties: the identifier 65535 is
  always free, and asking for it when it is the only one left panics.
\<close>

lemma pool_top:
  assumes "pi_inv 65535 0 s"
  shows "65535 \<in> pi_free s"
proof -
  obtain segs where r: "repr s segs" "ascending 65535 0 0 segs" using assms by (auto simp: pi_inv_def)
  then obtain ps j lo hi where segs: "segs = ps @ [(j, lo, hi)]"
    by (cases segs rule: rev_cases) auto
  then have "hi = 65535" using r(2) by (auto simp: ascending_append)
  moreover have "lo < 65536" using r(1) segs by (auto simp: repr_def path_last)
  ultimately show ?thesis by (auto simp: repr_free [OF r(1)] segs)
qed

lemma next_id_stuck:
  assumes "pi_inv 65535 0 s" "pi_free s = {65535}"
  shows "next_id Checked s = Panic"
proof -
  obtain segs0 where r0: "repr s segs0" "ascending 65535 0 0 segs0" using assms(1) by (auto simp: pi_inv_def)
  then obtain i lo hi segs where "segs0 = (i, lo, hi) # segs" by (cases segs0) auto
  with r0 have r: "repr s ((i, lo, hi) # segs)" and a: "ascending 65535 0 0 ((i, lo, hi) # segs)" by auto
  obtain x y n where n: "get_at (ranges s) i = Some (Taken x y n)" "unat x = lo" "unat y = hi"
      "path (ranges s) n segs 0" and start: "pi_start s = i" "i \<noteq> 0"
    using r repr_nonzero [OF r] by (auto simp: repr_def)
  have "lo \<le> hi" using a n(2) unat_u16_less [of x] by (auto split: if_splits)
  then have "x \<in> pi_free s" using n(2) by (simp add: repr_free [OF r])
  then have x: "x = 65535" "lo = 65535" using assms(2) n(2) by auto
  have "segs = []"
  proof (rule ccontr)
    assume "segs \<noteq> []"
    then obtain q segs' where "segs = q # segs'" by (cases segs) auto
    moreover obtain j lo2 hi2 where "q = (j, lo2, hi2)" by (cases q) auto
    ultimately have "hi < lo2" "lo2 < 65536" using a n(4) by (auto split: if_splits)
    then show False using x(2) \<open>lo \<le> hi\<close> by simp
  qed
  then have "n = 0" "hi = 65535" using n(4) a by simp_all
  moreover from this have "y = 65535" using n(3) by (simp add: word_unat_eq_iff)
  moreover have "get_at ((ranges s)[i := Vacant]) 0 = Some Vacant"
    using r start(2) by (simp add: repr_def get_at_eq_Some)
  ultimately show ?thesis using n(1) start x(1)
    by (simp add: next_id_def next_in_node_def uadd_def checked_word_def)
qed

section \<open>Properties\<close>

text \<open>C6: in every state of the pool \<open>next_id\<close> hands out the smallest free identifier and
  only that one stops being free; when none is free it says so, a bounded number of times. The
  exception is the identifier 65535 when it is the only one left.\<close>

theorem next_id_smallest:
  assumes "pi_inv m k s" "pi_free s \<noteq> {65535}"
  shows "(pi_free s \<noteq> {} \<longrightarrow>
      (\<exists>s'. next_id b s = Ok (Some (Min (pi_free s)), s') \<and> pi_inv m k s' \<and>
        pi_free s' = pi_free s - {Min (pi_free s)})) \<and>
    (pi_free s = {} \<and> unat m + 1 + k < 65535 \<longrightarrow>
      (\<exists>s'. next_id b s = Ok (None, s') \<and> pi_inv m (k + 1) s' \<and> pi_free s' = {}))"
proof (intro conjI impI)
  show "\<exists>s'. next_id b s = Ok (Some (Min (pi_free s)), s') \<and> pi_inv m k s' \<and>
      pi_free s' = pi_free s - {Min (pi_free s)}" if "pi_free s \<noteq> {}"
    by (rule next_id_ex [OF assms(1) that assms(2)])
  show "\<exists>s'. next_id b s = Ok (None, s') \<and> pi_inv m (k + 1) s' \<and> pi_free s' = {}"
    if "pi_free s = {} \<and> unat m + 1 + k < 65535"
    by (rule next_id_none [OF assms(1), of b]) (use that in auto)
qed

lemma one_range_pool:
  assumes "0 < unat x" "x \<le> m"
  shows "pi_inv m 0 (one_range x m)" "pi_free (one_range x m) = {x..m}"
proof -
  have r: "repr (one_range x m) [(1, unat x, unat m)]"
    by (auto simp: repr_def get_at_def less_Suc_eq)
  moreover have "ascending (unat m) 0 0 [(1, unat x, unat m)]"
    using assms by (simp add: word_le_nat_alt)
  ultimately show "pi_inv m 0 (one_range x m)" unfolding pi_inv_def by blast
  show "pi_free (one_range x m) = {x..m}"
    by (simp add: pi_free_def)
qed

theorem next_id_smallest_witness:
  "\<exists>s'. next_id Checked (one_range 3 12) = Ok (Some (Min {3..12}), s') \<and> pi_free s' = {3..12} - {Min {3..12}}"
proof -
  have p: "pi_inv 12 0 (one_range 3 12)" "pi_free (one_range 3 12) = {3..12}"
    by (rule one_range_pool; simp add: word_le_nat_alt)+
  have "(3 :: pktid) \<in> {3..12}" "(3 :: pktid) \<noteq> 65535" by (simp_all add: word_le_nat_alt)
  then have "pi_free (one_range 3 12) \<noteq> {65535}" "pi_free (one_range 3 12) \<noteq> {}" unfolding p(2) by auto
  with next_id_smallest [OF p(1) this(1), of Checked] show ?thesis unfolding p(2) by blast
qed

text \<open>C7: giving back an identifier that is not free makes exactly that one free again,
  and keeps the list in the vector well formed, wherever the identifier falls: at the head, at
  the end of a range, at the start of one or in a gap. The walk over the list ends.\<close>

theorem return_id_frees:
  assumes "pi_inv m k s" "x \<notin> pi_free s" "x \<noteq> 0" "x \<le> m"
  shows "\<exists>s'. return_id b s x = Ok s' \<and> pi_inv m k s' \<and> pi_free s' = insert x (pi_free s)"
  by (rule return_id_ex [OF assms(1) _ assms(2)]) (simp add: all_ids_def assms(3,4))

theorem return_id_frees_witness:
  "\<exists>s'. return_id Checked (one_range 4 12) 2 = Ok s' \<and> pi_free s' = insert 2 {4..12}"
proof -
  have p: "pi_inv 12 0 (one_range 4 12)" "pi_free (one_range 4 12) = {4..12}"
    by (rule one_range_pool; simp add: word_le_nat_alt)+
  have "(2 :: pktid) \<notin> {4..12}" "(2 :: pktid) \<le> 12" by (simp_all add: word_le_nat_alt)
  then show ?thesis using return_id_frees [OF p(1), of 2 Checked] unfolding p(2) by auto
qed

text \<open>C5: whatever calls a client makes on a fresh pool, as long as it gives back only
  what it holds and leaves one identifier, no identifier is handed out while it is held, and
  the free ones are always those not held.\<close>

theorem pool_never_reissues:
  assumes "m \<noteq> 0" "lawful (all_ids m) {} es"
    and "pool_run (next_id b) (return_id b) (new_with_max m) es s'"
  shows "fresh_takes (all_ids m) {} es \<and> pi_free s' = all_ids m - outstanding {} es \<and> pi_inv m 0 s'"
  using pool.run_fresh [OF assms(3) pi_inv_new [OF assms(1)] _ assms(2)] assms(1)
  by (simp add: pi_free_new)

theorem pool_never_reissues_witness:
  "fresh_takes (all_ids 12) {} [Took 1, Took 2, Gave 1, Took 1]"
proof -
  have c: "2 \<le> card (all_ids 12 - out)" if "out \<subseteq> {1, 2}" for out
  proof -
    have "{4, 5} \<subseteq> all_ids 12 - out" using that by (auto simp: all_ids_def word_le_nat_alt)
    from card_mono [OF _ this] show ?thesis by (simp add: finite_subset [OF subset_UNIV])
  qed
  have l: "lawful (all_ids 12) {} [Took 1, Took 2, Gave 1, Took 1]"
    using c [of "{}"] c [of "{1}"] c [of "{2}"] c [of "{2, 1}"] by (simp add: insert_Diff_if)
  let ?nx = "next_id Checked :: pkt_ids \<Rightarrow> (pktid option \<times> pkt_ids, unit) outcome"
  have "\<exists>s'. pool_run ?nx (return_id Checked) (new_with_max 12) [Took 1, Took 2, Gave 1, Took 1] s'"
  proof -
    have "?nx (new_with_max 12) = Ok (Some 1, one_range 2 12)"
      "?nx (one_range 2 12) = Ok (Some 2, one_range 3 12)"
      using next_id_one_range [of 1 12 Checked] next_id_one_range [of 2 12 Checked]
      by (simp_all add: new_with_max_def word_le_nat_alt)
    moreover have "return_id Checked (one_range 3 12) 1 =
        Ok \<lparr>pi_start = 2, ranges = [Vacant, Taken 3 12 0, Taken 1 1 1]\<rparr>"
      by (simp add: return_id_def find_slot.simps insert_head_def maybe_extend_next_node_def wire_simps
          usub_def vacant_slot_def set_at_def)
    moreover have "?nx \<lparr>pi_start = 2, ranges = [Vacant, Taken 3 12 0, Taken 1 1 1]\<rparr> =
        Ok (Some 1, \<lparr>pi_start = 1, ranges = [Vacant, Taken 3 12 0, Vacant]\<rparr>)"
      by (simp add: next_id_def next_in_node_def wire_simps pktid_new_def)
    ultimately show ?thesis by (intro exI) (rule run_Took run_Gave run_Nil | assumption)+
  qed
  then show ?thesis using pool_never_reissues [OF _ l] by auto
qed

lemma next_ids_append:
  "next_ids b (n + k) s = andthen (next_ids b n s :: (pktid option list \<times> pkt_ids, 'e) outcome) (\<lambda>(is1, s1).
    andthen (next_ids b k s1) (\<lambda>(is2, s2). Ok (is1 @ is2, s2)))"
proof (induction n arbitrary: s)
  case 0
  show ?case by (cases "next_ids b k s :: (pktid option list \<times> pkt_ids, 'e) outcome") auto
next
  case (Suc n)
  show ?case
  proof (cases "next_id b s :: (pktid option \<times> pkt_ids, 'e) outcome")
    case (Ok r)
    obtain i s1 where r: "r = (i, s1)" by (cases r)
    show ?thesis
    proof (cases "next_ids b n s1 :: (pktid option list \<times> pkt_ids, 'e) outcome")
      case inner: (Ok r')
      obtain is1 s2 where "r' = (is1, s2)" by (cases r')
      then show ?thesis using Suc [of s1] Ok r inner
        by (cases "next_ids b k s2 :: (pktid option list \<times> pkt_ids, 'e) outcome") auto
    qed (use Suc [of s1] Ok r in auto)
  qed simp_all
qed

lemma next_ids_new:
  "n \<le> 65534 \<Longrightarrow> next_ids b n pktids_new =
    Ok (map (\<lambda>i. Some (word_of_nat i)) [1..<1 + n], one_range (1 + word_of_nat n) 65535)"
  using next_ids_one_range [of 1 n 65535 b] by (simp add: pktids_new_def new_with_max_def)

lemma next_ids_almost_all:
  "next_ids b 65534 pktids_new =
    Ok (map (\<lambda>i. Some (word_of_nat i)) [1..<65535], one_range 65535 65535)"
  using next_ids_new [of 65534 b] by simp

lemma next_ids_three: "next_ids b 3 s = next_ids b (Suc (Suc (Suc 0))) s"
  by (simp add: numeral_3_eq_3)

lemma next_ids_past_the_end:
  "next_ids Checked 1 (one_range 65535 65535) = Panic"
  "next_ids Wrapping 3 (one_range 65535 65535) = Ok ([Some 65535, None, Some 1], one_range 2 65535)"
  by (simp_all add: next_ids_three next_id_last_checked [simplified] next_id_last_wrapping [simplified]
      next_id_one_range [of 1 65535 Wrapping, simplified] word_le_nat_alt)

text \<open>C24: a fresh pool hands out 1, 2, 3 and so on up to 65534. The next call, which should
  hand out 65535, panics in a build with overflow checks; without them it succeeds, the call
  after it finds nothing, and the one after that hands out 1 again although nothing was given
  back.\<close>

theorem pool_exhaustion:
  "next_ids b 65534 pktids_new =
     Ok (map (\<lambda>i. Some (word_of_nat i)) [1..<65535], one_range 65535 65535) \<and>
   next_ids Checked (65534 + 1) pktids_new = Panic \<and>
   next_ids Wrapping (65534 + 3) pktids_new =
     Ok (map (\<lambda>i. Some (word_of_nat i)) [1..<65535] @ [Some 65535, None, Some 1], one_range 2 65535)"
  unfolding next_ids_append next_ids_almost_all andthen.simps prod.case next_ids_past_the_end
  by (intro conjI refl)

lemma return_to_new:
  assumes "i \<noteq> 0"
  shows "return_id Checked pktids_new i = Panic"
    "return_id Wrapping pktids_new i =
      Ok \<lparr>pi_start = 1, ranges = [Vacant, Taken 1 65535 2, Taken i i 0]\<rparr>"
proof -
  have "\<not> i < 1" using assms by (simp add: word_less_nat_alt unat_gt_0 Suc_le_eq)
  then have slot: "find_slot [Vacant, Taken 1 65535 0] i None 1 = Some (Some 1, 0)"
    by (simp add: find_slot.simps wire_simps)
  have "(65536 :: u16) = 0" by simp
  then have ne: "i \<noteq> 65536" using assms by metis
  show "return_id Checked pktids_new i = Panic"
    using slot by (simp add: return_id_def pktids_new_def new_with_max_def insert_between_def
        maybe_extend_prev_node_def wire_simps uadd_def checked_word_def)
  show "return_id Wrapping pktids_new i =
      Ok \<lparr>pi_start = 1, ranges = [Vacant, Taken 1 65535 2, Taken i i 0]\<rparr>"
    using slot assms ne by (simp add: return_id_def pktids_new_def new_with_max_def insert_between_def
        maybe_extend_prev_node_def maybe_extend_next_node_def wire_simps vacant_slot_def set_at_def)
qed

lemma return_to_small:
  "return_id b (new_with_max 2) 2 = Ok \<lparr>pi_start = 1, ranges = [Vacant, Taken 1 2 2, Taken 2 2 0]\<rparr>"
  "next_ids b 3 \<lparr>pi_start = 1, ranges = [Vacant, Taken 1 2 2, Taken 2 2 0]\<rparr> =
    Ok ([Some 1, Some 2, Some 2], \<lparr>pi_start = 2, ranges = [Vacant, Vacant, Taken 3 2 0]\<rparr>)"
  by (simp_all add: return_id_def new_with_max_def insert_between_def find_slot.simps
      maybe_extend_prev_node_def maybe_extend_next_node_def wire_simps vacant_slot_def set_at_def
      uadd_def checked_word_def next_ids_three word_le_nat_alt next_id_def next_in_node_def pktid_new_def)

text \<open>C25: giving back an identifier nobody holds is not refused. On a fresh pool it panics
  in a build with overflow checks, and without them puts the identifier in the list a second
  time; on a smaller pool the same identifier is then handed out twice.\<close>

theorem return_unsolicited:
  assumes "i \<noteq> 0"
  shows "return_id Checked pktids_new i = Panic \<and>
    return_id Wrapping pktids_new i =
      Ok \<lparr>pi_start = 1, ranges = [Vacant, Taken 1 65535 2, Taken i i 0]\<rparr> \<and>
    andthen (return_id b (new_with_max 2) 2) (next_ids b 3) =
      Ok ([Some 1, Some 2, Some 2], \<lparr>pi_start = 2, ranges = [Vacant, Vacant, Taken 3 2 0]\<rparr>)"
  unfolding return_to_new [OF assms] return_to_small andthen.simps by (intro conjI refl)

theorem return_unsolicited_witness:
  "return_id Wrapping pktids_new 9 = Ok \<lparr>pi_start = 1, ranges = [Vacant, Taken 1 65535 2, Taken 9 9 0]\<rparr>"
  by (rule return_unsolicited [THEN conjunct2, THEN conjunct1]) simp

end
