(* ===== verification/Session.thy ===== *)
theory Session
  imports Event_Loop Pktids_Pool
begin

text \<open>
  What the event loop promises: the abstract session with its set of identifiers in flight,
  the proof that every step of the loop is a step of the session, and the absence of panics
  as long as the server is polite.
\<close>

section \<open>Sending\<close>

lemma send_packet_eq:
  assumes "bytes_crate_spec B" "packet_to_mqtt B pkt = (Ok bytes :: (u8 list, io_error) outcome)"
  shows "send_packet B w pkt = (case w of None \<Rightarrow> Ok [Sent pkt bytes] | Some e \<Rightarrow> Err e)"
  using encode_appends [OF assms, of "[]"] by (simp add: send_packet_def)

lemma send_packet_Ok:
  assumes "bytes_crate_spec B"
  shows "send_packet B w pkt = Ok effs \<longleftrightarrow>
    w = None \<and> (\<exists>bytes. packet_to_mqtt B pkt = (Ok bytes :: (u8 list, io_error) outcome) \<and>
      effs = [Sent pkt bytes])"
  using bytes_crate_specD(4) [OF assms, of "[]"]
  by (cases "packet_to_mqtt B pkt :: (u8 list, io_error) outcome")
    (auto simp: send_packet_def encode_def split: option.splits)

text \<open>The acknowledgement of an incoming message has no encoder.\<close>

lemma send_puback_panics: "send_packet B w (PubAckPkt p) = Panic"
  by (simp add: send_packet_def encode_def packet_to_mqtt_def)

text \<open>What the client sends can always be encoded.\<close>

lemma client_packets_encode:
  "\<exists>bytes. packet_to_mqtt B (PublishPkt (at_most_once t p r ps)) = Ok bytes"
  "\<exists>bytes. packet_to_mqtt B (PublishPkt (at_least_once t p r ps i)) = Ok bytes"
  "\<exists>bytes. packet_to_mqtt B (PublishPkt (exactly_once t p r ps i)) = Ok bytes"
  "\<exists>bytes. packet_to_mqtt B (SubscribePkt s) = Ok bytes"
  "\<exists>bytes. packet_to_mqtt B (UnsubscribePkt u) = Ok bytes"
  "\<exists>bytes. packet_to_mqtt B (PingReqPkt q) = Ok bytes"
  "\<exists>bytes. packet_to_mqtt B (DisconnectPkt d) = Ok bytes"
  "\<exists>bytes. packet_to_mqtt B connect_packet = Ok bytes"
  by (simp_all add: packet_to_mqtt_def at_most_once_def at_least_once_def exactly_once_def
      publish_new_def publish_to_mqtt_def connect_packet_def Let_def)

lemma send_packet_total:
  assumes "bytes_crate_spec B" "\<exists>bytes. packet_to_mqtt B pkt = (Ok bytes :: (u8 list, io_error) outcome)"
  shows "send_packet B w pkt \<noteq> Panic" "send_packet B w pkt \<noteq> Diverge"
    "send_packet B w pkt = Err e \<longleftrightarrow> w = Some e"
  using assms by (auto simp: send_packet_eq split: option.splits)

section \<open>The identifiers in flight\<close>

definition in_flight :: "ev_state \<Rightarrow> pktid set" where
  "in_flight s = all_ids 65535 - pi_free (pktids s)"

definition ev_inv :: "ev_state \<Rightarrow> bool" where
  "ev_inv s \<longleftrightarrow>
     pi_inv 65535 0 (pktids s) \<and> distinct (map fst (queue s)) \<and>
     fst ` set (queue s) \<subseteq> in_flight s \<and>
     (\<forall>(i, p) \<in> set (queue s). publish_qos p = AtLeastOnce \<and> pktid p = Some i)"

text \<open>A server that acknowledges only what is in flight, and a queued message only by PUBACK.\<close>

fun polite :: "ev_state \<Rightarrow> event \<Rightarrow> bool" where
  "polite s (Read (Some (Ok (SubAckPkt m)))) \<longleftrightarrow>
     suback_pktid m \<in> in_flight s - fst ` set (queue s)"
| "polite s (Read (Some (Ok (UnsubAckPkt m)))) \<longleftrightarrow>
     unsuback_pktid m \<in> in_flight s - fst ` set (queue s)"
| "polite s (Read (Some (Ok (PubAckPkt m)))) \<longleftrightarrow> puback_pktid m \<in> in_flight s"
| "polite s e \<longleftrightarrow> True"

text \<open>The pool still has an identifier besides 65535.\<close>

definition pool_ready :: "ev_state \<Rightarrow> bool" where
  "pool_ready s \<longleftrightarrow> pi_free (pktids s) \<noteq> {65535}"

lemma ev_start_inv: "ev_inv ev_start" "in_flight ev_start = {}" "pool_ready ev_start"
proof -
  have free: "pi_free (pktids ev_start) = all_ids 65535"
    by (simp add: ev_start_def pktids_new_def pi_free_new)
  then show "in_flight ev_start = {}" by (simp add: in_flight_def)
  then show "ev_inv ev_start"
    by (simp add: ev_inv_def) (simp add: ev_start_def pktids_new_def pi_inv_new)
  have "(1 :: pktid) \<in> all_ids 65535"
    by (simp add: all_ids_def word_le_nat_alt)
  then show "pool_ready ev_start" unfolding pool_ready_def free by auto
qed

lemma next_id_ready:
  assumes "ev_inv s" "pool_ready s"
  obtains i ids where
    "next_id b (pktids s) = (Ok (Some i, ids) :: (pktid option \<times> pkt_ids, io_error) outcome)"
    "i \<notin> in_flight s" "i \<noteq> 0" "in_flight (s\<lparr>pktids := ids\<rparr>) = insert i (in_flight s)"
    "pi_inv 65535 0 ids"
proof -
  let ?p = "pktids s"
  have inv: "pi_inv 65535 0 ?p" using assms(1) by (simp add: ev_inv_def)
  have ne: "pi_free ?p \<noteq> {}" using pool_top [OF inv] by auto
  have "pi_free ?p \<noteq> {65535}" using assms(2) by (simp add: pool_ready_def)
  from next_id_some [OF inv ne this, of b] obtain ids where
    n: "next_id b ?p = (Ok (Some (Min (pi_free ?p)), ids) :: (pktid option \<times> pkt_ids, io_error) outcome)"
      "pi_inv 65535 0 ids" "pi_free ids = pi_free ?p - {Min (pi_free ?p)}" .
  have i: "Min (pi_free ?p) \<in> pi_free ?p" using ne by (simp add: finite_subset [OF subset_UNIV])
  have sub: "pi_free ?p \<subseteq> all_ids 65535" by (rule pool.free_ids [OF inv])
  show ?thesis
  proof (rule that [OF n(1)])
    show "Min (pi_free ?p) \<notin> in_flight s" using i by (simp add: in_flight_def)
    show "Min (pi_free ?p) \<noteq> 0" using i sub by (auto simp: all_ids_def)
    show "in_flight (s\<lparr>pktids := ids\<rparr>) = insert (Min (pi_free ?p)) (in_flight s)"
      using i sub n(3) by (auto simp: in_flight_def)
  qed (rule n(2))
qed

lemma with_next_id_Ok:
  assumes "ev_inv s" "b = Checked \<or> pool_ready s" "with_next_id b s f = Ok r"
  obtains i ids where "f i (s\<lparr>pktids := ids\<rparr>) = Ok r" "i \<notin> in_flight s" "i \<noteq> 0"
    "in_flight (s\<lparr>pktids := ids\<rparr>) = insert i (in_flight s)" "pi_inv 65535 0 ids"
proof (cases "pool_ready s")
  case True
  show ?thesis
    by (rule next_id_ready [OF assms(1) True, of b], rule that)
      (use assms(3) in \<open>simp_all add: with_next_id_def\<close>)
next
  case False
  then have "with_next_id b s f = Panic"
    using assms(1,2) by (simp add: with_next_id_def pool_ready_def ev_inv_def next_id_stuck)
  with assms(3) show ?thesis by simp
qed

lemma return_in_flight:
  assumes "ev_inv s" "i \<in> in_flight s"
  obtains ids where "return_id b (pktids s) i = (Ok ids :: (pkt_ids, io_error) outcome)"
    "pi_inv 65535 0 ids" "in_flight (s\<lparr>pktids := ids\<rparr>) = in_flight s - {i}"
proof -
  have i: "pi_inv 65535 0 (pktids s)" "i \<in> all_ids 65535" "i \<notin> pi_free (pktids s)"
    using assms by (simp_all add: ev_inv_def in_flight_def)
  have "\<exists>ids. return_id b (pktids s) i = (Ok ids :: (pkt_ids, io_error) outcome) \<and>
      pi_inv 65535 0 ids \<and> pi_free ids = insert i (pi_free (pktids s))"
    by (rule pool.gv_back [OF i])
  then show ?thesis using that by (auto simp: in_flight_def)
qed

section \<open>The session\<close>

text \<open>
  What the loop promises, without ranges or a vector: a set of identifiers in flight, the
  published messages not acknowledged yet, and the state of the ping. A step that needs an
  identifier uses any that is not in flight.
\<close>

record session =
  open_ids :: "pktid set"
  unacked :: "(pktid \<times> publish) list"
  ping :: "bool option"

definition session_of :: "ev_state \<Rightarrow> session" where
  "session_of s = \<lparr>open_ids = in_flight s, unacked = queue s, ping = pingresp_received s\<rparr>"

fun packet_id :: "packet \<Rightarrow> pktid option" where
  "packet_id (PublishPkt p) = pktid p"
| "packet_id (SubscribePkt p) = Some (sub_pktid p)"
| "packet_id (UnsubscribePkt p) = Some (unsub_pktid p)"
| "packet_id _ = None"

text \<open>The packet a command becomes, given the identifier if it takes one.\<close>

inductive command_packet :: "command \<Rightarrow> pktid \<Rightarrow> packet \<Rightarrow> bool" where
  "command_packet (CmdPublish t p ps AtMostOnce r) i (PublishPkt (at_most_once t p r ps))"
| "command_packet (CmdPublish t p ps AtLeastOnce r) i (PublishPkt (at_least_once t p r ps i))"
| "command_packet (CmdPublish t p ps ExactlyOnce r) i (PublishPkt (exactly_once t p r ps i))"
| "command_packet (CmdSubscribe t q) i (SubscribePkt (subscribe_new t i q))"
| "command_packet (CmdUnsubscribe ts) i (UnsubscribePkt (unsubscribe_new ts i))"

text \<open>A message that is kept until it is acknowledged.\<close>

fun kept :: "packet \<Rightarrow> (pktid \<times> publish) list" where
  "kept (PublishPkt p) =
     (case pktid p of Some i \<Rightarrow> if publish_qos p = AtLeastOnce then [(i, p)] else [] | None \<Rightarrow> [])"
| "kept _ = []"

inductive session_step ::
  "bytes_crate \<Rightarrow> session \<Rightarrow> event \<Rightarrow> effect list \<Rightarrow> session \<Rightarrow> bool" for B
where
  session_ping: "ping A \<noteq> Some False \<Longrightarrow>
    session_step B A Tick [Sent (PingReqPkt PingReqPacket) [192, 0]] (A\<lparr>ping := Some False\<rparr>)"
| session_pong: "session_step B A (Read (Some (Ok (PingRespPkt m)))) [] (A\<lparr>ping := Some True\<rparr>)"
| session_suback: "suback_pktid m \<in> open_ids A \<Longrightarrow>
    session_step B A (Read (Some (Ok (SubAckPkt m)))) [Notified (NSubAck m)]
      (A\<lparr>open_ids := open_ids A - {suback_pktid m}\<rparr>)"
| session_unsuback: "unsuback_pktid m \<in> open_ids A \<Longrightarrow>
    session_step B A (Read (Some (Ok (UnsubAckPkt m)))) [Notified (NUnsubAck m)]
      (A\<lparr>open_ids := open_ids A - {unsuback_pktid m}\<rparr>)"
| session_puback: "puback_pktid m \<in> open_ids A \<Longrightarrow>
    session_step B A (Read (Some (Ok (PubAckPkt m)))) []
      (A\<lparr>open_ids := open_ids A - {puback_pktid m},
         unacked := filter (\<lambda>(i, _). i \<noteq> puback_pktid m) (unacked A)\<rparr>)"
| session_message: "publish_qos m = AtMostOnce \<Longrightarrow>
    session_step B A (Read (Some (Ok (PublishPkt m)))) [Notified (NMessage (DebugPublish m))] A"
| session_other: "\<not> server_type (packet_type_of m) \<or> packet_type_of m = ConnackType \<Longrightarrow>
    session_step B A (Read (Some (Ok m))) [Notified (NMessage (DebugPacket m))] A"
| session_command: "command_packet cmd i pkt \<Longrightarrow> packet_id pkt \<noteq> None \<Longrightarrow>
    i \<notin> open_ids A \<Longrightarrow> i \<noteq> 0 \<Longrightarrow>
    packet_to_mqtt B pkt = (Ok bytes :: (u8 list, io_error) outcome) \<Longrightarrow>
    session_step B A (Command (Some cmd)) [Sent pkt bytes]
      (A\<lparr>open_ids := insert i (open_ids A), unacked := unacked A @ kept pkt\<rparr>)"
| session_fire_and_forget: "command_packet cmd i pkt \<Longrightarrow> packet_id pkt = None \<Longrightarrow>
    packet_to_mqtt B pkt = (Ok bytes :: (u8 list, io_error) outcome) \<Longrightarrow>
    session_step B A (Command (Some cmd)) [Sent pkt bytes] A"
| session_idle: "session_step B A (Command None) [] A"

lemma remove_queued:
  assumes "distinct (map fst q)"
  shows "(case position (\<lambda>(i, _). i = x) q of
       Some idx \<Rightarrow> take idx q @ drop (idx + 1) q | None \<Rightarrow> q) = filter (\<lambda>(i, _). i \<noteq> x) q"
  using assms
proof (induction q)
  case (Cons a q)
  have "x \<notin> fst ` set q \<Longrightarrow> filter (\<lambda>(i, _). i \<noteq> x) q = q" by (force simp: filter_id_conv)
  then show ?case using Cons by (cases a; cases "position (\<lambda>(i, _). i = x) q") auto
qed simp

section \<open>The loop implements the session\<close>

lemma session_of_update:
  "session_of (s\<lparr>pingresp_received := v\<rparr>) = (session_of s)\<lparr>ping := v\<rparr>"
  "session_of (s\<lparr>pktids := ids\<rparr>) = (session_of s)\<lparr>open_ids := in_flight (s\<lparr>pktids := ids\<rparr>)\<rparr>"
  "session_of (s\<lparr>queue := q\<rparr>) = (session_of s)\<lparr>unacked := q\<rparr>"
  "open_ids (session_of s) = in_flight s"
  "unacked (session_of s) = queue s"
  "ping (session_of s) = pingresp_received s"
  by (simp_all add: session_of_def in_flight_def)

lemma in_flight_frame [simp]:
  "in_flight (s\<lparr>pingresp_received := v\<rparr>) = in_flight s"
  "in_flight (s\<lparr>queue := q\<rparr>) = in_flight s"
  "in_flight (s\<lparr>queue := q, pktids := ids\<rparr>) = in_flight (s\<lparr>pktids := ids\<rparr>)"
  by (simp_all add: in_flight_def)

lemma ev_inv_ping [simp]: "ev_inv (s\<lparr>pingresp_received := v\<rparr>) \<longleftrightarrow> ev_inv s"
  by (simp add: ev_inv_def)

lemma kept_of_id:
  "packet_id pkt = Some i \<Longrightarrow> kept pkt = [] \<or>
    (\<exists>p. kept pkt = [(i, p)] \<and> publish_qos p = AtLeastOnce \<and> pktid p = Some i)"
  by (cases pkt) auto

lemma session_taken:
  assumes "bytes_crate_spec B" "ev_inv s" "send_packet B w pkt = Ok effs"
    and "command_packet cmd i pkt" "packet_id pkt = Some i"
    and "i \<notin> in_flight s" "i \<noteq> 0" "in_flight (s\<lparr>pktids := ids\<rparr>) = insert i (in_flight s)"
    "pi_inv 65535 0 ids" and s': "s' = s\<lparr>pktids := ids, queue := queue s @ kept pkt\<rparr>"
  shows "ev_inv s' \<and> session_step B (session_of s) (Command (Some cmd)) effs (session_of s')"
proof
  have flight: "in_flight s' = insert i (in_flight s)" using assms(8) s' by (simp add: in_flight_def)
  show "ev_inv s'"
    using assms(2,6,9) kept_of_id [OF assms(5)] flight unfolding ev_inv_def s' by auto
  obtain bytes where bytes: "packet_to_mqtt B pkt = (Ok bytes :: (u8 list, io_error) outcome)"
      "effs = [Sent pkt bytes]"
    using assms(3) by (auto simp: send_packet_Ok [OF assms(1)])
  have "session_of s' = (session_of s)\<lparr>open_ids := insert i (open_ids (session_of s)),
      unacked := unacked (session_of s) @ kept pkt\<rparr>"
    using flight s' by (simp add: session_of_def)
  then show "session_step B (session_of s) (Command (Some cmd)) effs (session_of s')"
    using session_command [OF assms(4) _ _ assms(7) bytes(1), where A = "session_of s"] assms(5,6) bytes(2)
    by (simp add: session_of_update)
qed

lemma with_next_id_step:
  assumes "bytes_crate_spec B" "ev_inv s" "b = Checked \<or> pool_ready s"
    and "with_next_id b s f = Ok (effs, Continue s')"
    and f: "\<And>i s1. f i s1 = andthen (send_packet B w (mk i)) (\<lambda>sent.
      Ok (sent, Continue (s1\<lparr>queue := queue s1 @ kept (mk i)\<rparr>)))"
    and "\<And>i. command_packet cmd i (mk i)" "\<And>i. packet_id (mk i) = Some i"
  shows "ev_inv s' \<and> session_step B (session_of s) (Command (Some cmd)) effs (session_of s')"
proof -
  obtain i ids where
    1: "f i (s\<lparr>pktids := ids\<rparr>) = Ok (effs, Continue s')" "i \<notin> in_flight s" "i \<noteq> 0"
    "in_flight (s\<lparr>pktids := ids\<rparr>) = insert i (in_flight s)" "pi_inv 65535 0 ids"
    by (rule with_next_id_Ok [OF assms(2-4)])
  then have "send_packet B w (mk i) = Ok effs" "s' = s\<lparr>pktids := ids, queue := queue s @ kept (mk i)\<rparr>"
    by (auto simp: f andthen_eq_Ok)
  then show ?thesis using session_taken [OF assms(1,2)] assms(6,7) 1(2-5) by blast
qed

lemma publish_command_step:
  assumes "bytes_crate_spec B" "ev_inv s" "b = Checked \<or> pool_ready s"
    and "handle_command B b w (CmdPublish t p ps q r) s = Ok (effs, Continue s')"
  shows "ev_inv s' \<and> session_step B (session_of s) (Command (Some (CmdPublish t p ps q r))) effs (session_of s')"
proof (cases q)
  case AtMostOnce
  with assms(4) obtain bytes where
    "packet_to_mqtt B (PublishPkt (at_most_once t p r ps)) = (Ok bytes :: (u8 list, io_error) outcome)"
    "effs = [Sent (PublishPkt (at_most_once t p r ps)) bytes]" "s' = s"
    by (auto simp: handle_command_def prepare_publish_def andthen_eq_Ok send_packet_Ok [OF assms(1)])
  then show ?thesis
    using assms(2) AtMostOnce session_fire_and_forget [OF command_packet.intros(1)]
    by (simp add: at_most_once_def publish_new_def)
next
  case AtLeastOnce
  have "handle_command B b w (CmdPublish t p ps q r) s = with_next_id b s (\<lambda>i s.
      andthen (send_packet B w (PublishPkt (at_least_once t p r ps i))) (\<lambda>sent.
      Ok (sent, Continue (s\<lparr>queue := queue s @ kept (PublishPkt (at_least_once t p r ps i))\<rparr>))))"
    by (cases "next_id b (pktids s) :: (pktid option \<times> pkt_ids, io_error) outcome")
      (auto simp: handle_command_def AtLeastOnce prepare_publish_def with_next_id_def
        at_least_once_def publish_new_def publish_qos_def Let_def split: option.splits)
  from with_next_id_step [where cmd = "CmdPublish t p ps q r", OF assms(1-3) trans [OF this [symmetric] assms(4)] refl] show ?thesis
    by (simp add: AtLeastOnce command_packet.intros) (simp add: at_least_once_def publish_new_def)
next
  case ExactlyOnce
  have "handle_command B b w (CmdPublish t p ps q r) s = with_next_id b s (\<lambda>i s.
      andthen (send_packet B w (PublishPkt (exactly_once t p r ps i))) (\<lambda>sent.
      Ok (sent, Continue (s\<lparr>queue := queue s @ kept (PublishPkt (exactly_once t p r ps i))\<rparr>))))"
    by (cases "next_id b (pktids s) :: (pktid option \<times> pkt_ids, io_error) outcome")
      (auto simp: handle_command_def ExactlyOnce prepare_publish_def with_next_id_def
        exactly_once_def publish_new_def publish_qos_def Let_def split: option.splits)
  from with_next_id_step [where cmd = "CmdPublish t p ps q r", OF assms(1-3) trans [OF this [symmetric] assms(4)] refl] show ?thesis
    by (simp add: ExactlyOnce command_packet.intros) (simp add: exactly_once_def publish_new_def)
qed

lemma command_step:
  assumes "bytes_crate_spec B" "ev_inv s" "b = Checked \<or> pool_ready s"
    and "handle_command B b w cmd s = Ok (effs, Continue s')"
  shows "ev_inv s' \<and> session_step B (session_of s) (Command (Some cmd)) effs (session_of s')"
proof (cases cmd)
  case (CmdPublish t p ps q r)
  then show ?thesis using publish_command_step [OF assms(1-3)] assms(4) by simp
next
  case (CmdSubscribe t q)
  have "handle_command B b w cmd s = with_next_id b s (\<lambda>i s.
      andthen (send_packet B w (SubscribePkt (subscribe_new t i q))) (\<lambda>sent.
      Ok (sent, Continue (s\<lparr>queue := queue s @ kept (SubscribePkt (subscribe_new t i q))\<rparr>))))"
    by (simp add: handle_command_def CmdSubscribe)
  from with_next_id_step [where cmd = cmd, OF assms(1-3) trans [OF this [symmetric] assms(4)] refl] show ?thesis
    by (simp add: CmdSubscribe command_packet.intros) (simp add: subscribe_new_def)
next
  case (CmdUnsubscribe ts)
  have "handle_command B b w cmd s = with_next_id b s (\<lambda>i s.
      andthen (send_packet B w (UnsubscribePkt (unsubscribe_new ts i))) (\<lambda>sent.
      Ok (sent, Continue (s\<lparr>queue := queue s @ kept (UnsubscribePkt (unsubscribe_new ts i))\<rparr>))))"
    by (simp add: handle_command_def CmdUnsubscribe)
  from with_next_id_step [where cmd = cmd, OF assms(1-3) trans [OF this [symmetric] assms(4)] refl] show ?thesis
    by (simp add: CmdUnsubscribe command_packet.intros) (simp add: unsubscribe_new_def)
next
  case CmdDisconnect
  with assms(4) show ?thesis by (auto simp: handle_command_def andthen_eq_Ok)
qed

lemma return_step:
  assumes "ev_inv s" "i \<in> in_flight s" "i \<notin> fst ` set q" "set q \<subseteq> set (queue s)" "distinct (map fst q)"
  obtains ids where "return_id b (pktids s) i = (Ok ids :: (pkt_ids, io_error) outcome)"
    "ev_inv (s\<lparr>pktids := ids, queue := q\<rparr>)"
    "session_of (s\<lparr>pktids := ids, queue := q\<rparr>) =
      (session_of s)\<lparr>open_ids := open_ids (session_of s) - {i}, unacked := q\<rparr>"
proof -
  obtain ids where r: "return_id b (pktids s) i = (Ok ids :: (pkt_ids, io_error) outcome)"
    "pi_inv 65535 0 ids" "in_flight (s\<lparr>pktids := ids\<rparr>) = in_flight s - {i}"
    by (rule return_in_flight [OF assms(1,2)])
  have flight: "in_flight (s\<lparr>pktids := ids, queue := q\<rparr>) = in_flight s - {i}"
    using r(3) by (simp add: in_flight_def)
  have "fst ` set q \<subseteq> in_flight s - {i}"
    using assms(1,3,4) by (force simp: ev_inv_def)
  then have "ev_inv (s\<lparr>pktids := ids, queue := q\<rparr>)"
    using assms(1,4,5) r(2) unfolding ev_inv_def flight by auto
  moreover have "session_of (s\<lparr>pktids := ids, queue := q\<rparr>) =
      (session_of s)\<lparr>open_ids := open_ids (session_of s) - {i}, unacked := q\<rparr>"
    using flight by (simp add: session_of_def)
  ultimately show ?thesis using that r(1) by blast
qed

lemma return_step_same:
  assumes "ev_inv s" "i \<in> in_flight s - fst ` set (queue s)"
  obtains ids where "return_id b (pktids s) i = (Ok ids :: (pkt_ids, io_error) outcome)"
    "ev_inv (s\<lparr>pktids := ids\<rparr>)"
    "session_of (s\<lparr>pktids := ids\<rparr>) = (session_of s)\<lparr>open_ids := open_ids (session_of s) - {i}\<rparr>"
proof (rule return_step [OF assms(1), of i "queue s" b])
  fix ids
  assume r: "return_id b (pktids s) i = (Ok ids :: (pkt_ids, io_error) outcome)"
    "ev_inv (s\<lparr>pktids := ids, queue := queue s\<rparr>)"
    "session_of (s\<lparr>pktids := ids, queue := queue s\<rparr>) =
      (session_of s)\<lparr>open_ids := open_ids (session_of s) - {i}, unacked := queue s\<rparr>"
  show thesis
  proof (rule that [OF r(1)])
    show "ev_inv (s\<lparr>pktids := ids\<rparr>)" using r(2) by simp
    show "session_of (s\<lparr>pktids := ids\<rparr>) = (session_of s)\<lparr>open_ids := open_ids (session_of s) - {i}\<rparr>"
      using r(3) by (simp add: session_of_def)
  qed
qed (use assms in \<open>auto simp: ev_inv_def\<close>)

lemma packet_step:
  assumes "bytes_crate_spec B" "ev_inv s" "polite s (Read (Some (Ok pkt)))"
    and "handle_packet B b w pkt s = Ok (effs, Continue s')"
  shows "ev_inv s' \<and> session_step B (session_of s) (Read (Some (Ok pkt))) effs (session_of s')"
proof (cases pkt)
  case (SubAckPkt m)
  with assms(3) have i: "suback_pktid m \<in> in_flight s - fst ` set (queue s)" by simp
  show ?thesis
    by (rule return_step_same [OF assms(2) i, of b])
      (use assms(4) i SubAckPkt session_suback [of m "session_of s" B] in
        \<open>simp add: handle_packet_def session_of_update(4)\<close>)
next
  case (UnsubAckPkt m)
  with assms(3) have i: "unsuback_pktid m \<in> in_flight s - fst ` set (queue s)" by simp
  show ?thesis
    by (rule return_step_same [OF assms(2) i, of b])
      (use assms(4) i UnsubAckPkt session_unsuback [of m "session_of s" B] in
        \<open>simp add: handle_packet_def session_of_update(4)\<close>)
next
  case (PubAckPkt m)
  let ?i = "puback_pktid m"
  let ?q = "filter (\<lambda>(i, _). i \<noteq> ?i) (queue s)"
  have d: "distinct (map fst (queue s))" using assms(2) by (simp add: ev_inv_def)
  have i: "?i \<in> in_flight s" using assms(3) PubAckPkt by simp
  have q: "?i \<notin> fst ` set ?q" "set ?q \<subseteq> set (queue s)" "distinct (map fst ?q)"
    using d by (auto simp: distinct_map_filter)
  show ?thesis
    by (rule return_step [OF assms(2) i q, of b])
      (use assms(4) i PubAckPkt session_puback [of m "session_of s" B] in
        \<open>simp add: handle_packet_def handle_puback_def remove_queued [OF d] session_of_update(4,5)\<close>)
next
  case (PublishPkt m)
  then have "publish_qos m = AtMostOnce" "effs = [Notified (NMessage (DebugPublish m))]" "s' = s"
    using assms(4) by (auto simp: handle_packet_def handle_publish_def send_puback_panics
        split: qos.splits option.splits)
  then show ?thesis using PublishPkt assms(2) session_message by simp
next
  case (DisconnectPkt d)
  then show ?thesis using assms(4) by (simp add: handle_packet_def split: disconnect_reason.splits)
qed (use assms(2,4) in \<open>auto simp: handle_packet_def session_of_update server_type_def
  intro!: session_pong session_other\<close>)

text \<open>Every step of the loop that goes on is a step of the session.\<close>

lemma ev_step_session:
  assumes "bytes_crate_spec B" "ev_inv s" "polite s e" "b = Checked \<or> pool_ready s"
    and "ev_step B b w e s = Ok (effs, Continue s')"
  shows "ev_inv s' \<and> session_step B (session_of s) e effs (session_of s')"
proof (cases e)
  case Tick
  then have "pingresp_received s \<noteq> Some False" "s' = s\<lparr>pingresp_received := Some False\<rparr>"
      "effs = [Sent (PingReqPkt PingReqPacket) [192, 0]]"
    using assms(5) by (auto simp: ev_step_def handle_tick_def andthen_eq_Ok send_packet_Ok [OF assms(1)]
        packet_to_mqtt_def pingreq_to_mqtt_def split: if_splits)
  then show ?thesis using Tick assms(2) session_ping [of "session_of s" B]
    by (simp add: session_of_update)
next
  case (Read r)
  then obtain pkt where "r = Some (Ok pkt)" "handle_packet B b w pkt s = Ok (effs, Continue s')"
    using assms(5) by (cases r) (auto simp: ev_step_def andthen_eq_Ok)
  then show ?thesis using packet_step [OF assms(1,2)] assms(3) Read by simp
next
  case (Command c)
  show ?thesis
  proof (cases c)
    case None
    then show ?thesis using assms(2,5) Command session_idle by (simp add: ev_step_def)
  next
    case (Some cmd)
    then show ?thesis using command_step [OF assms(1,2,4)] assms(5) Command by (simp add: ev_step_def)
  qed
qed

section \<open>Whole runs\<close>

text \<open>
  What holds of every state a run goes through and the event that comes next: that the server
  is polite, and that the pool has an identifier besides 65535.
\<close>

fun throughout ::
  "(ev_state \<Rightarrow> event \<Rightarrow> bool) \<Rightarrow> bytes_crate \<Rightarrow> build \<Rightarrow> (write_error \<times> event) list \<Rightarrow> ev_state \<Rightarrow> bool"
where
  "throughout P B b [] s \<longleftrightarrow> True"
| "throughout P B b ((w, e) # es) s \<longleftrightarrow> P s e \<and>
     (case ev_step B b w e s of Ok (_, Continue s') \<Rightarrow> throughout P B b es s' | _ \<Rightarrow> True)"

abbreviation polite_run :: "bytes_crate \<Rightarrow> build \<Rightarrow> (write_error \<times> event) list \<Rightarrow> ev_state \<Rightarrow> bool" where
  "polite_run \<equiv> throughout polite"

abbreviation ready_run :: "bytes_crate \<Rightarrow> build \<Rightarrow> (write_error \<times> event) list \<Rightarrow> ev_state \<Rightarrow> bool" where
  "ready_run \<equiv> throughout (\<lambda>s _. pool_ready s)"

inductive session_run ::
  "bytes_crate \<Rightarrow> session \<Rightarrow> event list \<Rightarrow> effect list \<Rightarrow> session \<Rightarrow> bool" for B
where
  session_run_Nil: "session_run B A [] [] A"
| session_run_Cons: "session_step B A e effs A' \<Longrightarrow> session_run B A' es effs' A'' \<Longrightarrow>
    session_run B A (e # es) (effs @ effs') A''"

lemma ev_run_Cons_Continue:
  "ev_run B b ((w, e) # es) s = Ok (effs, Continue s') \<longleftrightarrow>
    (\<exists>effs1 s1 effs2. ev_step B b w e s = Ok (effs1, Continue s1) \<and>
      ev_run B b es s1 = Ok (effs2, Continue s') \<and> effs = effs1 @ effs2)"
  by (cases "ev_step B b w e s") (auto simp: andthen_eq_Ok split: control.splits prod.splits)

lemma ev_run_session:
  assumes "bytes_crate_spec B"
  shows "ev_inv s \<Longrightarrow> polite_run B b es s \<Longrightarrow> b = Checked \<or> ready_run B b es s \<Longrightarrow>
    ev_run B b es s = Ok (effs, Continue s') \<Longrightarrow>
    ev_inv s' \<and> session_run B (session_of s) (map snd es) effs (session_of s')"
proof (induction es arbitrary: s effs)
  case Nil
  then show ?case by (simp add: session_run_Nil)
next
  case (Cons we es)
  obtain w e where we: "we = (w, e)" by (cases we)
  with Cons.prems(4) obtain effs1 s1 effs2 where
    1: "ev_step B b w e s = Ok (effs1, Continue s1)" "effs = effs1 @ effs2"
    and run: "ev_run B b es s1 = Ok (effs2, Continue s')"
    by (auto simp: ev_run_Cons_Continue simp del: ev_run.simps)
  have "polite s e" "polite_run B b es s1" using Cons.prems(2) we 1(1) by simp_all
  moreover have "b = Checked \<or> pool_ready s" "b = Checked \<or> ready_run B b es s1"
    using Cons.prems(3) we 1(1) by auto
  ultimately have step: "ev_inv s1 \<and> session_step B (session_of s) e effs1 (session_of s1)"
    and rest: "polite_run B b es s1" "b = Checked \<or> ready_run B b es s1"
    using ev_step_session [OF assms Cons.prems(1) _ _ 1(1)] by blast+
  then show ?case
    using Cons.IH [of s1 effs2] run we 1(2) by (auto intro: session_run_Cons simp del: ev_run.simps)
qed

text \<open>The ping flag is a function of the events since the last tick or answer.\<close>

fun ping_status :: "event \<Rightarrow> bool option \<Rightarrow> bool option" where
  "ping_status Tick v = Some False"
| "ping_status (Read (Some (Ok (PingRespPkt _)))) v = Some True"
| "ping_status _ v = v"

lemma ev_step_ping:
  assumes "ev_step B b w e s = Ok (effs, Continue s')"
  shows "pingresp_received s' = ping_status e (pingresp_received s)"
proof (cases e)
  case (Read r)
  then obtain pkt where "r = Some (Ok pkt)" "handle_packet B b w pkt s = Ok (effs, Continue s')"
    using assms by (cases r) (auto simp: ev_step_def andthen_eq_Ok)
  then show ?thesis using Read
    by (cases pkt) (auto simp: handle_packet_def handle_puback_def handle_publish_def andthen_eq_Ok Let_def
        split: disconnect_reason.splits)
next
  case (Command c)
  then show ?thesis using assms
    by (cases c) (auto simp: ev_step_def handle_command_def prepare_publish_def with_next_id_def
        andthen_eq_Ok Let_def split: command.splits option.splits qos.splits)
qed (use assms in \<open>auto simp: ev_step_def handle_tick_def andthen_eq_Ok split: if_splits\<close>)

lemma ev_run_ping:
  "ev_run B b es s = Ok (effs, Continue s') \<Longrightarrow>
    pingresp_received s' = fold ping_status (map snd es) (pingresp_received s)"
proof (induction es arbitrary: s effs)
  case (Cons we es)
  then show ?case by (cases we) (auto simp: ev_run_Cons_Continue dest: ev_step_ping simp del: ev_run.simps)
qed simp

section \<open>Panics\<close>

text \<open>
  The events the loop cannot handle: a message with a quality of service above zero, and a
  packet on which the decoder panics.
\<close>

fun unsupported :: "event \<Rightarrow> bool" where
  "unsupported (Read (Some (Ok (PublishPkt m)))) \<longleftrightarrow> publish_qos m \<noteq> AtMostOnce"
| "unsupported (Read (Some Panic)) \<longleftrightarrow> True"
| "unsupported (Read (Some Diverge)) \<longleftrightarrow> True"
| "unsupported _ \<longleftrightarrow> False"

lemma with_next_id_total:
  assumes "ev_inv s" "pool_ready s" "\<And>i s. f i s \<noteq> Panic" "\<And>i s. f i s \<noteq> Diverge"
  shows "with_next_id b s f \<noteq> Panic" "with_next_id b s f \<noteq> Diverge"
  by (rule next_id_ready [OF assms(1,2), of b]; simp add: with_next_id_def assms(3,4))+

lemma handle_command_total:
  assumes "bytes_crate_spec B" "ev_inv s" "pool_ready s"
  shows "handle_command B b w cmd s \<noteq> Panic \<and> handle_command B b w cmd s \<noteq> Diverge"
proof -
  note send = send_packet_total [OF assms(1)]
  have "prepare_publish b t p ps q r s \<noteq> Panic \<and> prepare_publish b t p ps q r s \<noteq> Diverge" for t p ps q r
    by (cases q) (simp_all add: prepare_publish_def Let_def with_next_id_total [OF assms(2,3)])
  moreover have "\<exists>bytes. packet_to_mqtt B (PublishPkt pkt) = (Ok bytes :: (u8 list, io_error) outcome)"
    if "prepare_publish b t p ps q r s = Ok (pkt, s')" for t p ps q r pkt s'
    using that client_packets_encode(1-3) [of B]
    by (cases q) (auto simp: prepare_publish_def with_next_id_def andthen_eq_Ok Let_def
        split: option.splits)
  ultimately show ?thesis
    by (cases cmd)
      (auto simp: handle_command_def andthen_eq_Panic andthen_eq_Diverge send
        with_next_id_total [OF assms(2,3)] client_packets_encode)
qed

lemma ev_step_total:
  assumes "bytes_crate_spec B" "ev_inv s" "pool_ready s" "polite s e" "\<not> unsupported e"
  shows "ev_step B b w e s \<noteq> Panic \<and> ev_step B b w e s \<noteq> Diverge"
proof (cases e)
  case Tick
  then show ?thesis using send_packet_total [OF assms(1) client_packets_encode(6)]
    by (simp add: ev_step_def handle_tick_def andthen_eq_Panic andthen_eq_Diverge)
next
  case (Command c)
  then show ?thesis using handle_command_total [OF assms(1-3)] by (cases c) (simp_all add: ev_step_def)
next
  case (Read r)
  show ?thesis
  proof (cases r)
    case None
    then show ?thesis using Read by (simp add: ev_step_def)
  next
    case (Some r')
    note R = Read this
    show ?thesis
    proof (cases r')
      case (Ok pkt)
      have ret: "return_id b (pktids s) i \<noteq> (Panic :: (pkt_ids, io_error) outcome) \<and>
          return_id b (pktids s) i \<noteq> (Diverge :: (pkt_ids, io_error) outcome)"
        if "i \<in> in_flight s" for i
        by (rule return_in_flight [OF assms(2) that, of b]) simp
      show ?thesis using R Ok assms(4,5) ret
        by (cases pkt) (auto simp: ev_step_def handle_packet_def handle_puback_def handle_publish_def
            andthen_eq_Panic andthen_eq_Diverge Let_def split: disconnect_reason.splits)
    qed (use R assms(5) in \<open>simp_all add: ev_step_def\<close>)
  qed
qed

section \<open>Properties\<close>

lemma accept_connack_Ok:
  "accept_connack pkt = Ok effs \<longleftrightarrow> (\<exists>p. pkt = ConnackPkt p \<and> effs = [Notified (NConnAck p)])"
  by (cases pkt) (auto simp: accept_connack_def)

text \<open>C1: a connection, from the handshake on, is a run of the abstract session: it sends
  CONNECT and reports the CONNACK, and after that every event does to the identifiers in
  flight, the messages not acknowledged and the ping what the session says, with the effects
  it says. This holds of a run that has not ended, against a server that acknowledges only
  what is in flight and a queued message only by PUBACK, and, in a build without overflow
  checks, as long as 65535 is never the only identifier left in the pool.\<close>

theorem task_refines_session:
  assumes "bytes_crate_spec B" "polite_run B b es ev_start" "b = Checked \<or> ready_run B b es ev_start"
    and "mqtt_poll B b w reads es = Some (Ok (effs, Continue s))"
  shows "\<exists>bytes p effs'. effs = Sent connect_packet bytes # Notified (NConnAck p) # effs' \<and>
    session_run B \<lparr>open_ids = {}, unacked = [], ping = None\<rparr> (map snd es) effs' (session_of s) \<and>
    ev_inv s"
proof -
  obtain effs0 s0 rs effs' where h: "handshake B w reads = Some (Ok (effs0, s0, rs))"
    and run: "ev_run B b es s0 = Ok (effs', Continue s)" and effs: "effs = effs0 @ effs'"
    using assms(4) by (auto simp: mqtt_poll_def andthen_eq_Ok split: option.splits)
  have h2: "s0 = ev_start" "\<exists>bytes p. effs0 = [Sent connect_packet bytes, Notified (NConnAck p)]"
    using h by (auto simp: handshake_def send_packet_Ok [OF assms(1)] andthen_eq_Ok accept_connack_Ok
        split: outcome.splits option.splits)
  have "session_of ev_start = \<lparr>open_ids = {}, unacked = [], ping = None\<rparr>"
    using ev_start_inv(2) by (simp add: session_of_def) (simp add: ev_start_def)
  with ev_run_session [OF assms(1) ev_start_inv(1) assms(2,3)] run h2 effs show ?thesis by auto
qed

lemma ev_start_pool: "pktids ev_start = one_range 1 65535" "queue ev_start = []" "pingresp_received ev_start = None"
  by (simp_all add: ev_start_def pktids_new_def new_with_max_def)

lemma subscribe_then_tick:
  shows "\<exists>effs s. mqtt_poll bytes_model Checked None [Some (Ok (ConnackPkt p))]
      [(None, Command (Some (CmdSubscribe [97] AtMostOnce))), (None, Tick)] = Some (Ok (effs, Continue s))"
    and "polite_run bytes_model Checked
      [(None, Command (Some (CmdSubscribe [97] AtMostOnce))), (None, Tick)] ev_start"
proof -
  have nx: "next_id Checked (one_range 1 65535) = Ok (Some 1, one_range 2 65535)"
    using next_id_one_range [of 1 65535 Checked] by (simp add: word_le_nat_alt)
  have w: "send_packet bytes_model None pkt = Ok [Sent pkt bytes]"
    if "packet_to_mqtt bytes_model pkt = (Ok bytes :: (u8 list, io_error) outcome)" for pkt bytes
    using send_packet_eq [OF bytes_model_spec that, of None] by simp
  show "\<exists>effs s. mqtt_poll bytes_model Checked None [Some (Ok (ConnackPkt p))]
      [(None, Command (Some (CmdSubscribe [97] AtMostOnce))), (None, Tick)] = Some (Ok (effs, Continue s))"
    by (simp add: mqtt_poll_def handshake_def connect_packet_def w packet_to_mqtt_def accept_connack_def
        ev_step_def handle_command_def with_next_id_def handle_tick_def ev_start_pool nx [simplified])
  show "polite_run bytes_model Checked
      [(None, Command (Some (CmdSubscribe [97] AtMostOnce))), (None, Tick)] ev_start"
    by (simp split: outcome.splits control.splits prod.splits)
qed

theorem task_refines_session_witness:
  "\<exists>effs s. session_run bytes_model \<lparr>open_ids = {}, unacked = [], ping = None\<rparr>
    [Command (Some (CmdSubscribe [97] AtMostOnce)), Tick] effs (session_of s) \<and> ev_inv s"
proof -
  let ?p = "\<lparr>connack_flags = \<lparr>session_present = False\<rparr>, connack_reason = ConnackSuccess,
    connack_properties = []\<rparr>"
  obtain effs s where "mqtt_poll bytes_model Checked None [Some (Ok (ConnackPkt ?p))]
      [(None, Command (Some (CmdSubscribe [97] AtMostOnce))), (None, Tick)] = Some (Ok (effs, Continue s))"
    using subscribe_then_tick(1) by blast
  from task_refines_session [OF bytes_model_spec subscribe_then_tick(2) _ this] show ?thesis by auto
qed

lemma command_packet_id: "command_packet cmd i pkt \<Longrightarrow> packet_id pkt = None \<or> packet_id pkt = Some i"
  by (induction rule: command_packet.induct)
    (simp_all add: at_most_once_def at_least_once_def exactly_once_def publish_new_def
      subscribe_new_def unsubscribe_new_def)

text \<open>C4: a request that carries an identifier carries one that was not in flight
  before and is in flight after, and it is written to the socket as its own encoding. This
  holds in every state of the loop's invariant, for an event of a polite server, and, in a
  build without overflow checks, unless 65535 is the only identifier left in the pool.\<close>

theorem requests_carry_fresh_ids:
  assumes "bytes_crate_spec B" "ev_inv s" "polite s e" "b = Checked \<or> pool_ready s"
    and "ev_step B b w e s = Ok (effs, Continue s')"
    and "Sent pkt bytes \<in> set effs" "packet_id pkt = Some i"
  shows "i \<noteq> 0 \<and> i \<notin> in_flight s \<and> in_flight s' = insert i (in_flight s) \<and>
    packet_to_mqtt B pkt = (Ok bytes :: (u8 list, io_error) outcome)"
proof -
  have "session_step B (session_of s) e effs (session_of s')"
    using ev_step_session [OF assms(1-5)] by blast
  then show ?thesis
  proof cases
    case (session_command cmd j pkt' bytes')
    then have "pkt' = pkt" "bytes' = bytes" using assms(6) by simp_all
    moreover from this have "j = i" using command_packet_id [OF session_command(4)] assms(7) by auto
    moreover have "in_flight s' = insert j (in_flight s)"
      using session_command(3) by (simp add: session_of_def)
    ultimately show ?thesis using session_command by (simp add: session_of_update(4))
  qed (use assms(6,7) in auto)
qed

lemma subscribe_step:
  "ev_step bytes_model Checked None (Command (Some (CmdSubscribe [97] AtMostOnce))) ev_start =
     Ok ([Sent (SubscribePkt (subscribe_new [97] 1 AtMostOnce))
            (subscribe_to_mqtt (subscribe_new [97] 1 AtMostOnce))],
       Continue (ev_start\<lparr>pktids := one_range 2 65535\<rparr>))"
proof -
  have nx: "next_id Checked (one_range 1 65535) = Ok (Some 1, one_range 2 65535)"
    using next_id_one_range [of 1 65535 Checked] by (simp add: word_le_nat_alt)
  let ?pkt = "SubscribePkt (subscribe_new [97] 1 AtMostOnce)"
  have "send_packet bytes_model None ?pkt = Ok [Sent ?pkt (subscribe_to_mqtt (subscribe_new [97] 1 AtMostOnce))]"
    by (subst send_packet_eq [OF bytes_model_spec]) (simp_all add: packet_to_mqtt_def)
  then show ?thesis
    by (simp add: ev_step_def handle_command_def with_next_id_def ev_start_pool nx [simplified])
qed

theorem requests_carry_fresh_ids_witness:
  "\<exists>s'. ev_step bytes_model Checked None (Command (Some (CmdSubscribe [97] AtMostOnce))) ev_start =
      Ok ([Sent (SubscribePkt (subscribe_new [97] 1 AtMostOnce))
             (subscribe_to_mqtt (subscribe_new [97] 1 AtMostOnce))], Continue s') \<and>
    packet_id (SubscribePkt (subscribe_new [97] 1 AtMostOnce)) = Some 1 \<and>
    1 \<notin> in_flight ev_start \<and> in_flight s' = {1}"
proof -
  have "packet_id (SubscribePkt (subscribe_new [97] 1 AtMostOnce)) = Some 1"
    by (simp add: subscribe_new_def)
  with requests_carry_fresh_ids [OF bytes_model_spec ev_start_inv(1) _ _ subscribe_step, of
      "SubscribePkt (subscribe_new [97] 1 AtMostOnce)" "subscribe_to_mqtt (subscribe_new [97] 1 AtMostOnce)" 1]
  show ?thesis using subscribe_step ev_start_inv(2) by simp
qed

text \<open>C10: in a state of the loop's invariant, and as long as 65535 is not the only identifier
  left in the pool, a step returns, with a result or an error, and does not panic or run for
  ever, whatever the socket does and in both builds. Excepted are an acknowledgement the
  server must not send (of an identifier that is not in flight, or a SUBACK or UNSUBACK of a
  queued message), an incoming message above quality of service zero, and a packet on which
  the decoder itself panics or does not return.\<close>

theorem polite_step_total:
  assumes "bytes_crate_spec B" "ev_inv s" "pool_ready s" "polite s e" "\<not> unsupported e"
  shows "(\<exists>r. ev_step B b w e s = Ok r) \<or> (\<exists>err. ev_step B b w e s = Err err)"
  using ev_step_total [OF assms, of b w] by (cases "ev_step B b w e s") auto

theorem polite_step_total_witness:
  "(\<exists>r. ev_step bytes_model Wrapping None (Command (Some CmdDisconnect)) ev_start = Ok r) \<or>
    (\<exists>err. ev_step bytes_model Wrapping None (Command (Some CmdDisconnect)) ev_start = Err err)"
  by (rule polite_step_total) (simp_all add: ev_start_inv)

text \<open>C14: the next tick ends the connection with a timeout exactly when there was a tick before
  it and no answer since the last one.\<close>

theorem ping_timeout:
  assumes "bytes_crate_spec B" "ev_run B b es ev_start = Ok (effs, Continue s)"
  shows "ev_step B b None Tick s =
    (if fold ping_status (map snd es) None = Some False then Err (IoError TimedOut PingTimedOut)
     else Ok ([Sent (PingReqPkt PingReqPacket) [0xC0, 0]], Continue (s\<lparr>pingresp_received := Some False\<rparr>)))"
proof -
  have "packet_to_mqtt B (PingReqPkt PingReqPacket) = (Ok [0xC0, 0] :: (u8 list, io_error) outcome)"
    by (simp add: packet_to_mqtt_def pingreq_to_mqtt_def)
  from send_packet_eq [OF assms(1) this, of None] show ?thesis
    using ev_run_ping [OF assms(2)] by (simp add: ev_step_def handle_tick_def ev_start_pool(3))
qed

theorem ping_timeout_witness:
  "\<exists>s effs. ev_run bytes_model Checked [(None, Tick)] ev_start = Ok (effs, Continue s) \<and>
    ev_step bytes_model Checked None Tick s = Err (IoError TimedOut PingTimedOut)"
proof -
  have "packet_to_mqtt bytes_model (PingReqPkt PingReqPacket) = (Ok [0xC0, 0] :: (u8 list, io_error) outcome)"
    by (simp add: packet_to_mqtt_def pingreq_to_mqtt_def)
  from send_packet_eq [OF bytes_model_spec this, of None]
  have "\<exists>s effs. ev_run bytes_model Checked [(None, Tick)] ev_start = Ok (effs, Continue s)"
    by (simp add: ev_step_def handle_tick_def ev_start_pool(3))
  then obtain s effs where "ev_run bytes_model Checked [(None, Tick)] ev_start = Ok (effs, Continue s)"
    by blast
  with ping_timeout [OF bytes_model_spec this] show ?thesis by auto
qed

text \<open>C26: every incoming message above quality of service zero panics the loop, also a
  well-formed one: the acknowledgement it builds for quality one has no encoder, and quality
  two is not implemented.\<close>

theorem incoming_qos_panics:
  assumes "publish_qos m \<noteq> AtMostOnce"
  shows "ev_step B b w (Read (Some (Ok (PublishPkt m)))) s = Panic"
  using assms by (cases "publish_qos m")
    (simp_all add: ev_step_def handle_packet_def handle_publish_def send_puback_panics split: option.splits)

theorem incoming_qos_panics_witness:
  "ev_step bytes_model Wrapping None
    (Read (Some (Ok (PublishPkt (at_least_once [97] (PayloadBytes []) False [] 7))))) ev_start = Panic"
  by (rule incoming_qos_panics) (simp add: at_least_once_def publish_new_def publish_qos_def)

text \<open>C11: a PUBACK for a message in flight takes exactly that message out of the queue,
  keeps the order of the others, and makes its identifier available.\<close>

theorem puback_releases:
  assumes "ev_inv s" "puback_pktid m \<in> in_flight s"
  shows "\<exists>s'. ev_step B b w (Read (Some (Ok (PubAckPkt m)))) s = Ok ([], Continue s') \<and>
    queue s' = filter (\<lambda>(i, _). i \<noteq> puback_pktid m) (queue s) \<and>
    in_flight s' = in_flight s - {puback_pktid m} \<and>
    pingresp_received s' = pingresp_received s \<and> ev_inv s'"
proof -
  let ?i = "puback_pktid m"
  let ?q = "filter (\<lambda>(i, _). i \<noteq> ?i) (queue s)"
  have d: "distinct (map fst (queue s))" using assms(1) by (simp add: ev_inv_def)
  have q: "?i \<notin> fst ` set ?q" "set ?q \<subseteq> set (queue s)" "distinct (map fst ?q)"
    using d by (auto simp: distinct_map_filter)
  obtain ids where r: "return_id b (pktids s) ?i = (Ok ids :: (pkt_ids, io_error) outcome)"
      "ev_inv (s\<lparr>pktids := ids, queue := ?q\<rparr>)"
      "session_of (s\<lparr>pktids := ids, queue := ?q\<rparr>) =
        (session_of s)\<lparr>open_ids := open_ids (session_of s) - {?i}, unacked := ?q\<rparr>"
    by (rule return_step [OF assms q])
  then have "in_flight (s\<lparr>pktids := ids, queue := ?q\<rparr>) = in_flight s - {?i}"
    by (simp add: session_of_def)
  with r(1,2) show ?thesis
    by (intro exI [of _ "s\<lparr>pktids := ids, queue := ?q\<rparr>"])
      (simp add: ev_step_def handle_packet_def handle_puback_def remove_queued [OF d])
qed

lemma one_publish_in_flight:
  defines "s \<equiv> ev_start\<lparr>pktids := one_range 2 65535,
    queue := [(1, at_least_once [97] (PayloadBytes []) False [] 1)]\<rparr>"
  shows "ev_inv s" "in_flight s = {1}"
proof -
  have p: "pi_inv 65535 0 (one_range 2 65535)" "pi_free (one_range 2 65535) = {2..65535}"
    by (rule one_range_pool; simp add: word_le_nat_alt)+
  have "x \<le> 65535" for x :: pktid
  proof -
    have "unat x \<le> 65535" using unat_u16_less [of x] by linarith
    then show ?thesis by (simp add: word_le_nat_alt)
  qed
  moreover have "x = 1" if "x \<noteq> 0" "\<not> 2 \<le> x" for x :: pktid
    using that by (auto simp: word_le_nat_alt word_unat_eq_iff)
  ultimately show f: "in_flight s = {1}"
    using p(2) by (auto simp: s_def in_flight_def all_ids_def word_le_nat_alt)
  show "ev_inv s"
    using p(1) f by (simp add: ev_inv_def)
      (simp add: s_def at_least_once_def publish_new_def publish_qos_def)
qed

theorem puback_releases_witness:
  "\<exists>s. ev_step bytes_model Checked None (Read (Some (Ok (PubAckPkt (puback_new 1)))))
      (ev_start\<lparr>pktids := one_range 2 65535, queue := [(1, at_least_once [97] (PayloadBytes []) False [] 1)]\<rparr>) =
    Ok ([], Continue s) \<and> queue s = [] \<and> in_flight s = {}"
  using puback_releases [OF one_publish_in_flight(1), of "puback_new 1" bytes_model Checked None]
    one_publish_in_flight(2)
  by (auto simp: puback_new_def)

text \<open>C13: how the loop ends: a normal DISCONNECT or the end of the stream ends it without an error,
  a DISCONNECT with another reason and an error of the decoder or the socket with one, and the
  user's disconnect after it has sent DISCONNECT.\<close>

theorem loop_ends:
  assumes "bytes_crate_spec B"
  shows "ev_step B b w (Read (Some (Ok (DisconnectPkt d)))) s =
      (if disconnect_reason d = Normal then Ok ([], Finished)
       else Err (IoError OtherKind (DisconnectedDueTo (disconnect_reason d)))) \<and>
    ev_step B b w (Read None) s = Ok ([], Finished) \<and>
    ev_step B b w (Read (Some (Err e))) s = Err e \<and>
    ev_step B b None (Command (Some CmdDisconnect)) s =
      Ok ([Sent (DisconnectPkt disconnect_new) [0xE0, 1, 0]], Finished)"
proof -
  have "packet_to_mqtt B (DisconnectPkt disconnect_new) = (Ok [0xE0, 1, 0] :: (u8 list, io_error) outcome)"
    by (simp add: packet_to_mqtt_def disconnect_new_bytes)
  from send_packet_eq [OF assms this, of None] show ?thesis
    by (simp add: ev_step_def handle_packet_def handle_command_def split: disconnect_reason.splits)
qed

theorem loop_ends_witness:
  "ev_step bytes_model Wrapping None (Read (Some (Ok (DisconnectPkt
      \<lparr>disconnect_reason = DisconnectProtocolError, disconnect_properties = []\<rparr>)))) ev_start =
    Err (IoError OtherKind (DisconnectedDueTo DisconnectProtocolError))"
  using loop_ends [OF bytes_model_spec, of Wrapping None
      "\<lparr>disconnect_reason = DisconnectProtocolError, disconnect_properties = []\<rparr>" ev_start "OsError 0"]
  by simp

end
