(* ===== verification/Source_Tests.thy ===== *)
theory Source_Tests
  imports Pktids Puback Publish
begin

text \<open>
  The unit tests of the source (\<^verbatim>\<open>mod tests\<close> of \<^verbatim>\<open>pktids.rs\<close>, \<^verbatim>\<open>puback.rs\<close>, \<^verbatim>\<open>publish.rs\<close> and
  \<^verbatim>\<open>lib.rs\<close>), evaluated on the model: on the inputs its authors chose the model does what they
  expect of the code, in both build profiles.
\<close>

section \<open>The pool\<close>

text \<open>A list of calls on a pool, \<open>None\<close> for \<open>next_id\<close> and an identifier for \<open>return_id\<close>.\<close>

fun pool_calls :: "build \<Rightarrow> pktid option list \<Rightarrow> pkt_ids \<Rightarrow> (pktid option list, unit) outcome" where
  "pool_calls b [] s = Ok []"
| "pool_calls b (None # cs) s =
     andthen (next_id b s) (\<lambda>(i, s). andthen (pool_calls b cs s) (\<lambda>is. Ok (i # is)))"
| "pool_calls b (Some i # cs) s = andthen (return_id b s i) (pool_calls b cs)"

lemmas pool_eval = next_id_def next_in_node_def pktid_new_def wire_simps return_id_def insert_head_def
  insert_between_def maybe_extend_next_node_def maybe_extend_prev_node_def vacant_slot_def set_at_def
  new_with_max_def uadd_def usub_def checked_word_def

lemma test_fetch_ids: "pool_calls b [None, None] pktids_new = Ok [Some 1, Some 2]"
  by (simp add: pool_eval pktids_new_def word_le_nat_alt)

lemma test_fetch_ids_exhausted:
  "pool_calls b [None, None, None, None, None, None, None] (new_with_max 5) =
     Ok [Some 1, Some 2, Some 3, Some 4, Some 5, None, None]"
  by (simp add: pool_eval word_le_nat_alt)

lemma nine_taken:
  "pool_calls b (None # None # None # None # None # None # None # None # None # cs) (new_with_max 12) =
    andthen (pool_calls b cs \<lparr>pi_start = 1, ranges = [Vacant, Taken 10 12 0]\<rparr>) (\<lambda>is.
    Ok (map Some [1, 2, 3, 4, 5, 6, 7, 8, 9] @ is))"
  by (cases "pool_calls b cs \<lparr>pi_start = Suc 0, ranges = [Vacant, Taken 10 12 0]\<rparr>")
    (simp_all add: pool_eval word_le_nat_alt)

lemma test_return_ids:
  "pool_calls b (None # None # None # None # None # None # None # None # None # [Some 3, Some 4, None, None, Some 3, Some 4, Some 1, None, None, None, None])
     (new_with_max 12) =
   Ok (map Some [1, 2, 3, 4, 5, 6, 7, 8, 9] @ map Some [3, 4, 1, 3, 4, 10])"
  unfolding nine_taken by (simp add: pool_eval find_slot.simps)

lemma test_return_ids2:
  "pool_calls b (None # None # None # None # None # None # None # None # None # [Some 1, Some 3, Some 4, None, None, None, None]) (new_with_max 12) =
   Ok (map Some [1, 2, 3, 4, 5, 6, 7, 8, 9] @ map Some [1, 3, 4, 10])"
  unfolding nine_taken by (simp add: pool_eval find_slot.simps)

section \<open>The decoders\<close>

lemma vbi_one_byte:
  assumes "n < 128"
  shows "vbi_from_mqtt b (ucast n # r) = Ok (VBI n, 1)"
proof -
  have n: "unat n < 128" using assms by (simp add: word_less_nat_alt)
  then have "n div 128 = 0" "n mod 128 = n" by (simp_all add: word_unat_eq_iff unat_div unat_mod)
  then have "vbi_to_mqtt (VBI n) = [ucast n]" by (simp add: vbi_to_mqtt_def vbi_bytes.simps [of n])
  moreover have "vbi_ok (VBI n)" using n by (simp add: vbi_ok_def)
  ultimately show ?thesis using vbi_codec.dec_enc_append [of "VBI n" b r] by simp
qed

lemmas small_lengths = vbi_one_byte [of 0, simplified] vbi_one_byte [of 2, simplified]
  vbi_one_byte [of 9, simplified] vbi_one_byte [of 11, simplified] vbi_one_byte [of 12, simplified]

lemma test_empty_puback_props: "puback_properties_from_mqtt b [0] = Ok (puback_properties_default, 1)"
  by (simp add: puback_properties_from_mqtt_def small_lengths vbi_eq_def)

lemmas puback_eval = puback_properties_from_mqtt_def small_lengths vbi_eq_def vbi_plus_def get_range_def
  get_from_def slice_range_def in_range_def puback_loop.simps puback_property_step_def wire_simps string_from_mqtt_def
  u16_from_be_bytes_def or_other_def str_from_utf8_def str_lit_def puback_properties_default_def

lemma test_some_reason_string:
  "puback_properties_from_mqtt b ([9, 0x1F, 0, 6] @ str_lit ''foobar'') =
     Ok (\<lparr>reason_string = Some (str_lit ''foobar''), user_properties = []\<rparr>, 10)"
  by (simp add: puback_eval)

lemma test_malformed_reason_string:
  "puback_properties_from_mqtt b ([9, 0x1F, 6, 0] @ str_lit ''foobar'') = Err NotEnoughBytes"
  by (simp add: puback_eval)

lemma test_some_user_props_string:
  "puback_properties_from_mqtt b ([12, 0x26, 0, 3] @ str_lit ''foo'' @ [0, 4] @ str_lit ''bark'') =
     Ok (\<lparr>reason_string = None, user_properties = [(str_lit ''foo'', str_lit ''bark'')]\<rparr>, 13)"
  by (simp add: puback_eval)

lemma test_parse_invalid_string: "string_from_mqtt ([6, 0] @ str_lit ''foobar'') = Err NotEnoughBytes"
  by (simp add: puback_eval)

text \<open>The messages of \<^verbatim>\<open>publish.rs\<close>.\<close>

lemmas publish_eval = publish_from_mqtt_def publish_pktid_from_def publish_payload_from_def is_utf8_format_def
  publish_flags_try_from_def qos_try_from_def properties_from_mqtt_def vec_from_mqtt_def props_loop.simps
  property_from_mqtt_def pktid_from_mqtt_def vbi_minus_def usize_sub_def usize_add_def
  pktid_new_def puback_eval

lemma test_parse_qos0:
  "publish_from_mqtt b [0b00110000, 9, 0, 1, 113, 0, 1, 2, 3, 4, 5] =
     Ok (at_most_once [113] (PayloadBytes [1, 2, 3, 4, 5]) False [], 11)"
  by (simp add: publish_eval at_most_once_def publish_new_def)

lemma test_parse_qos0_payload_str:
  "publish_from_mqtt b [0b00110000, 11, 0, 1, 119, 2, 0x01, 1, 97, 99, 101, 103, 122] =
     Ok (at_most_once [119] (PayloadString (str_lit ''acegz'')) False [PayloadFormatId 1], 13)"
  by (simp add: publish_eval at_most_once_def publish_new_def)

lemma test_parse_qos1:
  "publish_from_mqtt b [0b00110010, 11, 0, 1, 116, 0, 10, 0, 1, 2, 3, 4, 5] =
     Ok (at_least_once [116] (PayloadBytes [1, 2, 3, 4, 5]) False [] 10, 13)"
  by (simp add: publish_eval at_least_once_def publish_new_def)

end
