(* ===== verification/Spec2Isabelle.thy ===== *)
theory Spec2Isabelle
  imports Session Source_Tests
begin

text \<open>
  A model of the MQTT 5 client library \<^verbatim>\<open>ruq\<close> (the Rust sources under \<^verbatim>\<open>src/src/\<close>) and
  the proofs that it is correct where it is, and how it fails where it is not.

  \<^bold>\<open>The program.\<close> A \<^verbatim>\<open>Client\<close> (\<^verbatim>\<open>client.rs\<close>) turns requests into \<^verbatim>\<open>Command\<close>s and puts them on
  a channel. An \<^verbatim>\<open>EventLoop\<close> (\<^verbatim>\<open>lib.rs\<close>) connects, does the handshake and then waits, in one
  \<^verbatim>\<open>select!\<close>, for a timer, for packets and for commands. Identifiers of requests come from a
  pool (\<^verbatim>\<open>pktids.rs\<close>). Packets go through a codec (\<^verbatim>\<open>mqtt_codec.rs\<close>) that cuts them out of the
  byte stream, and are parsed and printed in \<^verbatim>\<open>protocol/\<close>, one module per packet, over the
  wire primitives of \<^verbatim>\<open>protocol/mod.rs\<close>.

  \<^bold>\<open>Theories.\<close>
  \<^item> \<open>Ruq_Prelude\<close>: machine integers, the two build profiles (overflow panics in \<open>Checked\<close> and
    wraps around in \<open>Wrapping\<close>), indexing and slicing with their panics, and \<open>outcome\<close>: a
    call returns \<open>Ok\<close> or \<open>Err\<close>, panics, or diverges. \<open>andthen\<close> is the \<^verbatim>\<open>?\<close> operator.
  \<^item> \<open>Mqtt_Traits\<close>: \<^verbatim>\<open>ConvertError\<close>, the \<^verbatim>\<open>bytes\<close> crate as a parameter, and the contracts of the
    traits \<^verbatim>\<open>FromMqttBytes\<close> (locale \<open>from_mqtt\<close>) and \<^verbatim>\<open>ToMqttBytes\<close> (locale \<open>mqtt_codec\<close>),
    which every decoder of the development interprets.
  \<^item> \<open>Wire\<close>: \<^verbatim>\<open>VBI\<close>, strings, byte vectors and \<^verbatim>\<open>PktId\<close> of \<^verbatim>\<open>protocol/mod.rs\<close>. \<open>Wire_Vec\<close> and
    \<open>Ack_Properties\<close>: the property list codec and the property decoder that the packet
    modules repeat. \<open>Frame\<close>: the header and length every packet shares. \<open>Qos\<close>: \<^verbatim>\<open>qos.rs\<close>.
  \<^item> \<open>Properties\<close>, \<open>Connack\<close>, \<open>Suback\<close>, \<open>Unsuback\<close>, \<open>Disconnect\<close>, \<open>Puback\<close>, \<open>Publish\<close>: the
    modules of \<^verbatim>\<open>protocol/\<close> with these names. \<open>Requests\<close>: \<^verbatim>\<open>connect.rs\<close>, \<^verbatim>\<open>subscribe.rs\<close>,
    \<^verbatim>\<open>unsubscribe.rs\<close>, \<^verbatim>\<open>pingreq.rs\<close> and \<^verbatim>\<open>pingresp.rs\<close>.
  \<^item> \<open>Mqtt_Packet\<close>: \<^verbatim>\<open>PacketType\<close>, \<^verbatim>\<open>Packet\<close> and \<^verbatim>\<open>parse_pkt\<close> of \<^verbatim>\<open>protocol/mod.rs\<close>.
    \<open>Packet_Codec\<close>: \<^verbatim>\<open>mqtt_codec.rs\<close>, with the read buffer passed and returned.
  \<^item> \<open>Pktids\<close>: \<^verbatim>\<open>pktids.rs\<close>, the vector of nodes with its vacant node 0. \<open>Pktids_Ranges\<close>: the
    list in the vector and its invariant. \<open>Pktids_Pool\<close>: the contract of an identifier pool
    (locale \<open>id_pool\<close>), interpreted on \<open>next_id\<close> and \<open>return_id\<close>.
  \<^item> \<open>Client\<close>: the requests and the builder of \<^verbatim>\<open>client.rs\<close>. \<open>Event_Loop\<close>: \<^verbatim>\<open>lib.rs\<close>, the outer
    future (\<open>el_poll\<close>), the handshake (\<open>handshake\<close>) and one round of \<^verbatim>\<open>select!\<close> (\<open>ev_step\<close>).
  \<^item> \<open>Session\<close>: the abstract session the loop implements, and the properties of runs.
    \<open>Source_Tests\<close>: the assertions of the unit tests of the source, proved of the model. This
    theory: from the builder of one side to the decoder of the other, and from the calls of a
    user to the packets on the wire.

  \<^bold>\<open>Correspondence.\<close> Structs are records, enums datatypes, integers words of their width,
  \<^verbatim>\<open>usize\<close> a natural number, strings their bytes (\<open>valid_utf8\<close> says they are UTF-8). Methods on
  \<^verbatim>\<open>&mut self\<close> take the state and return it. Texts of errors and notifications are the
  arguments of their \<^verbatim>\<open>format!\<close>. The variables of the async task are the record \<open>ev_state\<close>; what
  it awaits is an \<open>event\<close>, what it does to the outside a list of \<open>effect\<close>s, and a socket error
  in a write an argument of the step. A run is any sequence of events, which covers every
  order \<^verbatim>\<open>select!\<close> can pick.

  \<^bold>\<open>What the lemmas show.\<close> The contracts of decoders: a success takes at least one and at most
  all bytes, further bytes do not change it, and no decoder diverges. Round trips of every
  type that has both directions. \<open>decode\<close>: whatever the chunks the stream arrives in, the
  packets are the same, and the loop around it ends. The pool: an invariant \<open>pi_inv\<close> on the
  list in the vector, under which \<open>next_id\<close> and \<open>return_id\<close> are the minimum and the insertion
  of a set. The loop: \<open>ev_inv\<close> is kept by every step, a step is one of \<open>session_step\<close>, and
  with a server that acknowledges only what is in flight (\<open>polite\<close>) nothing panics but what
  the code does not support. Where a property needs that all events of a run are polite, or
  (in a build that wraps around) that an identifier besides 65535 is left at each of them
  (\<open>pool_ready\<close>), that is \<open>throughout\<close> over the run. The client: the requests of a user reach
  the wire in their order, each as one packet with what was asked. Messages are read by the
  peer as they were built under \<open>builder_ok\<close>, which excludes above all the message expiry
  interval; what \<open>from_str\<close> and \<open>from_bytes\<close> start with satisfies it (\<open>fresh_builder_ok\<close>). The errors: which inputs panic, what is lost or misread.

  \<^bold>\<open>Bounds and fuel.\<close> Loops over bytes end by a measure. \<open>find_slot\<close>, the walk of \<open>return_id\<close>, is a
  partial function, since an ill-formed vector has cycles; under the invariant it is shown to
  return. \<open>drain\<close> counts its rounds, and half the number of bytes is enough. Lengths below
  \<open>2 ^ 28\<close> are what four bytes of a \<^verbatim>\<open>VBI\<close> can hold. The pool invariant counts calls on an
  exhausted pool (\<open>k\<close>), because each of them moves the bound of its last range.

  \<^bold>\<open>Parameters.\<close> The \<^verbatim>\<open>bytes\<close> crate (\<open>bytes_crate\<close>, with its documented behaviour in
  \<open>bytes_crate_spec\<close>) and \<^verbatim>\<open>Sender::try_send\<close> of \<^verbatim>\<open>futures\<close> (\<open>try_send_spec\<close>: messages arrive in
  order, and one is taken while the channel has a slot). Both have an instance. The two
  channels that \<open>client_new\<close> makes are its arguments.

  \<^bold>\<open>Not modelled.\<close> Sockets, timers, tasks and channels of \<^verbatim>\<open>tokio\<close> and \<^verbatim>\<open>futures\<close>, and the buffers
  inside \<^verbatim>\<open>FramedRead\<close> and \<^verbatim>\<open>FramedWrite\<close>: third-party code, of which the model sees the events.
  Failed sends of notifications, which the code ignores. Logging, \<^verbatim>\<open>Debug\<close> and \<^verbatim>\<open>Display\<close>. The
  operators on \<^verbatim>\<open>VBI\<close> that no code uses (\<^verbatim>\<open>u32\<close> against \<^verbatim>\<open>VBI\<close>, \<^verbatim>\<open>usize - VBI\<close>). Allocation
  failure and the 64-bit overflow of lengths of data in memory. The example program
  \<^verbatim>\<open>src/examples/1.rs\<close>, which calls the client from threads that sleep.
\<close>

section \<open>From the builder to the peer\<close>

text \<open>
  The messages both sides can agree on: a topic and properties that can be encoded (so no
  message expiry interval, which the decoder misreads), a payload format property that says
  UTF-8 exactly when the payload is a string, which then is, and a total below four bytes of
  length.
\<close>

definition builder_ok :: "bytes_crate \<Rightarrow> publish_builder \<Rightarrow> bool" where
  "builder_ok B pb \<longleftrightarrow>
     string_ok (pb_topic pb) \<and> format_agrees (pb_payload pb) (pb_properties pb) \<and>
     (case pb_payload pb of PayloadString s \<Rightarrow> valid_utf8 s | PayloadBytes _ \<Rightarrow> True) \<and>
     list_all (property_ok B) (pb_properties pb) \<and>
     length (pb_topic pb) + length (properties_to_mqtt B (pb_properties pb)) +
       length (payload_to_mqtt (pb_payload pb)) < 2 ^ 28 - 4"

lemma prepare_publish_ready:
  assumes "ev_inv s" "pool_ready s"
  obtains i s' where "prepare_publish b t p ps q r s = Ok (publish_new t p r ps i q, s')"
    "i = None \<longleftrightarrow> q = AtMostOnce" "i \<noteq> Some 0"
proof (cases "q = AtMostOnce")
  case True
  then show ?thesis using that [of None s] by (simp add: prepare_publish_def at_most_once_def)
next
  case False
  show ?thesis
    by (rule next_id_ready [OF assms, of b], cases q)
      (use False in \<open>auto intro: that simp: prepare_publish_def with_next_id_def at_least_once_def
        exactly_once_def Let_def\<close>)
qed

lemma builder_publish_ok:
  assumes "bytes_crate_spec B" "builder_ok B pb" "i = None \<longleftrightarrow> q = AtMostOnce" "i \<noteq> Some 0"
  shows "publish_ok B (publish_new (pb_topic pb) (pb_payload pb) r (pb_properties pb) i q)"
proof -
  let ?p = "publish_new (pb_topic pb) (pb_payload pb) r (pb_properties pb) i q"
  have "publish_wf ?p"
    using assms(2-4) by (auto simp: builder_ok_def publish_wf_def publish_new_def format_agrees_def
        split: payload.splits)
  moreover have "length (concat (map (property_to_mqtt B) (pb_properties pb))) \<le>
      length (properties_to_mqtt B (pb_properties pb))"
    by (simp add: properties_to_mqtt_def vec_to_mqtt_def Let_def)
  then have "vec_ok (property_to_mqtt B) (property_ok B) (pb_properties pb)"
    using assms(2) by (simp add: builder_ok_def vec_ok_def)
  moreover have "length (publish_buf B ?p) < 2 ^ 28"
    using assms(2) by (cases i) (simp_all add: builder_ok_def publish_buf_def publish_new_def)
  ultimately show ?thesis by (simp add: publish_ok_def publish_new_def)
qed

text \<open>The packet a peer reads says what the builder was told.\<close>

definition carries :: "publish_builder \<Rightarrow> publish \<Rightarrow> bool" where
  "carries pb pkt \<longleftrightarrow>
     topic pkt = pb_topic pb \<and> payload pkt = pb_payload pb \<and> properties pkt = pb_properties pb \<and>
     publish_qos pkt = (case pb_qos pb of Some q \<Rightarrow> q | None \<Rightarrow> AtMostOnce) \<and>
     retain (flags pkt) = (pb_retain pb = Some True) \<and>
     (pktid pkt = None \<longleftrightarrow> publish_qos pkt = AtMostOnce)"

lemma build_command_step:
  assumes "bytes_crate_spec B" "ev_inv s" "pool_ready s"
  obtains pkt bytes s' where
    "ev_step B b None (Command (Some (build_command pb))) s =
      Ok ([Sent (PublishPkt pkt) bytes], Continue s')"
    "packet_to_mqtt B (PublishPkt pkt) = (Ok bytes :: (u8 list, io_error) outcome)"
    "carries pb pkt" "builder_ok B pb \<Longrightarrow> publish_ok B pkt"
proof -
  define q where "q = (case pb_qos pb of Some q \<Rightarrow> q | None \<Rightarrow> AtMostOnce)"
  define r where "r = (case pb_retain pb of Some r \<Rightarrow> r | None \<Rightarrow> False)"
  obtain i s' where prep: "prepare_publish b (pb_topic pb) (pb_payload pb) (pb_properties pb) q r s =
      Ok (publish_new (pb_topic pb) (pb_payload pb) r (pb_properties pb) i q, s')"
    and i: "i = None \<longleftrightarrow> q = AtMostOnce" "i \<noteq> Some 0"
    by (rule prepare_publish_ready [OF assms(2,3)])
  let ?pkt = "publish_new (pb_topic pb) (pb_payload pb) r (pb_properties pb) i q"
  have "pktid ?pkt = None \<longleftrightarrow> qos (flags ?pkt) = AtMostOnce"
    using i(1) by (simp add: publish_new_def)
  then obtain bytes where
    bytes: "packet_to_mqtt B (PublishPkt ?pkt) = (Ok bytes :: (u8 list, io_error) outcome)"
    by (simp add: packet_to_mqtt_def publish_to_mqtt_eq)
  have "ev_step B b None (Command (Some (build_command pb))) s =
      Ok ([Sent (PublishPkt ?pkt) bytes], Continue s')"
    using prep send_packet_eq [OF assms(1) bytes, of None]
    by (simp add: ev_step_def handle_command_def build_command_def q_def r_def)
  moreover have "r = (pb_retain pb = Some True)" by (simp add: r_def split: option.splits)
  then have "carries pb ?pkt" using i(1)
    by (simp add: carries_def publish_new_def publish_qos_def q_def)
  ultimately show ?thesis using that bytes builder_publish_ok [OF assms(1) _ i] by blast
qed

lemma publish_step:
  assumes "bytes_crate_spec B" "builder_ok B pb" "ev_inv s" "pool_ready s"
  obtains pkt bytes s' where
    "ev_step B b None (Command (Some (build_command pb))) s =
      Ok ([Sent (PublishPkt pkt) bytes], Continue s')"
    "framed_as b' bytes (PublishPkt pkt)" "carries pb pkt"
proof -
  obtain pkt bytes s' where pkt: "ev_step B b None (Command (Some (build_command pb))) s =
      Ok ([Sent (PublishPkt pkt) bytes], Continue s')" "carries pb pkt" "publish_ok B pkt"
    "packet_to_mqtt B (PublishPkt pkt) = (Ok bytes :: (u8 list, io_error) outcome)"
    using build_command_step [OF assms(1,3,4)] assms(2) by metis
  then have "framed_as b' bytes (PublishPkt pkt)"
    using publish_framed_as [OF assms(1) pkt(3), of b'] by auto
  with pkt(1,2) that show ?thesis by blast
qed

text \<open>Room in the pool, counted by what is in flight.\<close>

lemma u16_le_max: "(x :: u16) \<le> 65535"
proof -
  have "unat x < 65536" by (rule unat_u16_less)
  then have "unat x \<le> 65535" by linarith
  then show ?thesis by (simp add: word_le_nat_alt)
qed

lemma card_ids_but_last: "card (all_ids 65535 - {65535}) = 65534"
proof -
  have "all_ids 65535 - {65535} = UNIV - {0, 65535}" using u16_le_max by (auto simp: all_ids_def)
  then show ?thesis by (simp add: card_Diff_subset card_word)
qed

lemma room_ready: "card (in_flight s) < 65534 \<Longrightarrow> pool_ready s"
  using card_ids_but_last by (fastforce simp: pool_ready_def in_flight_def)

lemma step_in_flight:
  assumes "bytes_crate_spec B" "ev_inv s" "pool_ready s"
    and "ev_step B b w (Command (Some cmd)) s = Ok ([Sent pkt bytes], Continue s')"
  shows "ev_inv s' \<and> (case packet_id pkt of
      None \<Rightarrow> in_flight s' = in_flight s
    | Some i \<Rightarrow> i \<notin> in_flight s \<and> in_flight s' = insert i (in_flight s))"
proof -
  have "session_step B (session_of s) (Command (Some cmd)) [Sent pkt bytes] (session_of s')"
    and "ev_inv s'"
    using ev_step_session [OF assms(1,2) _ _ assms(4)] assms(3) by simp_all
  then show ?thesis
    by cases (auto simp: session_of_def dest: command_packet_id)
qed

text \<open>What \<^verbatim>\<open>from_str\<close> and \<^verbatim>\<open>from_bytes\<close> start with is such a message, if it is short enough.\<close>

lemma format_property_bytes:
  "bytes_crate_spec B \<Longrightarrow> properties_to_mqtt B [PayloadFormatId x] = [2, 1, x]"
  by (simp add: properties_to_mqtt_def vec_to_mqtt_def property_to_mqtt_def bytes_crate_specD
      vbi_to_mqtt_def vbi_bytes.simps [of 2])

lemma fresh_builder_ok:
  assumes "bytes_crate_spec B" "string_ok t" "length t + length d < 2 ^ 28 - 9"
  shows "valid_utf8 d \<Longrightarrow> builder_ok B (from_str t d)" "builder_ok B (from_bytes t d)"
  using assms by (simp_all add: builder_ok_def from_str_def from_bytes_def format_agrees_def
      is_utf8_format_def format_property_bytes payload_to_mqtt_def string_to_mqtt_def)

lemma small_builder_ok: "builder_ok bytes_model (builder_qos (from_str [97] [98]) AtLeastOnce)"
  using fresh_builder_ok(1) [OF bytes_model_spec, of "[97]" "[98]"]
  by (simp add: builder_ok_def builder_qos_def string_ok_def in_range_def)

text \<open>C2: what a user builds with topic, payload, properties and quality of service
  is what the peer decodes, if the message is one both sides can agree on (\<open>builder_ok\<close>: every
  part can be encoded, there is no message expiry interval, a format property says UTF-8
  exactly when the payload is a string, and the whole is short enough) and the loop is in a
  state of its invariant with an identifier besides 65535 left. If the socket takes what is
  written, the command becomes one PUBLISH on the wire, and the decoder of the other side reads back the same topic, payload and
  properties, with the quality chosen or at most once, not retained unless asked, and an
  identifier when the quality needs one.\<close>

theorem publish_end_to_end:
  assumes "bytes_crate_spec B" "builder_ok B pb" "ev_inv s" "pool_ready s"
  shows "\<exists>pkt bytes s'.
    ev_step B b None (Command (Some (build_command pb))) s =
      Ok ([Sent (PublishPkt pkt) bytes], Continue s') \<and>
    decode B b' (bytes @ rest) = (Ok (Some (PublishPkt pkt)), rest) \<and>
    topic pkt = pb_topic pb \<and> payload pkt = pb_payload pb \<and> properties pkt = pb_properties pb \<and>
    publish_qos pkt = (case pb_qos pb of Some q \<Rightarrow> q | None \<Rightarrow> AtMostOnce) \<and>
    retain (flags pkt) = (pb_retain pb = Some True) \<and>
    (pktid pkt = None \<longleftrightarrow> publish_qos pkt = AtMostOnce)"
proof -
  obtain pkt bytes s' where "ev_step B b None (Command (Some (build_command pb))) s =
      Ok ([Sent (PublishPkt pkt) bytes], Continue s')"
    "framed_as b' bytes (PublishPkt pkt)" "carries pb pkt"
    by (rule publish_step [OF assms])
  then show ?thesis using framed_as_decode [OF assms(1)] by (auto simp: carries_def)
qed

theorem publish_end_to_end_witness:
  "\<exists>pkt bytes s.
    ev_step bytes_model Checked None (Command (Some (build_command
      (builder_qos (from_str [97] [98]) AtLeastOnce)))) ev_start =
      Ok ([Sent (PublishPkt pkt) bytes], Continue s) \<and>
    decode bytes_model Wrapping (bytes @ [0]) = (Ok (Some (PublishPkt pkt)), [0]) \<and>
    payload pkt = PayloadString [98] \<and> publish_qos pkt = AtLeastOnce"
  using publish_end_to_end [OF bytes_model_spec small_builder_ok ev_start_inv(1,3), of Checked Wrapping "[0]"]
  by (auto simp: builder_qos_def from_str_def)

section \<open>A stream of published messages\<close>

definition sent_bytes :: "effect list \<Rightarrow> u8 list" where
  "sent_bytes effs = concat (map (\<lambda>e. case e of Sent _ bytes \<Rightarrow> bytes | Notified _ \<Rightarrow> []) effs)"

fun publish_events :: "publish_builder list \<Rightarrow> (write_error \<times> event) list" where
  "publish_events [] = []"
| "publish_events (pb # pbs) = (None, Command (Some (build_command pb))) # publish_events pbs"

lemma publishes_run:
  assumes "bytes_crate_spec B" "list_all (builder_ok B) pbs" "ev_inv s"
    and "card (in_flight s) + length pbs \<le> 65534"
  shows "\<exists>effs pkts s' frames. ev_run B b (publish_events pbs) s = Ok (effs, Continue s') \<and>
    list_all2 carries pbs pkts \<and> list_all2 (framed_as b') frames (map PublishPkt pkts) \<and>
    sent_bytes effs = concat frames \<and> distinct (List.map_filter pktid pkts) \<and>
    set (List.map_filter pktid pkts) \<inter> in_flight s = {}"
  using assms(2-4)
proof (induction pbs arbitrary: s)
  case Nil
  show ?case by (intro exI [of _ "[]"] exI [of _ s]) (simp add: sent_bytes_def List.map_filter_def)
next
  case (Cons pb pbs)
  then have ready: "pool_ready s" and pb: "builder_ok B pb" by (simp_all add: room_ready)
  obtain pkt bytes s1 where step: "ev_step B b None (Command (Some (build_command pb))) s =
      Ok ([Sent (PublishPkt pkt) bytes], Continue s1)"
    "framed_as b' bytes (PublishPkt pkt)" "carries pb pkt"
    by (rule publish_step [OF assms(1) pb Cons.prems(2) ready])
  have s1: "ev_inv s1" "case pktid pkt of None \<Rightarrow> in_flight s1 = in_flight s
      | Some i \<Rightarrow> i \<notin> in_flight s \<and> in_flight s1 = insert i (in_flight s)"
    using step_in_flight [OF assms(1) Cons.prems(2) ready step(1)] by simp_all
  then have "card (in_flight s1) + length pbs \<le> 65534"
    using Cons.prems(3) by (auto split: option.splits)
  then obtain effs pkts s' frames where IH: "ev_run B b (publish_events pbs) s1 = Ok (effs, Continue s')"
    "list_all2 carries pbs pkts" "list_all2 (framed_as b') frames (map PublishPkt pkts)"
    "sent_bytes effs = concat frames" "distinct (List.map_filter pktid pkts)"
    "set (List.map_filter pktid pkts) \<inter> in_flight s1 = {}"
    using Cons.IH [of s1] Cons.prems(1) s1(1) by auto
  have "ev_run B b (publish_events (pb # pbs)) s = Ok (Sent (PublishPkt pkt) bytes # effs, Continue s')"
    using step(1) IH(1) by simp
  moreover have "distinct (List.map_filter pktid (pkt # pkts)) \<and>
      set (List.map_filter pktid (pkt # pkts)) \<inter> in_flight s = {}"
    using s1(2) IH(5,6) by (auto simp: List.map_filter_simps split: option.splits)
  ultimately show ?case
    using step(2,3) IH(2-4)
    by (intro exI [of _ "Sent (PublishPkt pkt) bytes # effs"] exI [of _ "pkt # pkts"] exI [of _ s']
        exI [of _ "bytes # frames"]) (simp add: sent_bytes_def)
qed

text \<open>C3: messages both sides can agree on (\<open>builder_ok\<close>: encodable, without a message
  expiry interval, with a format property that agrees with the payload, short enough), as many
  as leave at most 65534 identifiers in flight, published one after the other in a state of the
  loop's invariant with a socket that takes what is written, are written to the socket under distinct identifiers that nobody holds, and
  the peer reads them in order and as they were built, however the bytes are cut on the way.\<close>

theorem publishes_delivered:
  assumes "bytes_crate_spec B" "list_all (builder_ok B) pbs" "ev_inv s"
    and "card (in_flight s) + length pbs \<le> 65534"
  shows "\<exists>effs pkts s'. ev_run B b (publish_events pbs) s = Ok (effs, Continue s') \<and>
    list_all2 carries pbs pkts \<and> distinct (List.map_filter pktid pkts) \<and>
    set (List.map_filter pktid pkts) \<inter> in_flight s = {} \<and>
    (\<forall>cs. concat cs = sent_bytes effs \<longrightarrow> fed B b' [] cs (map PublishPkt pkts) [])"
  using publishes_run [OF assms, of b b'] fed_frames [OF assms(1)] by metis

theorem publishes_delivered_witness:
  "\<exists>effs pkts s. ev_run bytes_model Checked (publish_events
      (replicate 3 (builder_qos (from_str [97] [98]) AtLeastOnce))) ev_start = Ok (effs, Continue s) \<and>
    length pkts = 3 \<and> fed bytes_model Wrapping [] (map (\<lambda>x. [x]) (sent_bytes effs)) (map PublishPkt pkts) []"
proof -
  have "list_all (builder_ok bytes_model) (replicate 3 (builder_qos (from_str [97] [98]) AtLeastOnce))"
    using small_builder_ok by (simp add: list_all_length)
  from publishes_delivered [OF bytes_model_spec this ev_start_inv(1), of Checked Wrapping]
  obtain effs pkts s where *: "ev_run bytes_model Checked (publish_events
      (replicate 3 (builder_qos (from_str [97] [98]) AtLeastOnce))) ev_start = Ok (effs, Continue s)"
    "list_all2 carries (replicate 3 (builder_qos (from_str [97] [98]) AtLeastOnce)) pkts"
    "\<And>cs. concat cs = sent_bytes effs \<Longrightarrow> fed bytes_model Wrapping [] cs (map PublishPkt pkts) []"
    by (auto simp: ev_start_inv)
  moreover have "length pkts = 3" using list_all2_lengthD [OF *(2)] by simp
  moreover have "concat (map (\<lambda>x. [x]) xs) = xs" for xs :: "u8 list" by (induction xs) simp_all
  ultimately show ?thesis by blast
qed

section \<open>From the client to the wire\<close>

text \<open>The packet a request becomes.\<close>

fun asks :: "request \<Rightarrow> packet \<Rightarrow> bool" where
  "asks (AskSubscribe t q) pkt \<longleftrightarrow> (\<exists>i. pkt = SubscribePkt (subscribe_new t i q))"
| "asks (AskPublish pb) pkt \<longleftrightarrow> (\<exists>p. pkt = PublishPkt p \<and> carries pb p)"
| "asks (AskUnsubscribe t) pkt \<longleftrightarrow> (\<exists>i. pkt = UnsubscribePkt (unsubscribe_new [t] i))"
| "asks AskDisconnect pkt \<longleftrightarrow> pkt = DisconnectPkt disconnect_new"

text \<open>The loop when it wakes for the commands of the channel, one after the other.\<close>

definition command_events :: "command list \<Rightarrow> (write_error \<times> event) list" where
  "command_events cmds = map (\<lambda>cmd. (None, Command (Some cmd))) cmds"

lemma command_events_simps [simp]:
  "command_events [] = []"
  "command_events (cmd # cmds) = (None, Command (Some cmd)) # command_events cmds"
  "command_events (xs @ ys) = command_events xs @ command_events ys"
  by (simp_all add: command_events_def)

lemma ev_run_append:
  "ev_run B b es s = Ok (effs, Continue s') \<Longrightarrow>
    ev_run B b (es @ es') s = andthen (ev_run B b es' s') (\<lambda>(effs', c). Ok (effs @ effs', c))"
proof (induction es arbitrary: s effs)
  case Nil
  then show ?case by (cases "ev_run B b es' s'") auto
next
  case (Cons we es)
  obtain w e where we: "we = (w, e)" by (cases we)
  with Cons.prems obtain effs1 s1 effs2 where "ev_step B b w e s = Ok (effs1, Continue s1)"
    "ev_run B b es s1 = Ok (effs2, Continue s')" "effs = effs1 @ effs2"
    by (auto simp: ev_run_Cons_Continue simp del: ev_run.simps)
  then show ?case using Cons.IH [of s1 effs2] we by (cases "ev_run B b es' s'") auto
qed

lemma request_step:
  assumes "bytes_crate_spec B" "ev_inv s" "pool_ready s" "r \<noteq> AskDisconnect"
  obtains pkt bytes s' where
    "ev_step B b None (Command (Some (request_command r))) s = Ok ([Sent pkt bytes], Continue s')"
    "asks r pkt" "packet_to_mqtt B pkt = (Ok bytes :: (u8 list, io_error) outcome)"
proof -
  note send = send_packet_eq [OF assms(1), of _ _ None]
  obtain i ids where
    n: "next_id b (pktids s) = (Ok (Some i, ids) :: (pktid option \<times> pkt_ids, io_error) outcome)"
    by (rule next_id_ready [OF assms(2,3)])
  show ?thesis
  proof (cases r)
    case (AskSubscribe t q)
    then show ?thesis using send [of "SubscribePkt (subscribe_new t i q)"] n
      by (intro that) (auto simp: ev_step_def handle_command_def with_next_id_def packet_to_mqtt_def)
  next
    case (AskUnsubscribe t)
    then show ?thesis using send [of "UnsubscribePkt (unsubscribe_new [t] i)"] n
      by (intro that) (auto simp: ev_step_def handle_command_def with_next_id_def packet_to_mqtt_def)
  next
    case (AskPublish pb)
    show ?thesis
      by (rule build_command_step [OF assms(1-3), of b pb]) (rule that, auto simp: AskPublish)
  qed (use assms(4) in simp)
qed

text \<open>A run of requests, with room for an identifier for each.\<close>

lemma requests_run:
  assumes "bytes_crate_spec B" "AskDisconnect \<notin> set rs" "ev_inv s"
    and "card (in_flight s) + length rs \<le> 65534"
  shows "\<exists>effs pkts frames s'.
    ev_run B b (command_events (map request_command rs)) s = Ok (effs, Continue s') \<and>
    effs = map2 Sent pkts frames \<and> list_all2 asks rs pkts \<and>
    list_all2 (\<lambda>p f. packet_to_mqtt B p = (Ok f :: (u8 list, io_error) outcome)) pkts frames \<and>
    distinct (List.map_filter packet_id pkts) \<and>
    set (List.map_filter packet_id pkts) \<inter> in_flight s = {} \<and>
    in_flight s' = in_flight s \<union> set (List.map_filter packet_id pkts)"
  using assms(2-4)
proof (induction rs arbitrary: s)
  case Nil
  show ?case
    by (intro exI [of _ "[]"] exI [of _ s]) (simp add: List.map_filter_def)
next
  case (Cons r rs)
  then have ready: "pool_ready s" and r: "r \<noteq> AskDisconnect" by (auto simp: room_ready)
  obtain pkt bytes s1 where
    step: "ev_step B b None (Command (Some (request_command r))) s = Ok ([Sent pkt bytes], Continue s1)"
    and pkt: "asks r pkt" "packet_to_mqtt B pkt = (Ok bytes :: (u8 list, io_error) outcome)"
    by (rule request_step [OF assms(1) Cons.prems(2) ready r])
  have s1: "ev_inv s1" "case packet_id pkt of None \<Rightarrow> in_flight s1 = in_flight s
      | Some i \<Rightarrow> i \<notin> in_flight s \<and> in_flight s1 = insert i (in_flight s)"
    using step_in_flight [OF assms(1) Cons.prems(2) ready step] by simp_all
  then have "card (in_flight s1) + length rs \<le> 65534"
    using Cons.prems(3) by (auto split: option.splits)
  then obtain effs pkts frames s' where
    IH: "ev_run B b (command_events (map request_command rs)) s1 = Ok (effs, Continue s')"
    "effs = map2 Sent pkts frames" "list_all2 asks rs pkts"
    "list_all2 (\<lambda>p f. packet_to_mqtt B p = (Ok f :: (u8 list, io_error) outcome)) pkts frames"
    "distinct (List.map_filter packet_id pkts)"
    "set (List.map_filter packet_id pkts) \<inter> in_flight s1 = {}"
    "in_flight s' = in_flight s1 \<union> set (List.map_filter packet_id pkts)"
    using Cons.IH [of s1] Cons.prems(1) s1(1) by auto
  have "ev_run B b (command_events (map request_command (r # rs))) s =
      Ok (Sent pkt bytes # effs, Continue s')"
    using step IH(1) by simp
  moreover have "distinct (List.map_filter packet_id (pkt # pkts)) \<and>
      set (List.map_filter packet_id (pkt # pkts)) \<inter> in_flight s = {} \<and>
      in_flight s' = in_flight s \<union> set (List.map_filter packet_id (pkt # pkts))"
    using s1(2) IH(5-7) by (auto simp: List.map_filter_simps split: option.splits)
  ultimately show ?case
    using pkt IH(2-4)
    by (intro exI [of _ "Sent pkt bytes # effs"] exI [of _ "pkt # pkts"] exI [of _ "bytes # frames"]
        exI [of _ s']) simp
qed

lemma disconnect_step:
  assumes "bytes_crate_spec B"
  shows "ev_step B b None (Command (Some CmdDisconnect)) s =
    Ok ([Sent (DisconnectPkt disconnect_new) [0xE0, 1, 0]], Finished)"
proof -
  have "packet_to_mqtt B (DisconnectPkt disconnect_new) = (Ok [0xE0, 1, 0] :: (u8 list, io_error) outcome)"
    by (simp add: packet_to_mqtt_def disconnect_new_bytes)
  from send_packet_eq [OF assms this, of None] show ?thesis
    by (simp add: ev_step_def handle_command_def)
qed

text \<open>C22: a user of an empty channel who subscribes, publishes and unsubscribes
  in any order, no more often than leaves a free slot in the channel and than leaves at most
  65534 identifiers in flight, and then disconnects, has every call accepted. When the loop, in
  a state of its invariant and with a socket that takes what is written, wakes for these commands,
  it writes exactly one packet for each request and in their order, that says what was asked:
  the topic and the quality of a subscription, the topic of an unsubscription, and of a
  message all the builder was told, at most once and not retained unless asked. Each packet
  goes out as its encoder makes it, the identifiers are pairwise different and new, and all of
  them are in flight afterwards. Then DISCONNECT is written, and the loop ends without an
  error, whatever is asked after that.\<close>

theorem client_requests_reach_wire:
  assumes "bytes_crate_spec B" "try_send_spec send pending slots"
    and "pending c = []" "length rs < slots c" "AskDisconnect \<notin> set rs"
    and "ev_inv s" "card (in_flight s) + length rs \<le> 65534"
  shows "\<exists>c' c'' pkts frames s'.
    client_requests send c rs = (replicate (length rs) (Ok ()), c') \<and>
    client_disconnect send c' = (Ok (), c'') \<and>
    ev_run B b (command_events (pending c')) s = Ok (map2 Sent pkts frames, Continue s') \<and>
    list_all2 asks rs pkts \<and>
    list_all2 (\<lambda>p f. packet_to_mqtt B p = (Ok f :: (u8 list, io_error) outcome)) pkts frames \<and>
    distinct (List.map_filter packet_id pkts) \<and>
    set (List.map_filter packet_id pkts) \<inter> in_flight s = {} \<and>
    in_flight s' = in_flight s \<union> set (List.map_filter packet_id pkts) \<and>
    (\<forall>later. ev_run B b (command_events (pending c'' @ later)) s =
      Ok (map2 Sent pkts frames @ [Sent (DisconnectPkt disconnect_new) [0xE0, 1, 0]], Finished))"
proof -
  obtain c' where c': "client_requests send c rs = (replicate (length rs) (Ok ()), c')"
    "pending c' = map request_command rs" "0 < slots c'"
    using client_requests_sent [OF assms(2), of rs c] assms(3,4) by auto
  obtain c'' where c'': "client_disconnect send c' = (Ok (), c'')"
    "pending c'' = pending c' @ [CmdDisconnect]"
    using client_request_sent [OF assms(2) c'(3), of AskDisconnect] by auto
  obtain pkts frames s' where run:
    "ev_run B b (command_events (pending c')) s = Ok (map2 Sent pkts frames, Continue s')"
    and pkts: "list_all2 asks rs pkts"
      "list_all2 (\<lambda>p f. packet_to_mqtt B p = (Ok f :: (u8 list, io_error) outcome)) pkts frames"
      "distinct (List.map_filter packet_id pkts)"
      "set (List.map_filter packet_id pkts) \<inter> in_flight s = {}"
      "in_flight s' = in_flight s \<union> set (List.map_filter packet_id pkts)"
    using requests_run [OF assms(1,5-7), of b] c'(2) by metis
  have "ev_run B b (command_events (pending c'' @ later)) s =
      Ok (map2 Sent pkts frames @ [Sent (DisconnectPkt disconnect_new) [0xE0, 1, 0]], Finished)" for later
    using ev_run_append [OF run] disconnect_step [OF assms(1)] c''(2) by simp
  with c'(1) c''(1) run pkts show ?thesis by blast
qed

theorem client_requests_reach_wire_witness:
  "\<exists>c' p i j bytes1 bytes2 bytes3 s'.
    client_requests list_send (4, [])
      [AskSubscribe [97] AtLeastOnce, AskPublish (from_str [97] [98]), AskUnsubscribe [97]] =
      ([Ok (), Ok (), Ok ()], c') \<and>
    ev_run bytes_model Wrapping (command_events (snd c')) ev_start =
      Ok ([Sent (SubscribePkt (subscribe_new [97] i AtLeastOnce)) bytes1, Sent (PublishPkt p) bytes2,
        Sent (UnsubscribePkt (unsubscribe_new [[97]] j)) bytes3], Continue s') \<and>
    carries (from_str [97] [98]) p \<and> pktid p = None \<and> i \<noteq> j \<and> in_flight s' = {i, j}"
proof -
  let ?rs = "[AskSubscribe [97] AtLeastOnce, AskPublish (from_str [97] [98]), AskUnsubscribe [97]]"
  have "length ?rs < list_slots (4, [])" "AskDisconnect \<notin> set ?rs"
    "card (in_flight ev_start) + length ?rs \<le> 65534"
    by (simp_all add: list_slots_def ev_start_inv)
  from client_requests_reach_wire [OF bytes_model_spec list_send_spec _ this(1,2) ev_start_inv(1) this(3), of Wrapping]
  obtain c' pkts frames s' where *:
    "client_requests list_send (4, []) ?rs = (replicate (length ?rs) (Ok ()), c')"
    "ev_run bytes_model Wrapping (command_events (snd c')) ev_start =
      Ok (map2 Sent pkts frames, Continue s')"
    "list_all2 asks ?rs pkts" "distinct (List.map_filter packet_id pkts)"
    "list_all2 (\<lambda>p f. packet_to_mqtt bytes_model p = (Ok f :: (u8 list, io_error) outcome)) pkts frames"
    "in_flight s' = in_flight ev_start \<union> set (List.map_filter packet_id pkts)"
    by auto
  from *(3) obtain i p j where pkts: "pkts = [SubscribePkt (subscribe_new [97] i AtLeastOnce),
      PublishPkt p, UnsubscribePkt (unsubscribe_new [[97]] j)]" "carries (from_str [97] [98]) p"
    by (auto simp: list_all2_Cons1)
  moreover have "pktid p = None" using pkts(2) by (simp add: carries_def from_str_def)
  moreover have "i \<noteq> j" "in_flight s' = {i, j}"
    using *(4,6) calculation
    by (auto simp: List.map_filter_simps subscribe_new_def unsubscribe_new_def ev_start_inv)
  moreover obtain f1 f2 f3 where "frames = [f1, f2, f3]"
    using *(5) pkts(1) by (auto simp: list_all2_Cons1)
  ultimately show ?thesis using *(1,2) by (auto simp: numeral_eq_Suc)
qed

end
